(* ===== verification/Httpd_Prelude.thy ===== *)
theory Httpd_Prelude
  imports Main "HOL-Library.Char_ord" "HOL-Library.Sublist" "HOL-Library.Word" "HOL-Library.AList"
begin

text \<open>
  The vocabulary shared by the component theories: byte strings with the searching and slicing
  operations of \<open>std::string\<close>, character classes of the "C" locale, decimal and hexadecimal
  printing, the scanners behind \<open>std::stoi\<close>, \<open>std::stoll\<close> and \<open>std::stoull\<close>, and the header
  tables (\<open>std::unordered_map<std::string, std::string>\<close>). These are the parts of the C++
  standard library the sources use; everything else is modelled in the theory of its component.
  A \<open>char\<close> is one byte, so a \<open>string\<close> is exactly the content of a \<open>std::string\<close>, and
  \<open>npos\<close> is \<open>None\<close>.
\<close>

section \<open>Collections of facts\<close>

named_theorems str_simps \<open>evaluation of the string operations\<close>
named_theorems fd_simps \<open>what an operation does to the open descriptors\<close>

section \<open>Searching and slicing\<close>

primrec find_idx :: "('a \<Rightarrow> bool) \<Rightarrow> 'a list \<Rightarrow> nat option" where
  "find_idx P [] = None"
| "find_idx P (x # xs) = (if P x then Some 0 else map_option Suc (find_idx P xs))"

definition find_char :: "char \<Rightarrow> string \<Rightarrow> nat option" where
  "find_char c s = find_idx (\<lambda>x. x = c) s"

definition find_char_from :: "char \<Rightarrow> string \<Rightarrow> nat \<Rightarrow> nat option" where
  "find_char_from c s i = map_option (\<lambda>k. i + k) (find_char c (drop i s))"

definition rfind_char :: "char \<Rightarrow> string \<Rightarrow> nat option" where
  "rfind_char c s = map_option (\<lambda>k. length s - Suc k) (find_char c (rev s))"

definition substr :: "string \<Rightarrow> nat \<Rightarrow> nat \<Rightarrow> string" where
  "substr s pos n = take n (drop pos s)"

fun find_sub :: "string \<Rightarrow> string \<Rightarrow> nat option" where
  "find_sub pat [] = (if pat = [] then Some 0 else None)"
| "find_sub pat (x # xs) =
     (if prefix pat (x # xs) then Some 0 else map_option Suc (find_sub pat xs))"

lemma find_idx_None_iff: "find_idx P xs = None \<longleftrightarrow> (\<forall>x \<in> set xs. \<not> P x)"
  by (induction xs) auto

lemma find_idx_SomeD:
  "find_idx P xs = Some i \<Longrightarrow> i < length xs \<and> P (xs ! i) \<and> (\<forall>x \<in> set (take i xs). \<not> P x)"
  by (induction xs arbitrary: i) (auto split: if_splits)

lemma find_idx_append:
  "find_idx P (xs @ ys) =
     (case find_idx P xs of Some i \<Rightarrow> Some i
      | None \<Rightarrow> map_option (\<lambda>k. length xs + k) (find_idx P ys))"
  by (induction xs; cases "find_idx P ys") (auto split: option.split)

lemma find_idx_prefix:
  "\<forall>x \<in> set xs. \<not> P x \<Longrightarrow> P y \<Longrightarrow> find_idx P (xs @ y # ys) = Some (length xs)"
  by (induction xs) auto

lemma find_char_None_iff: "find_char c s = None \<longleftrightarrow> c \<notin> set s"
  by (auto simp: find_char_def find_idx_None_iff)

lemma find_char_notin [simp]: "c \<notin> set s \<Longrightarrow> find_char c s = None"
  by (simp add: find_char_None_iff)

lemma find_char_SomeD:
  assumes "find_char c s = Some i"
  shows "i < length s" "s ! i = c" "c \<notin> set (take i s)"
    "s = take i s @ c # drop (Suc i) s"
proof -
  from assms have *: "i < length s \<and> s ! i = c \<and> (\<forall>x \<in> set (take i s). x \<noteq> c)"
    unfolding find_char_def by (rule find_idx_SomeD)
  then show "i < length s" "s ! i = c" "c \<notin> set (take i s)" by auto
  with id_take_nth_drop [of i s] show "s = take i s @ c # drop (Suc i) s" by simp
qed

lemma find_char_prefix: "c \<notin> set xs \<Longrightarrow> find_char c (xs @ c # ys) = Some (length xs)"
  by (auto simp: find_char_def intro: find_idx_prefix)

lemma find_char_append:
  "find_char c (xs @ ys) =
     (case find_char c xs of Some i \<Rightarrow> Some i
      | None \<Rightarrow> map_option (\<lambda>k. length xs + k) (find_char c ys))"
  unfolding find_char_def by (rule find_idx_append)

lemma find_char_simps [str_simps]:
  "find_char c [] = None"
  "find_char c (x # xs) = (if x = c then Some 0 else map_option Suc (find_char c xs))"
  by (simp_all add: find_char_def)

lemma find_sub_Some_bound:
  "find_sub pat s = Some i \<Longrightarrow> i + length pat \<le> length s \<and> take (length pat) (drop i s) = pat"
proof (induction pat s arbitrary: i rule: find_sub.induct)
  case (2 pat x xs)
  show ?case
  proof (cases "prefix pat (x # xs)")
    case True
    then have "length pat \<le> length (x # xs)" by (rule prefix_length_le)
    with True "2.prems" show ?thesis by (auto simp: prefix_def)
  next
    case False
    with "2.prems" obtain j where "find_sub pat xs = Some j" "i = Suc j" by auto
    with "2.IH" False show ?thesis by simp
  qed
qed (auto split: if_splits)

text \<open>
  The pieces \<open>std::getline\<close> reads up to a delimiter: the delimiter is dropped, and nothing
  follows a delimiter at the very end.
\<close>

fun getlines :: "char \<Rightarrow> string \<Rightarrow> string list" where
  "getlines d [] = []"
| "getlines d (c # cs) =
     (if c = d then [] # getlines d cs
      else (case getlines d cs of [] \<Rightarrow> [[c]] | l # ls \<Rightarrow> (c # l) # ls))"

lemma getlines_line: "d \<notin> set l \<Longrightarrow> getlines d (l @ d # rest) = l # getlines d rest"
  by (induction l) auto

lemma getlines_last: "d \<notin> set l \<Longrightarrow> l \<noteq> [] \<Longrightarrow> getlines d l = [l]"
proof (induction l)
  case (Cons c l)
  then show ?case by (cases "l = []") auto
qed simp

lemma getlines_concat:
  "list_all (\<lambda>l. d \<notin> set l) ls \<Longrightarrow> getlines d (concat (map (\<lambda>l. l @ [d]) ls) @ rest) = ls @ getlines d rest"
  by (induction ls) (auto simp: getlines_line)

lemma getlines_no_delim: "l \<in> set (getlines d s) \<Longrightarrow> d \<notin> set l \<and> set l \<subseteq> set s"
  by (induction d s arbitrary: l rule: getlines.induct) (fastforce split: if_splits list.splits)+

section \<open>Character classes\<close>

definition is_space :: "char \<Rightarrow> bool" where
  "is_space c \<longleftrightarrow> (of_char c :: nat) = 32 \<or> (9 \<le> (of_char c :: nat) \<and> (of_char c :: nat) \<le> 13)"

definition is_digit :: "char \<Rightarrow> bool" where
  "is_digit c \<longleftrightarrow> 48 \<le> (of_char c :: nat) \<and> (of_char c :: nat) \<le> 57"

definition digit_val :: "char \<Rightarrow> nat" where
  "digit_val c = of_char c - 48"

definition lower_char :: "char \<Rightarrow> char" where
  "lower_char c =
     (if 65 \<le> (of_char c :: nat) \<and> (of_char c :: nat) \<le> 90 then char_of (of_char c + 32 :: nat) else c)"

abbreviation CR :: char where "CR \<equiv> CHR 0x0D"
abbreviation LF :: char where "LF \<equiv> CHR 0x0A"
abbreviation TAB :: char where "TAB \<equiv> CHR 0x09"
abbreviation crlf :: string where "crlf \<equiv> [CR, LF]"

lemma lower_char_idem [simp]: "lower_char (lower_char c) = lower_char c"
  by (simp add: lower_char_def)

lemma lower_char_upper [str_simps]:
  "lower_char CHR ''A'' = CHR ''a''" "lower_char CHR ''B'' = CHR ''b''" "lower_char CHR ''C'' = CHR ''c''"
  "lower_char CHR ''D'' = CHR ''d''" "lower_char CHR ''E'' = CHR ''e''" "lower_char CHR ''F'' = CHR ''f''"
  "lower_char CHR ''G'' = CHR ''g''" "lower_char CHR ''H'' = CHR ''h''" "lower_char CHR ''I'' = CHR ''i''"
  "lower_char CHR ''J'' = CHR ''j''" "lower_char CHR ''K'' = CHR ''k''" "lower_char CHR ''L'' = CHR ''l''"
  "lower_char CHR ''M'' = CHR ''m''" "lower_char CHR ''N'' = CHR ''n''" "lower_char CHR ''O'' = CHR ''o''"
  "lower_char CHR ''P'' = CHR ''p''" "lower_char CHR ''Q'' = CHR ''q''" "lower_char CHR ''R'' = CHR ''r''"
  "lower_char CHR ''S'' = CHR ''s''" "lower_char CHR ''T'' = CHR ''t''" "lower_char CHR ''U'' = CHR ''u''"
  "lower_char CHR ''V'' = CHR ''v''" "lower_char CHR ''W'' = CHR ''w''" "lower_char CHR ''X'' = CHR ''x''"
  "lower_char CHR ''Y'' = CHR ''y''" "lower_char CHR ''Z'' = CHR ''z''"
  by code_simp+

lemma lower_char_lower [str_simps]:
  "lower_char CHR ''a'' = CHR ''a''" "lower_char CHR ''b'' = CHR ''b''" "lower_char CHR ''c'' = CHR ''c''"
  "lower_char CHR ''d'' = CHR ''d''" "lower_char CHR ''e'' = CHR ''e''" "lower_char CHR ''f'' = CHR ''f''"
  "lower_char CHR ''g'' = CHR ''g''" "lower_char CHR ''h'' = CHR ''h''" "lower_char CHR ''i'' = CHR ''i''"
  "lower_char CHR ''j'' = CHR ''j''" "lower_char CHR ''k'' = CHR ''k''" "lower_char CHR ''l'' = CHR ''l''"
  "lower_char CHR ''m'' = CHR ''m''" "lower_char CHR ''n'' = CHR ''n''" "lower_char CHR ''o'' = CHR ''o''"
  "lower_char CHR ''p'' = CHR ''p''" "lower_char CHR ''q'' = CHR ''q''" "lower_char CHR ''r'' = CHR ''r''"
  "lower_char CHR ''s'' = CHR ''s''" "lower_char CHR ''t'' = CHR ''t''" "lower_char CHR ''u'' = CHR ''u''"
  "lower_char CHR ''v'' = CHR ''v''" "lower_char CHR ''w'' = CHR ''w''" "lower_char CHR ''x'' = CHR ''x''"
  "lower_char CHR ''y'' = CHR ''y''" "lower_char CHR ''z'' = CHR ''z''"
  by code_simp+

lemma is_digit_not_space: "is_digit c \<Longrightarrow> \<not> is_space c"
  by (auto simp: is_digit_def is_space_def)

section \<open>Printing integers\<close>

text \<open>\<open>std::to_string\<close> and the \<open>%zx\<close>, \<open>%lx\<close>, \<open>%llx\<close> conversions.\<close>

definition digit_char :: "nat \<Rightarrow> char" where
  "digit_char d = (if d < 10 then char_of (48 + d) else char_of (87 + d))"

function radix :: "nat \<Rightarrow> nat \<Rightarrow> string" where
  "radix b n = (if n < b \<or> b < 2 then [digit_char n] else radix b (n div b) @ [digit_char (n mod b)])"
  by pat_completeness auto
termination
  by (relation "measure snd") (auto intro: div_less_dividend)

declare radix.simps [simp del]

abbreviation dec_nat :: "nat \<Rightarrow> string" where "dec_nat \<equiv> radix 10"
abbreviation hex_nat :: "nat \<Rightarrow> string" where "hex_nat \<equiv> radix 16"

definition dec_int :: "int \<Rightarrow> string" where
  "dec_int i = (if i < 0 then CHR ''-'' # dec_nat (nat (- i)) else dec_nat (nat i))"

section \<open>Scanning integers\<close>

text \<open>
  \<open>strtol\<close> and its relatives skip white space, accept one sign, and read the longest run of
  digits; \<open>std::stoi\<close> and its relatives throw \<open>std::invalid_argument\<close> when no digit was
  read and \<open>std::out_of_range\<close> when the value does not fit. The scanner returns the sign, the
  magnitude and the number of bytes consumed.
\<close>

datatype cxx_exn = Invalid_argument | Out_of_range

definition digits_value :: "string \<Rightarrow> nat" where
  "digits_value ds = foldl (\<lambda>acc c. acc * 10 + digit_val c) 0 ds"

definition strip_sign :: "string \<Rightarrow> bool \<times> string" where
  "strip_sign s = (case s of
       c # cs \<Rightarrow> if c = CHR ''-'' then (True, cs) else if c = CHR ''+'' then (False, cs) else (False, s)
     | [] \<Rightarrow> (False, []))"

definition scan_integer :: "string \<Rightarrow> (bool \<times> nat \<times> nat) option" where
  "scan_integer s =
     (let r = dropWhile is_space s; (neg, r') = strip_sign r; ds = takeWhile is_digit r'
      in if ds = [] then None
         else Some (neg, digits_value ds, length s - length r' + length ds))"

definition signed_in :: "nat \<Rightarrow> bool \<Rightarrow> nat \<Rightarrow> int option" where
  "signed_in w neg m =
     (let i = (if neg then - int m else int m)
      in if - (2 ^ (w - 1)) \<le> i \<and> i < 2 ^ (w - 1) then Some i else None)"

definition stoi :: "string \<Rightarrow> cxx_exn + int \<times> nat" where
  "stoi s = (case scan_integer s of None \<Rightarrow> Inl Invalid_argument
     | Some (neg, m, pos) \<Rightarrow>
         (case signed_in 32 neg m of None \<Rightarrow> Inl Out_of_range | Some i \<Rightarrow> Inr (i, pos)))"

definition stoll :: "string \<Rightarrow> cxx_exn + int" where
  "stoll s = (case scan_integer s of None \<Rightarrow> Inl Invalid_argument
     | Some (neg, m, pos) \<Rightarrow>
         (case signed_in 64 neg m of None \<Rightarrow> Inl Out_of_range | Some i \<Rightarrow> Inr i))"

text \<open>\<open>std::stoull\<close> negates modulo \<open>2\<^sup>64\<close> when a minus sign was read.\<close>

definition stoull :: "string \<Rightarrow> cxx_exn + 64 word" where
  "stoull s = (case scan_integer s of None \<Rightarrow> Inl Invalid_argument
     | Some (neg, m, pos) \<Rightarrow>
         if 2 ^ 64 \<le> m then Inl Out_of_range
         else Inr (if neg then - of_nat m else of_nat m))"

lemma digit_char_digit [simp]: "d < 10 \<Longrightarrow> is_digit (digit_char d)"
  by (simp add: is_digit_def digit_char_def)

lemma digit_val_digit_char [simp]: "d < 10 \<Longrightarrow> digit_val (digit_char d) = d"
  by (simp add: digit_val_def digit_char_def)

lemma radix_nonempty [simp]: "radix b n \<noteq> []"
  by (subst radix.simps) simp

lemma dec_nat_digits: "c \<in> set (dec_nat n) \<Longrightarrow> is_digit c"
proof (induction n rule: less_induct)
  case (less n)
  from less.prems have "c \<in> set (if n < 10 then [digit_char n] else dec_nat (n div 10) @ [digit_char (n mod 10)])"
    by (simp add: radix.simps [of 10 n])
  then show ?case
    using less.IH [of "n div 10"] by (auto split: if_splits)
qed

lemma digits_value_append:
  "digits_value (ds @ [c]) = digits_value ds * 10 + digit_val c"
  by (simp add: digits_value_def)

lemma digits_value_dec_nat [simp]: "digits_value (dec_nat n) = n"
proof (induction n rule: less_induct)
  case (less n)
  show ?case
  proof (cases "n < 10")
    case True
    then show ?thesis by (subst radix.simps) (simp add: digits_value_def)
  next
    case False
    with less have "digits_value (dec_nat (n div 10)) = n div 10" by simp
    with False show ?thesis by (subst radix.simps) (simp add: digits_value_append)
  qed
qed

lemma takeWhile_dec_nat [simp]: "takeWhile is_digit (dec_nat n) = dec_nat n"
  by (simp add: takeWhile_eq_all_conv dec_nat_digits)

lemma dec_nat_head:
  obtains c cs where "dec_nat n = c # cs" "is_digit c"
  by (metis dec_nat_digits list.exhaust list.set_intros(1) radix_nonempty)

lemma is_digit_not_sign: "is_digit c \<Longrightarrow> c \<noteq> CHR ''-'' \<and> c \<noteq> CHR ''+''"
  by (auto simp: is_digit_def)

lemma scan_integer_dec_nat [simp]: "scan_integer (dec_nat n) = Some (False, n, length (dec_nat n))"
proof -
  obtain c cs where c: "dec_nat n = c # cs" "is_digit c" by (rule dec_nat_head)
  have "dropWhile is_space (dec_nat n) = dec_nat n"
    using c is_digit_not_space by simp
  moreover have "strip_sign (dec_nat n) = (False, dec_nat n)"
    using c is_digit_not_sign by (simp add: strip_sign_def)
  ultimately show ?thesis by (simp add: scan_integer_def)
qed

lemma stoi_dec_nat [simp]: "n < 2 ^ 31 \<Longrightarrow> stoi (dec_nat n) = Inr (int n, length (dec_nat n))"
  by (simp add: stoi_def signed_in_def)

lemma stoll_dec_nat [simp]: "n < 2 ^ 63 \<Longrightarrow> stoll (dec_nat n) = Inr (int n)"
  by (simp add: stoll_def signed_in_def)

lemma stoull_dec_nat [simp]: "n < 2 ^ 64 \<Longrightarrow> stoull (dec_nat n) = Inr (of_nat n)"
  by (simp add: stoull_def)

section \<open>Header tables\<close>

text \<open>
  An \<open>std::unordered_map<std::string, std::string>\<close> is a list of pairs with distinct keys. The
  order of the list is the order an iteration visits the table in, which the C++ standard leaves
  open: \<open>header_set\<close> fixes where a new key lands, and a theorem about serialised bytes that
  must not depend on it is stated for every table, or for every permutation of one.
\<close>

type_synonym headers = "(string \<times> string) list"

definition header_get :: "headers \<Rightarrow> string \<Rightarrow> string option" where
  "header_get h k = map_of h k"

definition header_set :: "string \<Rightarrow> string \<Rightarrow> headers \<Rightarrow> headers" where
  "header_set k v h = AList.update k v h"

definition headers_ok :: "headers \<Rightarrow> bool" where
  "headers_ok h \<longleftrightarrow> distinct (map fst h)"

text \<open>
  What the rest of the program relies on: a stored value is found again, other keys are left
  alone, and the keys stay distinct.
\<close>

locale header_store =
  fixes get :: "'m \<Rightarrow> 'k \<Rightarrow> 'v option"
    and set :: "'k \<Rightarrow> 'v \<Rightarrow> 'm \<Rightarrow> 'm"
    and ok :: "'m \<Rightarrow> bool"
    and empty :: "'m"
  assumes get_empty: "get empty k = None"
    and get_set: "get (set k v m) j = (if j = k then Some v else get m j)"
    and ok_empty: "ok empty"
    and ok_set: "ok m \<Longrightarrow> ok (set k v m)"
begin

definition set_all :: "('k \<times> 'v) list \<Rightarrow> 'm \<Rightarrow> 'm" where
  "set_all kvs m = foldl (\<lambda>m kv. set (fst kv) (snd kv) m) m kvs"

lemma set_all_simps [simp]:
  "set_all [] m = m"
  "set_all ((k, v) # kvs) m = set_all kvs (set k v m)"
  by (simp_all add: set_all_def)

lemma ok_set_all: "ok m \<Longrightarrow> ok (set_all kvs m)"
  by (induction kvs arbitrary: m) (auto simp: ok_set)

text \<open>The last assignment to a key wins.\<close>

lemma get_set_all:
  "get (set_all kvs m) k = (case map_of (rev kvs) k of Some v \<Rightarrow> Some v | None \<Rightarrow> get m k)"
proof (induction kvs arbitrary: m)
  case Nil
  then show ?case by simp
next
  case (Cons kv kvs)
  then show ?case
    by (cases kv) (auto simp: get_set map_add_def split: option.split)
qed

lemma get_set_all_distinct:
  assumes "distinct (map fst kvs)"
  shows "get (set_all kvs empty) k = map_of kvs k"
proof -
  have "map_of (rev kvs) = map_of kvs"
    using assms by (intro map_of_eqI) (auto simp: rev_map [symmetric])
  then show ?thesis by (simp add: get_set_all get_empty split: option.split)
qed

end

interpretation hdr: header_store header_get header_set headers_ok "[]"
proof
  show "header_get (header_set k v m) j = (if j = k then Some v else header_get m j)" for k v m j
    by (simp add: header_get_def header_set_def update_conv')
qed (auto simp: header_get_def header_set_def headers_ok_def distinct_update)

lemmas header_simps = hdr.get_empty hdr.get_set hdr.ok_empty hdr.ok_set

declare header_simps [simp]

section \<open>Incremental decoders\<close>

text \<open>
  The contract between a reader that receives a byte stream in arbitrary pieces and the decoder it
  feeds: while the decoder still waits for input, cutting the input in two makes no difference;
  once it has stopped waiting, it keeps its verdict and ignores what else it is fed.
\<close>

locale incremental_decoder =
  fixes feed :: "'a list \<Rightarrow> 's \<Rightarrow> 's"
    and waiting :: "'s \<Rightarrow> bool"
  assumes feed_feed: "waiting (feed a s) \<Longrightarrow> feed b (feed a s) = feed (a @ b) s"
    and feed_stopped: "\<not> waiting s \<Longrightarrow> feed a s = s"
begin

definition feed_all :: "'a list list \<Rightarrow> 's \<Rightarrow> 's" where
  "feed_all cs s = foldl (\<lambda>s c. feed c s) s cs"

text \<open>Every chunk but the last leaves the decoder waiting.\<close>

fun steady :: "'a list list \<Rightarrow> 's \<Rightarrow> bool" where
  "steady [] s = True"
| "steady [c] s = True"
| "steady (c # d # cs) s = (waiting (feed c s) \<and> steady (d # cs) (feed c s))"

lemma feed_all_simps [simp]:
  "feed_all [] s = s" "feed_all (c # cs) s = feed_all cs (feed c s)"
  "feed_all (cs @ ds) s = feed_all ds (feed_all cs s)"
  by (simp_all add: feed_all_def)

lemma feed_all_stopped: "\<not> waiting s \<Longrightarrow> feed_all cs s = s"
  by (induction cs) (auto simp: feed_stopped)

lemma feed_all_concat:
  assumes "steady cs s" "cs \<noteq> []"
  shows "feed_all cs s = feed (concat cs) s"
  using assms
proof (induction cs s rule: steady.induct)
  case (3 c d cs s)
  then have "feed_all (d # cs) (feed c s) = feed (concat (d # cs)) (feed c s)" by simp
  with 3 show ?case by (simp add: feed_feed)
qed auto

end

section \<open>Invariants of transition systems\<close>

text \<open>
  A component with state promises an invariant: it holds at the start and every step keeps it.
  Its clients then have it in every state a run can reach.
\<close>

locale invariant_system =
  fixes init :: "'s"
    and step :: "'s \<Rightarrow> 's \<Rightarrow> bool"
    and inv :: "'s \<Rightarrow> bool"
  assumes inv_init: "inv init"
    and inv_step: "inv s \<Longrightarrow> step s t \<Longrightarrow> inv t"
begin

inductive reachable :: "'s \<Rightarrow> bool" where
  start: "reachable init"
| step: "reachable s \<Longrightarrow> step s t \<Longrightarrow> reachable t"

lemma reachable_inv: "reachable s \<Longrightarrow> inv s"
  by (induction rule: reachable.induct) (auto intro: inv_init inv_step)

end

lemma list_update_split:
  assumes "i < length ws" "ws ! i = w"
  obtains us vs where "ws = us @ w # vs" "length us = i" "\<And>x. ws[i := x] = us @ x # vs"
proof
  show "ws = take i ws @ w # drop (Suc i) ws"
    using id_take_nth_drop [OF assms(1)] assms(2) by simp
qed (use assms in \<open>simp_all add: upd_conv_take_nth_drop\<close>)

end
