(* ===== verification/Http_Message.thy ===== *)
theory Http_Message
  imports Httpd_Prelude
begin

text \<open>
  Requests and responses: \<open>http/core/http_request.hpp\<close>, \<open>http_request.cpp\<close>,
  \<open>http_response.hpp\<close> and \<open>http_response.cpp\<close>. The structs are records, the enums datatypes;
  serialisation is translated literally. The second half shows that a client that splits a
  serialised response at its first blank line, and undoes the chunked coding, recovers the body.
\<close>

section \<open>Requests\<close>

datatype meth = GET | POST | HEAD | OPTIONS

fun method_to_string :: "meth \<Rightarrow> string" where
  "method_to_string GET = ''GET''"
| "method_to_string POST = ''POST''"
| "method_to_string HEAD = ''HEAD''"
| "method_to_string OPTIONS = ''OPTIONS''"

record http_request =
  rq_method :: meth
  rq_method_str :: string
  rq_uri :: string
  rq_headers :: headers
  rq_content_length :: "16 word"
  rq_buffer :: string

definition empty_request :: http_request where
  "empty_request = \<lparr>rq_method = GET, rq_method_str = ''GET'', rq_uri = [], rq_headers = [],
     rq_content_length = 0, rq_buffer = []\<rparr>"

definition make_request :: "meth \<Rightarrow> string \<Rightarrow> headers \<Rightarrow> 16 word \<Rightarrow> string \<Rightarrow> http_request" where
  "make_request m uri h cd buf = \<lparr>rq_method = m, rq_method_str = method_to_string m, rq_uri = uri,
     rq_headers = h, rq_content_length = cd, rq_buffer = buf\<rparr>"

definition header_lines :: "headers \<Rightarrow> string" where
  "header_lines h = concat (map (\<lambda>(k, v). k @ '': '' @ v @ crlf) h)"

definition request_to_bytes :: "http_request \<Rightarrow> string" where
  "request_to_bytes r =
     rq_method_str r @ '' '' @ rq_uri r @ '' '' @ ''HTTP/1.1'' @ crlf
     @ header_lines (rq_headers r) @ rq_buffer r"

section \<open>Responses\<close>

text \<open>
  The enum has a fixed underlying type, so a variable of it holds any \<open>int\<close>;
  \<open>St_Other\<close> stands for the values without an enumerator, which \<open>static_cast\<close> produces from
  the status line of a CGI script.
\<close>

datatype status_code =
    St_Ok | St_NoContent | St_PartialContent | St_NotModified | St_BadRequest
  | St_InvalidCredentials | St_Forbidden | St_NotFound | St_MethodNotAllowed | St_NotAcceptable
  | St_PayloadTooLarge | St_RangeNotSatisfiable | St_InternalServerError | St_BadGateway
  | St_ServiceUnavailable | St_GatewayTimeout | St_Other int

definition status_table :: "(int \<times> status_code) list" where
  "status_table =
     [(200, St_Ok), (204, St_NoContent), (206, St_PartialContent), (304, St_NotModified),
      (400, St_BadRequest), (401, St_InvalidCredentials), (403, St_Forbidden), (404, St_NotFound),
      (405, St_MethodNotAllowed), (406, St_NotAcceptable), (413, St_PayloadTooLarge),
      (416, St_RangeNotSatisfiable), (500, St_InternalServerError), (502, St_BadGateway),
      (503, St_ServiceUnavailable), (504, St_GatewayTimeout)]"

fun status_int :: "status_code \<Rightarrow> int" where
  "status_int St_Ok = 200"
| "status_int St_NoContent = 204"
| "status_int St_PartialContent = 206"
| "status_int St_NotModified = 304"
| "status_int St_BadRequest = 400"
| "status_int St_InvalidCredentials = 401"
| "status_int St_Forbidden = 403"
| "status_int St_NotFound = 404"
| "status_int St_MethodNotAllowed = 405"
| "status_int St_NotAcceptable = 406"
| "status_int St_PayloadTooLarge = 413"
| "status_int St_RangeNotSatisfiable = 416"
| "status_int St_InternalServerError = 500"
| "status_int St_BadGateway = 502"
| "status_int St_ServiceUnavailable = 503"
| "status_int St_GatewayTimeout = 504"
| "status_int (St_Other i) = i"

definition cast_status :: "int \<Rightarrow> status_code" where
  "cast_status i = (case map_of status_table i of Some s \<Rightarrow> s | None \<Rightarrow> St_Other i)"

fun status_to_string :: "status_code \<Rightarrow> string" where
  "status_to_string St_Ok = ''OK''"
| "status_to_string St_NoContent = ''No Content''"
| "status_to_string St_PartialContent = ''Partial Content''"
| "status_to_string St_NotModified = ''Not Modified''"
| "status_to_string St_BadRequest = ''Bad Request''"
| "status_to_string St_InvalidCredentials = ''Unauthorized''"
| "status_to_string St_Forbidden = ''Forbidden''"
| "status_to_string St_NotFound = ''Not Found''"
| "status_to_string St_MethodNotAllowed = ''Method Not Allowed''"
| "status_to_string St_NotAcceptable = ''Not Acceptable''"
| "status_to_string St_PayloadTooLarge = ''Payload Too Large''"
| "status_to_string St_RangeNotSatisfiable = ''Range Not Satisfiable''"
| "status_to_string St_InternalServerError = ''Internal Server Error''"
| "status_to_string St_BadGateway = ''Bad Gateway''"
| "status_to_string St_ServiceUnavailable = ''Service Unavailable''"
| "status_to_string St_GatewayTimeout = ''Gateway Timeout''"
| "status_to_string (St_Other i) = ''Unknown Status Code''"

record http_response =
  rs_status_code :: status_code
  rs_status_message :: string
  rs_headers :: headers
  rs_body :: string
  rs_body_fd :: int
  rs_body_fd_offset :: int
  rs_body_fd_size :: int

definition mk_response :: "status_code \<Rightarrow> http_response" where
  "mk_response s = \<lparr>rs_status_code = s, rs_status_message = status_to_string s, rs_headers = [],
     rs_body = [], rs_body_fd = -1, rs_body_fd_offset = 0, rs_body_fd_size = 0\<rparr>"

definition set_header :: "string \<Rightarrow> string \<Rightarrow> http_response \<Rightarrow> http_response" where
  "set_header k v r = r\<lparr>rs_headers := header_set k v (rs_headers r)\<rparr>"

definition is_chunked :: "headers \<Rightarrow> bool" where
  "is_chunked h = (case header_get h ''Transfer-Encoding'' of None \<Rightarrow> False | Some v \<Rightarrow> v = ''chunked'')"

definition headers_to_bytes :: "http_response \<Rightarrow> string" where
  "headers_to_bytes r =
     ''HTTP/1.1 '' @ dec_int (status_int (rs_status_code r)) @ '' '' @ rs_status_message r @ crlf
     @ header_lines (rs_headers r) @ crlf"

definition chunk_body :: "string \<Rightarrow> string" where
  "chunk_body body =
     (if body \<noteq> [] then hex_nat (length body) @ crlf @ body @ crlf else []) @ ''0'' @ crlf @ crlf"

definition to_bytes :: "http_response \<Rightarrow> string" where
  "to_bytes r = headers_to_bytes r
     @ (if is_chunked (rs_headers r) then chunk_body (rs_body r) else rs_body r)"

lemma set_header_simps [simp]:
  "rs_headers (set_header k v r) = header_set k v (rs_headers r)"
  "rs_status_code (set_header k v r) = rs_status_code r"
  "rs_status_message (set_header k v r) = rs_status_message r"
  "rs_body (set_header k v r) = rs_body r"
  "rs_body_fd (set_header k v r) = rs_body_fd r"
  "rs_body_fd_offset (set_header k v r) = rs_body_fd_offset r"
  "rs_body_fd_size (set_header k v r) = rs_body_fd_size r"
  by (simp_all add: set_header_def)

lemma mk_response_simps [simp]:
  "rs_status_code (mk_response s) = s"
  "rs_status_message (mk_response s) = status_to_string s"
  "rs_headers (mk_response s) = []"
  "rs_body (mk_response s) = []"
  "rs_body_fd (mk_response s) = -1"
  "rs_body_fd_offset (mk_response s) = 0"
  "rs_body_fd_size (mk_response s) = 0"
  by (simp_all add: mk_response_def)

lemma status_int_cast [simp]: "status_int (cast_status i) = i"
proof -
  have "\<forall>(j, s) \<in> set status_table. status_int s = j"
    by (simp add: status_table_def)
  then show ?thesis
    by (auto simp: cast_status_def split: option.split dest!: map_of_SomeD)
qed

lemma cast_status_int: "(\<And>i. s \<noteq> St_Other i) \<Longrightarrow> cast_status (status_int s) = s"
  by (cases s) (simp_all add: cast_status_def status_table_def)

section \<open>Framing: what a client reads back\<close>

text \<open>
  The client side of RFC 9112, as a reference: the header section ends at the first blank line,
  and a chunked payload is a sequence of sized chunks closed by an empty one.
\<close>

definition client_split :: "string \<Rightarrow> (string \<times> string) option" where
  "client_split s = map_option (\<lambda>i. (take i s, drop (i + 4) s)) (find_sub (crlf @ crlf) s)"

definition hex_digit_val :: "char \<Rightarrow> nat" where
  "hex_digit_val c = (if is_digit c then digit_val c else of_char c - 87)"

definition hex_value :: "string \<Rightarrow> nat" where
  "hex_value ds = foldl (\<lambda>acc c. acc * 16 + hex_digit_val c) 0 ds"

function client_dechunk :: "string \<Rightarrow> string option" where
  "client_dechunk s =
     (case find_sub crlf s of
        None \<Rightarrow> None
      | Some i \<Rightarrow>
          let n = hex_value (take i s); rest = drop (i + 2) s
          in if n = 0 then (if rest = crlf then Some [] else None)
             else if length rest < n + 2 \<or> substr rest n 2 \<noteq> crlf then None
             else map_option (\<lambda>b. take n rest @ b) (client_dechunk (drop (n + 2) rest)))"
  by pat_completeness auto
termination
  by (relation "measure length") (auto dest!: find_sub_Some_bound)

declare client_dechunk.simps [simp del]

definition client_body :: "http_response \<Rightarrow> string option" where
  "client_body r = (case client_split (to_bytes r) of None \<Rightarrow> None
     | Some (_, payload) \<Rightarrow>
         if is_chunked (rs_headers r) then client_dechunk payload else Some payload)"

text \<open>A header section is unambiguous when no field contains a line feed.\<close>

definition lf_free :: "http_response \<Rightarrow> bool" where
  "lf_free r \<longleftrightarrow> LF \<notin> set (rs_status_message r)
     \<and> list_all (\<lambda>(k, v). LF \<notin> set k \<and> LF \<notin> set v) (rs_headers r)"

lemma hex_digit_val_digit_char [simp]: "d < 16 \<Longrightarrow> hex_digit_val (digit_char d) = d"
  by (auto simp: hex_digit_val_def digit_char_def is_digit_def digit_val_def)

lemma hex_value_hex_nat [simp]: "hex_value (hex_nat n) = n"
proof (induction n rule: less_induct)
  case (less n)
  show ?case
  proof (cases "n < 16")
    case True
    then show ?thesis by (subst radix.simps) (simp add: hex_value_def)
  next
    case False
    with less have "hex_value (hex_nat (n div 16)) = n div 16" by simp
    with False show ?thesis by (subst radix.simps) (simp add: hex_value_def)
  qed
qed

lemma hex_nat_no_CR: "CR \<notin> set (hex_nat n)"
proof (induction n rule: less_induct)
  case (less n)
  have *: "CR \<noteq> digit_char d" if "d < 16" for d
  proof
    assume "CR = digit_char d"
    then have "(of_char (digit_char d) :: nat) = of_char CR" by simp
    with that show False by (auto simp: digit_char_def split: if_splits)
  qed
  show ?case
  proof (cases "n < 16")
    case True
    with * show ?thesis by (simp add: radix.simps [of 16 n])
  next
    case False
    with less [of "n div 16"] * [of "n mod 16"] show ?thesis by (simp add: radix.simps [of 16 n])
  qed
qed

lemma hex_nat_0 [simp]: "hex_nat 0 = ''0''"
  by (subst radix.simps) (simp add: digit_char_def char_of_def bit_0)

lemma find_sub_crlf: "CR \<notin> set l \<Longrightarrow> find_sub crlf (l @ crlf @ rest) = Some (length l)"
  by (induction l) auto

lemma find_blank_line_step:
  assumes "LF \<notin> set l"
  shows "find_sub (crlf @ crlf) (l @ crlf @ rest) =
    (if prefix crlf rest then Some (length l)
     else map_option (\<lambda>k. length l + 2 + k) (find_sub (crlf @ crlf) rest))"
  using assms
proof (induction l)
  case Nil
  have "find_sub (crlf @ crlf) (LF # rest) = map_option Suc (find_sub (crlf @ crlf) rest)"
    by simp
  then show ?case
    by (cases rest) (auto simp: option.map_comp comp_def)
next
  case (Cons x l)
  then have "\<not> prefix (crlf @ crlf) (x # l @ crlf @ rest)"
    by (cases l) auto
  with Cons show ?case
    by (auto simp: option.map_comp comp_def)
qed

lemma find_blank_line:
  assumes "list_all (\<lambda>l. l \<noteq> [] \<and> LF \<notin> set l) ls" "ls \<noteq> []"
  shows "find_sub (crlf @ crlf) (concat (map (\<lambda>l. l @ crlf) ls) @ crlf @ rest)
    = Some (length (concat (map (\<lambda>l. l @ crlf) ls)) - 2)"
  using assms
proof (induction ls)
  case Nil
  then show ?case by simp
next
  case (Cons l ls)
  let ?tail = "concat (map (\<lambda>l. l @ crlf) ls) @ crlf @ rest"
  have step: "find_sub (crlf @ crlf) (l @ crlf @ ?tail) =
    (if prefix crlf ?tail then Some (length l)
     else map_option (\<lambda>k. length l + 2 + k) (find_sub (crlf @ crlf) ?tail))"
    using Cons.prems by (intro find_blank_line_step) simp
  show ?case
  proof (cases ls)
    case Nil
    then show ?thesis using step by simp
  next
    case (Cons l2 ls2)
    with Cons.prems have "\<not> prefix crlf ?tail"
      by (cases l2; cases "tl l2") auto
    moreover have "2 \<le> length (concat (map (\<lambda>l. l @ crlf) ls))"
      using Cons by simp
    ultimately show ?thesis
      using step Cons.IH Cons.prems Cons by simp
  qed
qed

definition head_lines :: "http_response \<Rightarrow> string list" where
  "head_lines r =
     (''HTTP/1.1 '' @ dec_int (status_int (rs_status_code r)) @ '' '' @ rs_status_message r)
     # map (\<lambda>(k, v). k @ '': '' @ v) (rs_headers r)"

lemma headers_to_bytes_lines:
  "headers_to_bytes r = concat (map (\<lambda>l. l @ crlf) (head_lines r)) @ crlf"
  by (simp add: headers_to_bytes_def head_lines_def header_lines_def comp_def split_def)

lemma dec_nat_no_LF [simp]: "LF \<notin> set (dec_nat n)"
  by (auto dest: dec_nat_digits simp: is_digit_def)

lemma dec_int_no_LF [simp]: "LF \<notin> set (dec_int i)"
  by (simp add: dec_int_def)

lemma head_lines_ok: "lf_free r \<Longrightarrow> list_all (\<lambda>l. l \<noteq> [] \<and> LF \<notin> set l) (head_lines r)"
  by (auto simp: lf_free_def head_lines_def list_all_iff)

lemma client_split_headers:
  assumes "lf_free r"
  shows "client_split (headers_to_bytes r @ rest)
    = Some (take (length (headers_to_bytes r) - 4) (headers_to_bytes r), rest)"
proof -
  let ?b = "concat (map (\<lambda>l. l @ crlf) (head_lines r))"
  have "find_sub (crlf @ crlf) (?b @ crlf @ rest) = Some (length ?b - 2)"
    using head_lines_ok [OF assms] by (rule find_blank_line) (simp add: head_lines_def)
  moreover have "2 \<le> length ?b" by (simp add: head_lines_def)
  ultimately show ?thesis
    by (simp add: client_split_def headers_to_bytes_lines)
qed

lemma client_dechunk_chunk_body: "client_dechunk (chunk_body b) = Some b"
proof -
  have last: "client_dechunk (''0'' @ crlf @ crlf) = Some []"
    by (subst client_dechunk.simps) (simp add: hex_value_def hex_digit_val_def is_digit_def digit_val_def)
  show ?thesis
  proof (cases "b = []")
    case True
    then show ?thesis using last by (simp add: chunk_body_def)
  next
    case False
    have "find_sub crlf (chunk_body b) = Some (length (hex_nat (length b)))"
      using False find_sub_crlf [OF hex_nat_no_CR [of "length b"], of "b @ crlf @ ''0'' @ crlf @ crlf"]
      by (simp add: chunk_body_def)
    with False last show ?thesis
      by (subst client_dechunk.simps) (simp add: chunk_body_def substr_def)
  qed
qed

lemma client_body_lf_free: "lf_free r \<Longrightarrow> client_body r = Some (rs_body r)"
  using client_split_headers client_dechunk_chunk_body by (simp add: client_body_def to_bytes_def)



end
