(* ===== verification/Handler_Utils.thy ===== *)
theory Handler_Utils
  imports Httpd_Prelude
begin

text \<open>
  The string helpers of \<open>http/core/request_handler_utils.cpp\<close> that every handler uses: trimming,
  header lines, header lookup, the split of a URI at its question mark, case folding and the
  media type of a file name. Paths, Base64 and \<open>.htaccess\<close> files have theories of their own.
\<close>

section \<open>Definitions\<close>

definition rfind_idx :: "('a \<Rightarrow> bool) \<Rightarrow> 'a list \<Rightarrow> nat option" where
  "rfind_idx P xs = map_option (\<lambda>k. length xs - Suc k) (find_idx P (rev xs))"

definition trim :: "string \<Rightarrow> string \<Rightarrow> string" where
  "trim whitespace s =
     (case find_idx (\<lambda>c. c \<notin> set whitespace) s of
        None \<Rightarrow> []
      | Some first_pos \<Rightarrow>
          (case rfind_idx (\<lambda>c. c \<notin> set whitespace) s of
             None \<Rightarrow> drop first_pos s
           | Some last_pos \<Rightarrow> substr s first_pos (last_pos - first_pos + 1)))"

text \<open>The default argument of \<open>trim\<close>.\<close>

definition default_ws :: string where
  "default_ws = [CHR '' '', TAB, CR, LF]"

abbreviation trim_ws :: "string \<Rightarrow> string" where
  "trim_ws \<equiv> trim default_ws"

definition to_lower :: "string \<Rightarrow> string" where
  "to_lower s = map lower_char s"

definition parse_header_line :: "string \<Rightarrow> bool \<Rightarrow> string \<times> string" where
  "parse_header_line line lowercase_name =
     (case find_char CHR '':'' line of
        None \<Rightarrow> ([], [])
      | Some colon \<Rightarrow>
          if colon = 0 then ([], [])
          else
            let name = trim_ws (substr line 0 colon); value = trim_ws (drop (colon + 1) line)
            in if name = [] then ([], [])
               else (if lowercase_name then to_lower name else name, value))"

definition get_header :: "headers \<Rightarrow> string \<Rightarrow> string" where
  "get_header h name = (case header_get h name of Some v \<Rightarrow> v | None \<Rightarrow> [])"

definition split_uri :: "string \<Rightarrow> string \<times> string" where
  "split_uri uri = (case find_char CHR ''?'' uri of
       None \<Rightarrow> (uri, [])
     | Some q \<Rightarrow> (substr uri 0 q, drop (q + 1) uri))"

definition trim_trailing_slash :: "string \<Rightarrow> string" where
  "trim_trailing_slash s =
     (if s = [] then s else if last s = CHR ''/'' then take (length s - 1) s else s)"

definition trim_leading_slash :: "string \<Rightarrow> string" where
  "trim_leading_slash s =
     (if s = [] then s else if hd s = CHR ''/'' then drop 1 s else s)"

definition starts_with :: "string \<Rightarrow> string \<Rightarrow> bool" where
  "starts_with s pre =
     (let s_lower = to_lower s; prefix_lower = to_lower pre
      in take (length prefix_lower) s_lower = prefix_lower)"

definition suffix_table :: "(string \<times> string) list" where
  "suffix_table =
     [(''html'', ''text/html''), (''htm'', ''text/html''), (''txt'', ''text/plain''),
      (''css'', ''text/css''), (''js'', ''application/javascript''),
      (''json'', ''application/json''), (''xml'', ''application/xml''),
      (''jpg'', ''image/jpeg''), (''jpeg'', ''image/jpeg''), (''png'', ''image/png''),
      (''gif'', ''image/gif''), (''svg'', ''image/svg+xml''), (''webp'', ''image/webp''),
      (''ico'', ''image/x-icon''), (''pdf'', ''application/pdf''), (''zip'', ''application/zip'')]"

definition octet_stream :: string where
  "octet_stream = ''application/octet-stream''"

definition content_type_from_suffix :: "string \<Rightarrow> string" where
  "content_type_from_suffix path =
     (case rfind_char CHR ''.'' path of
        None \<Rightarrow> octet_stream
      | Some dot \<Rightarrow>
          if dot = length path - 1 then octet_stream
          else (case map_of suffix_table (to_lower (drop (dot + 1) path)) of
                  Some t \<Rightarrow> t | None \<Rightarrow> octet_stream))"

section \<open>Trimming\<close>

text \<open>The two searches of \<open>trim\<close> cut the same bytes as dropping white space at both ends.\<close>

lemma find_idx_dropWhile:
  "drop (the (find_idx P xs)) xs = dropWhile (\<lambda>x. \<not> P x) xs" if "find_idx P xs \<noteq> None"
  using that by (induction xs) auto

lemma find_idx_takeWhile:
  "find_idx P xs = Some i \<Longrightarrow> i = length (takeWhile (\<lambda>x. \<not> P x) xs)"
  by (induction xs arbitrary: i) (auto split: if_splits)

lemma trim_eq:
  "trim ws s = rev (dropWhile (\<lambda>c. c \<in> set ws) (rev (dropWhile (\<lambda>c. c \<in> set ws) s)))"
proof (cases "find_idx (\<lambda>c. c \<notin> set ws) s")
  case None
  then have "\<forall>c \<in> set s. c \<in> set ws" by (simp add: find_idx_None_iff)
  then have dw: "dropWhile (\<lambda>c. c \<in> set ws) s = []" by (simp only: dropWhile_eq_Nil_conv)
  have "trim ws s = []" using None by (simp add: trim_def)
  then show ?thesis by (simp only: dw rev.simps dropWhile.simps)
next
  case (Some first)
  let ?P = "\<lambda>c. c \<notin> set ws" and ?W = "\<lambda>c. c \<in> set ws"
  have f: "first = length (takeWhile ?W s)" using find_idx_takeWhile [OF Some] by simp
  from Some have "find_idx ?P (rev s) \<noteq> None"
    using find_idx_None_iff [of ?P s] find_idx_None_iff [of ?P "rev s"] by auto
  then obtain k where k: "find_idx ?P (rev s) = Some k" by blast
  have kl: "k = length (takeWhile ?W (rev s))" using find_idx_takeWhile [OF k] by simp
  obtain x where x: "x \<in> set s" "?P x" using Some find_idx_None_iff [of ?P s] by auto
  let ?d = "dropWhile ?W s"
  have s: "s = takeWhile ?W s @ ?d" by simp
  have xd: "x \<in> set ?d" using x s set_takeWhileD [of x ?W s] by (metis Un_iff set_append)
  have tw: "takeWhile ?W (rev s) = takeWhile ?W (rev ?d)"
    using x(2) xd by (subst s, subst rev_append, subst takeWhile_append1 [of x]) auto
  have "length ?d = length s - first" using f s by (metis add_diff_cancel_left' length_append)
  moreover have "first < length s" using Some find_idx_SomeD by fastforce
  moreover have "k < length (rev s)" using k find_idx_SomeD by blast
  moreover have "k \<le> length ?d" using kl tw length_takeWhile_le [of ?W "rev ?d"] by simp
  moreover have "k \<noteq> length ?d"
    using kl tw x(2) xd by (metis length_rev set_rev set_takeWhileD takeWhile_eq_all_conv takeWhile_eq_take take_all_iff order_refl)
  ultimately have n: "length s - Suc k - first + 1 = length ?d - k" by linarith
  have "trim ws s = take (length ?d - k) ?d"
    using Some k n f by (simp add: trim_def rfind_idx_def substr_def dropWhile_eq_drop)
  also have "\<dots> = rev (drop k (rev ?d))" by (simp add: rev_drop)
  also have "\<dots> = rev (dropWhile ?W (rev ?d))" using kl tw by (simp add: dropWhile_eq_drop)
  finally show ?thesis .
qed

lemma trim_Nil [simp]: "trim ws [] = []"
  by (simp add: trim_eq)

definition trimmed :: "string \<Rightarrow> string \<Rightarrow> bool" where
  "trimmed ws s \<longleftrightarrow> s = [] \<or> (hd s \<notin> set ws \<and> last s \<notin> set ws)"

lemma trim_id: "trimmed ws s \<Longrightarrow> trim ws s = s"
proof (cases "s = []")
  case False
  assume "trimmed ws s"
  with False have "dropWhile (\<lambda>c. c \<in> set ws) s = s" "dropWhile (\<lambda>c. c \<in> set ws) (rev s) = rev s"
    by (auto simp: trimmed_def dropWhile_eq_self_iff hd_rev)
  then show ?thesis by (simp add: trim_eq)
qed simp

lemma trimmed_trim: "trimmed ws (trim ws s)"
proof -
  let ?W = "\<lambda>c. c \<in> set ws"
  let ?d = "dropWhile ?W s"
  let ?e = "dropWhile ?W (rev ?d)"
  show ?thesis
  proof (cases "?e = []")
    case True
    then show ?thesis unfolding trimmed_def trim_eq by (simp only: rev.simps simp_thms)
  next
    case False
    then have d: "?d \<noteq> []" by (metis dropWhile.simps(1) rev.simps(1))
    have "last (takeWhile ?W (rev ?d) @ ?e) = last ?e" using False by (rule last_appendR)
    then have "last ?e = hd ?d" using d by (simp only: takeWhile_dropWhile_id last_rev)
    moreover have "hd ?d \<notin> set ws" using hd_dropWhile [OF d] .
    moreover have "hd ?e \<notin> set ws" using hd_dropWhile [OF False] .
    ultimately show ?thesis
      unfolding trimmed_def trim_eq by (simp only: hd_rev last_rev) blast
  qed
qed

lemma trim_idem [simp]: "trim ws (trim ws s) = trim ws s"
  by (rule trim_id, rule trimmed_trim)

lemma set_trim: "set (trim ws s) \<subseteq> set s"
  by (auto simp: trim_eq dest!: set_dropWhileD)

lemma trim_skip [simp]: "c \<in> set ws \<Longrightarrow> trim ws (c # s) = trim ws s"
  by (simp add: trim_eq)

section \<open>Header lines\<close>

lemma parse_header_line_eq:
  assumes "CHR '':'' \<notin> set k" "trimmed default_ws k" "k \<noteq> []"
  shows "parse_header_line (k @ CHR '':'' # rest) low = (if low then to_lower k else k, trim_ws rest)"
proof -
  have "find_char CHR '':'' (k @ CHR '':'' # rest) = Some (length k)"
    using assms(1) by (rule find_char_prefix)
  with assms show ?thesis
    by (simp add: parse_header_line_def substr_def trim_id)
qed

lemma parse_header_line_Nil [simp]: "parse_header_line [] low = ([], [])"
  by (simp add: parse_header_line_def find_char_simps)

lemma parse_header_line_colon:
  assumes "fst (parse_header_line line low) \<noteq> []"
  shows "CHR '':'' \<in> set line"
proof (rule ccontr)
  assume "CHR '':'' \<notin> set line"
  then have "find_char CHR '':'' line = None" by simp
  with assms show False by (simp add: parse_header_line_def)
qed

lemma parse_header_line_parts:
  assumes "parse_header_line line low = (n, v)" "n \<noteq> []"
  obtains k where "n = (if low then to_lower k else k)" "set k \<subseteq> set line" "set v \<subseteq> set line"
    "CHR '':'' \<notin> set k" "trimmed default_ws k" "trimmed default_ws v"
proof -
  from assms obtain i where i: "find_char CHR '':'' line = Some i" "i \<noteq> 0"
    by (auto simp: parse_header_line_def split: option.splits if_splits)
  define k where "k = trim_ws (substr line 0 i)"
  have "n = (if low then to_lower k else k)" "v = trim_ws (drop (i + 1) line)"
    using assms i by (auto simp: parse_header_line_def Let_def k_def split: if_splits)
  moreover have "set k \<subseteq> set line" "CHR '':'' \<notin> set k"
    using set_trim [of default_ws "substr line 0 i"] find_char_SomeD(3) [OF i(1)]
    by (auto simp: k_def substr_def dest: in_set_takeD)
  moreover have "set (trim_ws (drop (i + 1) line)) \<subseteq> set line"
    using set_trim [of default_ws "drop (i + 1) line"] by (auto dest: in_set_dropD)
  ultimately show thesis
    using that [of k] trimmed_trim [of default_ws] by (simp add: k_def)
qed

section \<open>URIs, prefixes and case\<close>

lemma to_lower_idem [simp]: "to_lower (to_lower s) = to_lower s"
  by (simp add: to_lower_def)

lemma to_lower_simps [simp]:
  "to_lower [] = []" "to_lower (c # s) = lower_char c # to_lower s"
  "to_lower (s @ t) = to_lower s @ to_lower t" "length (to_lower s) = length s"
  by (simp_all add: to_lower_def)

lemma starts_with_iff:
  "starts_with s p \<longleftrightarrow> (\<exists>a b. s = a @ b \<and> to_lower a = to_lower p)"
proof
  assume "starts_with s p"
  then have "to_lower (take (length p) s) = to_lower p"
    by (simp add: starts_with_def to_lower_def take_map)
  then show "\<exists>a b. s = a @ b \<and> to_lower a = to_lower p"
    by (metis append_take_drop_id)
next
  assume "\<exists>a b. s = a @ b \<and> to_lower a = to_lower p"
  then obtain a b where "s = a @ b" "to_lower a = to_lower p" by blast
  then show "starts_with s p"
    by (auto simp: starts_with_def intro: arg_cong2 [where f = take])
qed

lemma starts_with_simps [str_simps]:
  "starts_with s []" "\<not> starts_with [] (y # ys)"
  "starts_with (x # xs) (y # ys) \<longleftrightarrow> lower_char x = lower_char y \<and> starts_with xs ys"
  by (simp_all add: starts_with_def)

lemma starts_with_length: "starts_with s p \<Longrightarrow> length p \<le> length s"
  by (metis starts_with_iff length_append le_add1 to_lower_simps(4))

lemma split_uri_no_query: "CHR ''?'' \<notin> set (fst (split_uri uri))"
  by (cases "find_char CHR ''?'' uri")
    (auto simp: split_uri_def substr_def find_char_None_iff dest: find_char_SomeD(3))

lemma split_uri_query: "CHR ''?'' \<notin> set p \<Longrightarrow> split_uri (p @ CHR ''?'' # q) = (p, q)"
  by (simp add: split_uri_def find_char_prefix substr_def)

lemma split_uri_plain: "CHR ''?'' \<notin> set p \<Longrightarrow> split_uri p = (p, [])"
  by (simp add: split_uri_def)

lemma get_header_empty [simp]: "get_header [] name = []"
  by (simp add: get_header_def)

lemma get_header_set [simp]:
  "get_header (header_set k v h) name = (if name = k then v else get_header h name)"
  by (simp add: get_header_def)

end
