(* ===== verification/Request_Parser.thy ===== *)
theory Request_Parser
  imports Http_Message Handler_Utils "HOL-Library.Code_Target_Nat"
begin

text \<open>
  The incremental request parser: \<open>http/core/request_parser.hpp\<close> and \<open>request_parser.cpp\<close>.
  \<open>request_parser\<close> holds the private fields of the class, every method is a function on it, and
  \<open>advance\<close> is the loop of \<open>RequestParser::advance\<close> with its termination proof. Properties of the
  parser are in \<open>Parser_Properties\<close>.
\<close>

section \<open>State\<close>

datatype parse_error =
    PE_Ok | PE_Incomplete | PE_BadRequest | PE_MethodNotAllowed | PE_InvalidRequestLine
  | PE_InvalidHeader | PE_PayloadTooLarge

datatype parser_state = RequestLine | Headers | Body | Done | Error

record request_parser =
  ps_buffer :: string
  ps_state :: parser_state
  ps_request :: http_request
  ps_error :: parse_error
  ps_error_message :: string
  ps_body_bytes_remaining :: nat

definition MAX_REQUEST_LINE :: nat where "MAX_REQUEST_LINE = 8192"
definition MAX_HEADER_LINE :: nat where "MAX_HEADER_LINE = 8192"
definition MAX_BODY_SIZE :: nat where "MAX_BODY_SIZE = 10 * 1024 * 1024"

definition init_parser :: request_parser where
  "init_parser = \<lparr>ps_buffer = [], ps_state = RequestLine, ps_request = empty_request,
     ps_error = PE_Ok, ps_error_message = [], ps_body_bytes_remaining = 0\<rparr>"

section \<open>Lines\<close>

definition find_line_end :: "string \<Rightarrow> nat \<Rightarrow> nat option" where
  "find_line_end buffer start =
     (case find_char_from LF buffer start of
        None \<Rightarrow> None
      | Some newline_pos \<Rightarrow>
          let has_cr_before = (newline_pos > 0 \<and> buffer ! (newline_pos - 1) = CR)
          in if has_cr_before then Some (newline_pos - 1) else Some newline_pos)"

definition line_terminator_len :: "string \<Rightarrow> nat \<Rightarrow> nat" where
  "line_terminator_len buffer terminator_start =
     (if terminator_start \<ge> length buffer then 0
      else
        let has_cr = (buffer ! terminator_start = CR);
            has_lf_after = (terminator_start + 1 < length buffer \<and> buffer ! (terminator_start + 1) = LF)
        in if has_cr \<and> has_lf_after then 2 else 1)"

section \<open>The three states\<close>

text \<open>The three assignments every error branch makes.\<close>

definition fail :: "parse_error \<Rightarrow> string \<Rightarrow> request_parser \<Rightarrow> request_parser" where
  "fail e msg p = p\<lparr>ps_state := Error, ps_error := e, ps_error_message := msg\<rparr>"

definition set_method :: "meth \<Rightarrow> request_parser \<Rightarrow> request_parser" where
  "set_method m p = p\<lparr>ps_request := (ps_request p)\<lparr>rq_method := m, rq_method_str := method_to_string m\<rparr>\<rparr>"

definition method_of_string :: "string \<Rightarrow> meth option" where
  "method_of_string s =
     (if s = ''GET'' then Some GET
      else if s = ''POST'' then Some POST
      else if s = ''HEAD'' then Some HEAD
      else if s = ''OPTIONS'' then Some OPTIONS
      else None)"

lemma method_of_string_to_string [simp]: "method_of_string (method_to_string m) = Some m"
  by (cases m) (simp_all add: method_of_string_def)

text \<open>What \<open>process_request_line\<close> does with the line it cut off.\<close>

definition request_line_content :: "string \<Rightarrow> request_parser \<Rightarrow> bool \<times> request_parser" where
  "request_line_content line p =
     (case find_char CHR '' '' line of
        None \<Rightarrow> (False, fail PE_InvalidRequestLine ''Missing space in request line'' p)
      | Some s1 \<Rightarrow>
     (case find_char_from CHR '' '' line (s1 + 1) of
        None \<Rightarrow> (False, fail PE_InvalidRequestLine ''Missing HTTP version in request line'' p)
      | Some s2 \<Rightarrow>
     if find_char_from CHR '' '' line (s2 + 1) \<noteq> None
     then (False, fail PE_InvalidRequestLine ''Invalid request line format'' p)
     else
       let method_str = substr line 0 s1;
           p = p\<lparr>ps_request := (ps_request p)\<lparr>rq_uri := substr line (s1 + 1) (s2 - (s1 + 1))\<rparr>\<rparr>;
           version = trim_ws (drop (s2 + 1) line)
       in if version = [] \<or> method_str = [] \<or> rq_uri (ps_request p) = []
          then (False, fail PE_InvalidRequestLine ''Empty method, URI, or version'' p)
          else (case method_of_string method_str of
                  Some m \<Rightarrow> (True, (set_method m p)\<lparr>ps_state := Headers\<rparr>)
                | None \<Rightarrow> (False, fail PE_MethodNotAllowed ''Method not allowed'' p))))"

definition process_request_line :: "request_parser \<Rightarrow> bool \<times> request_parser" where
  "process_request_line p =
     (case find_line_end (ps_buffer p) 0 of
        None \<Rightarrow>
          (False, if length (ps_buffer p) > MAX_REQUEST_LINE
                  then fail PE_BadRequest ''Request line too long'' p else p)
      | Some line_end \<Rightarrow>
          let term_len = line_terminator_len (ps_buffer p) line_end;
              line = substr (ps_buffer p) 0 line_end
          in request_line_content line (p\<lparr>ps_buffer := drop (line_end + term_len) (ps_buffer p)\<rparr>))"

text \<open>The end of the header section; \<open>cl\<close> is the declared length, 0 without the header.\<close>

definition begin_body :: "nat \<Rightarrow> request_parser \<Rightarrow> bool \<times> request_parser" where
  "begin_body cl p =
     (if cl > MAX_BODY_SIZE
      then (False, fail PE_PayloadTooLarge ''Request body exceeds maximum allowed size'' p)
      else
        let p = p\<lparr>ps_request := (ps_request p)\<lparr>rq_content_length := of_nat (if cl > 65535 then 65535 else cl)\<rparr>,
                  ps_body_bytes_remaining := cl\<rparr>
        in (True, p\<lparr>ps_state := (if rq_method (ps_request p) = POST \<and> ps_body_bytes_remaining p > 0
                                then Body else Done)\<rparr>))"

definition end_of_headers :: "request_parser \<Rightarrow> bool \<times> request_parser" where
  "end_of_headers p =
     (case header_get (rq_headers (ps_request p)) ''content-length'' of
        None \<Rightarrow> begin_body 0 p
      | Some s \<Rightarrow>
          (case stoll s of
             Inl _ \<Rightarrow> (False, fail PE_BadRequest ''Invalid Content-Length'' p)
           | Inr v \<Rightarrow>
               if v < 0 then (False, fail PE_BadRequest ''Invalid Content-Length'' p)
               else begin_body (nat v) p))"

definition header_line_content :: "string \<Rightarrow> request_parser \<Rightarrow> bool \<times> request_parser" where
  "header_line_content line p =
     (if line = [] then end_of_headers p
      else
        let (name, value) = parse_header_line line True
        in if name = [] then (False, fail PE_InvalidHeader ''Invalid header line'' p)
           else (True, p\<lparr>ps_request := (ps_request p)\<lparr>rq_headers :=
                   header_set name value (rq_headers (ps_request p))\<rparr>\<rparr>))"

definition process_headers :: "request_parser \<Rightarrow> bool \<times> request_parser" where
  "process_headers p =
     (case find_line_end (ps_buffer p) 0 of
        None \<Rightarrow>
          (False, if length (ps_buffer p) > MAX_HEADER_LINE
                  then fail PE_InvalidHeader ''Header line too long'' p else p)
      | Some line_end \<Rightarrow>
          let term_len = line_terminator_len (ps_buffer p) line_end;
              line = substr (ps_buffer p) 0 line_end
          in header_line_content line (p\<lparr>ps_buffer := drop (line_end + term_len) (ps_buffer p)\<rparr>))"

definition process_body :: "request_parser \<Rightarrow> bool \<times> request_parser" where
  "process_body p =
     (let n = ps_body_bytes_remaining p in
      if n = 0 then (True, p\<lparr>ps_state := Done\<rparr>)
      else if length (ps_buffer p) < n then (False, p)
      else (True, p\<lparr>ps_request := (ps_request p)\<lparr>rq_buffer := substr (ps_buffer p) 0 n\<rparr>,
                    ps_buffer := drop n (ps_buffer p),
                    ps_body_bytes_remaining := 0, ps_state := Done\<rparr>))"

definition process_state :: "request_parser \<Rightarrow> bool \<times> request_parser" where
  "process_state p = (case ps_state p of
       RequestLine \<Rightarrow> process_request_line p
     | Headers \<Rightarrow> process_headers p
     | Body \<Rightarrow> process_body p
     | Done \<Rightarrow> (False, p)
     | Error \<Rightarrow> (False, p))"

section \<open>Lines, seen from outside\<close>

text \<open>
  Both line states cut the buffer at its first line feed, drop one carriage return before it, and
  go on with the rest.
\<close>

definition strip_cr :: "string \<Rightarrow> string" where
  "strip_cr l = (if l \<noteq> [] \<and> last l = CR then butlast l else l)"

definition split_line :: "string \<Rightarrow> (string \<times> string) option" where
  "split_line buffer =
     map_option (\<lambda>i. (strip_cr (take i buffer), drop (Suc i) buffer)) (find_char LF buffer)"

lemma find_char_from_0 [simp]: "find_char_from c s 0 = find_char c s"
  by (simp add: find_char_from_def option.map_ident)

lemma find_line_end_None: "find_line_end b 0 = None \<longleftrightarrow> split_line b = None"
  by (auto simp: find_line_end_def split_line_def Let_def split: option.splits)

lemma find_line_end_Some:
  assumes "find_line_end b 0 = Some e"
  shows "split_line b = Some (substr b 0 e, drop (e + line_terminator_len b e) b)"
proof -
  from assms obtain i where i: "find_char LF b = Some i"
    and e: "e = (if i > 0 \<and> b ! (i - 1) = CR then i - 1 else i)"
    by (auto simp: find_line_end_def Let_def split: option.splits if_splits)
  note len = find_char_SomeD(1,2) [OF i]
  have last: "last (take i b) = b ! (i - 1)" if "i > 0"
    using that len(1) by (subst last_conv_nth) auto
  show ?thesis
  proof (cases "i > 0 \<and> b ! (i - 1) = CR")
    case True
    with len e have "line_terminator_len b e = 2" by (auto simp: line_terminator_len_def Let_def)
    with True e i len last show ?thesis
      by (auto simp: split_line_def strip_cr_def substr_def butlast_take)
  next
    case False
    with len e have "line_terminator_len b e = 1" by (auto simp: line_terminator_len_def Let_def)
    with False e i len last show ?thesis
      by (auto simp: split_line_def strip_cr_def substr_def)
  qed
qed

lemma process_request_line_eq:
  "process_request_line p =
     (case split_line (ps_buffer p) of
        None \<Rightarrow> (False, if length (ps_buffer p) > MAX_REQUEST_LINE
                        then fail PE_BadRequest ''Request line too long'' p else p)
      | Some (line, rest) \<Rightarrow> request_line_content line (p\<lparr>ps_buffer := rest\<rparr>))"
  by (cases "find_line_end (ps_buffer p) 0")
    (auto simp: process_request_line_def find_line_end_None [THEN iffD1] find_line_end_Some Let_def)

lemma process_headers_eq:
  "process_headers p =
     (case split_line (ps_buffer p) of
        None \<Rightarrow> (False, if length (ps_buffer p) > MAX_HEADER_LINE
                        then fail PE_InvalidHeader ''Header line too long'' p else p)
      | Some (line, rest) \<Rightarrow> header_line_content line (p\<lparr>ps_buffer := rest\<rparr>))"
  by (cases "find_line_end (ps_buffer p) 0")
    (auto simp: process_headers_def find_line_end_None [THEN iffD1] find_line_end_Some Let_def)

lemma split_line_shorter: "split_line b = Some (l, r) \<Longrightarrow> length r < length b"
  by (auto simp: split_line_def dest!: find_char_SomeD(1))

lemma split_line_append:
  "split_line b = Some (l, r) \<Longrightarrow> split_line (b @ c) = Some (l, r @ c)"
proof -
  assume "split_line b = Some (l, r)"
  then obtain i where i: "find_char LF b = Some i" "l = strip_cr (take i b)" "r = drop (Suc i) b"
    by (auto simp: split_line_def)
  moreover from i(1) have "i < length b" by (rule find_char_SomeD)
  ultimately show ?thesis by (simp add: split_line_def find_char_append)
qed

lemma split_line_None: "split_line b = None \<longleftrightarrow> LF \<notin> set b"
  by (simp add: split_line_def find_char_None_iff)

lemma split_line_crlf: "LF \<notin> set l \<Longrightarrow> split_line (l @ CR # LF # rest) = Some (l, rest)"
  using find_char_prefix [of LF "l @ [CR]" rest] by (simp add: split_line_def strip_cr_def)

section \<open>The line handlers leave the buffer alone\<close>

lemma fail_simps [simp]:
  "ps_buffer (fail e m p) = ps_buffer p" "ps_state (fail e m p) = Error"
  "ps_request (fail e m p) = ps_request p" "ps_error (fail e m p) = e"
  "ps_body_bytes_remaining (fail e m p) = ps_body_bytes_remaining p"
  by (simp_all add: fail_def)

lemma set_method_simps [simp]:
  "ps_buffer (set_method m p) = ps_buffer p" "ps_state (set_method m p) = ps_state p"
  "ps_error (set_method m p) = ps_error p"
  "ps_body_bytes_remaining (set_method m p) = ps_body_bytes_remaining p"
  "rq_method (ps_request (set_method m p)) = m"
  "rq_method_str (ps_request (set_method m p)) = method_to_string m"
  "rq_headers (ps_request (set_method m p)) = rq_headers (ps_request p)"
  "rq_buffer (ps_request (set_method m p)) = rq_buffer (ps_request p)"
  "rq_content_length (ps_request (set_method m p)) = rq_content_length (ps_request p)"
  "rq_uri (ps_request (set_method m p)) = rq_uri (ps_request p)"
  by (simp_all add: set_method_def)

lemmas line_defs = request_line_content_def header_line_content_def end_of_headers_def
  begin_body_def fail_def set_method_def Let_def

lemma request_line_content_buffer:
  "request_line_content l (p\<lparr>ps_buffer := b\<rparr>) = apsnd (ps_buffer_update (\<lambda>_. b)) (request_line_content l p)"
  by (simp add: line_defs split: option.split)

lemma header_line_content_buffer:
  "header_line_content l (p\<lparr>ps_buffer := b\<rparr>) = apsnd (ps_buffer_update (\<lambda>_. b)) (header_line_content l p)"
  by (simp add: line_defs split: option.split sum.split prod.split)

lemma request_line_content_keeps: "ps_buffer (snd (request_line_content l p)) = ps_buffer p"
  by (simp add: line_defs split: option.split)

lemma header_line_content_keeps: "ps_buffer (snd (header_line_content l p)) = ps_buffer p"
  by (simp add: line_defs split: option.split sum.split prod.split)

lemma request_line_content_state:
  "fst (request_line_content l p) \<Longrightarrow> ps_state (snd (request_line_content l p)) = Headers"
  by (auto simp: line_defs split: option.splits if_splits)

section \<open>The loop\<close>

definition parser_measure :: "request_parser \<Rightarrow> nat" where
  "parser_measure p = 2 * length (ps_buffer p) + (if ps_state p = Body then 1 else 0)"

lemma process_state_decreases:
  assumes "process_state p = (True, p')"
  shows "parser_measure p' < parser_measure p"
proof (cases "ps_state p")
  case RequestLine
  with assms obtain l r where s: "split_line (ps_buffer p) = Some (l, r)"
    and c: "request_line_content l (p\<lparr>ps_buffer := r\<rparr>) = (True, p')"
    by (auto simp: process_state_def process_request_line_eq split: option.splits)
  from c have "ps_buffer p' = r" "ps_state p' = Headers"
    using request_line_content_keeps [of l "p\<lparr>ps_buffer := r\<rparr>"]
      request_line_content_state [of l "p\<lparr>ps_buffer := r\<rparr>"] by simp_all
  with split_line_shorter [OF s] show ?thesis by (simp add: parser_measure_def)
next
  case Headers
  with assms obtain l r where s: "split_line (ps_buffer p) = Some (l, r)"
    and c: "header_line_content l (p\<lparr>ps_buffer := r\<rparr>) = (True, p')"
    by (auto simp: process_state_def process_headers_eq split: option.splits)
  from c have "ps_buffer p' = r"
    using header_line_content_keeps [of l "p\<lparr>ps_buffer := r\<rparr>"] by simp
  with split_line_shorter [OF s] show ?thesis by (simp add: parser_measure_def)
next
  case Body
  with assms show ?thesis
    by (auto simp: process_state_def process_body_def parser_measure_def Let_def split: if_splits)
qed (use assms in \<open>auto simp: process_state_def\<close>)

function advance :: "request_parser \<Rightarrow> request_parser" where
  "advance p =
     (if ps_state p = Done \<or> ps_state p = Error then p
      else case process_state p of
             (progress, p') \<Rightarrow> if progress then advance p' else p')"
  by pat_completeness auto
termination
  by (relation "measure parser_measure") (auto intro: process_state_decreases)

declare advance.simps [simp del]

definition feed :: "string \<Rightarrow> request_parser \<Rightarrow> request_parser" where
  "feed data p =
     (if ps_state p = Done \<or> ps_state p = Error then p
      else advance (p\<lparr>ps_buffer := ps_buffer p @ data\<rparr>))"

definition has_request :: "request_parser \<Rightarrow> bool" where
  "has_request p \<longleftrightarrow> ps_state p = Done"

definition has_error :: "request_parser \<Rightarrow> bool" where
  "has_error p \<longleftrightarrow> ps_state p = Error"

definition need_more :: "request_parser \<Rightarrow> bool" where
  "need_more p \<longleftrightarrow> \<not> has_request p \<and> \<not> has_error p"

definition get_request :: "request_parser \<Rightarrow> http_request \<times> request_parser" where
  "get_request p =
     (ps_request p,
      advance (p\<lparr>ps_request := empty_request, ps_state := RequestLine, ps_error := PE_Ok,
                ps_error_message := [], ps_body_bytes_remaining := 0\<rparr>))"

definition reset :: "request_parser \<Rightarrow> request_parser" where
  "reset p = p\<lparr>ps_buffer := [], ps_state := RequestLine, ps_request := empty_request,
     ps_error := PE_Ok, ps_error_message := [], ps_body_bytes_remaining := 0\<rparr>"

end
