(* ===== verification/Parser_Properties.thy ===== *)
theory Parser_Properties
  imports Request_Parser
begin

text \<open>
  What \<open>RequestParser\<close> promises its callers: the verdict does not depend on how the byte stream is
  cut (\<open>parser\<close> interprets the decoder contract of the prelude), a serialised request is read back
  exactly and the bytes behind it are left for the next one, a waiting parser holds a bounded
  buffer, and its fields stay consistent under every sequence of calls.
\<close>

section \<open>Cutting the byte stream\<close>

definition push :: "string \<Rightarrow> request_parser \<Rightarrow> request_parser" where
  "push b p = p\<lparr>ps_buffer := ps_buffer p @ b\<rparr>"

lemma push_simps [simp]:
  "ps_buffer (push b p) = ps_buffer p @ b" "ps_state (push b p) = ps_state p"
  "ps_request (push b p) = ps_request p" "ps_error (push b p) = ps_error p"
  "ps_error_message (push b p) = ps_error_message p"
  "ps_body_bytes_remaining (push b p) = ps_body_bytes_remaining p"
  "push b (push a p) = push (a @ b) p" "push [] p = p"
  by (simp_all add: push_def)

lemma has_simps [simp]:
  "has_request (push b p) = has_request p" "has_error (push b p) = has_error p"
  "need_more (push b p) = need_more p" "has_error (fail e m p)"
  by (simp_all add: has_request_def has_error_def need_more_def)

lemma request_line_content_push:
  "request_line_content l (p\<lparr>ps_buffer := r @ b\<rparr>) = apsnd (push b) (request_line_content l (p\<lparr>ps_buffer := r\<rparr>))"
  using request_line_content_buffer [of l _ p] request_line_content_keeps [of l "p\<lparr>ps_buffer := r\<rparr>"]
  by (simp add: prod_eq_iff push_def)

lemma header_line_content_push:
  "header_line_content l (p\<lparr>ps_buffer := r @ b\<rparr>) = apsnd (push b) (header_line_content l (p\<lparr>ps_buffer := r\<rparr>))"
  using header_line_content_buffer [of l _ p] header_line_content_keeps [of l "p\<lparr>ps_buffer := r\<rparr>"]
  by (simp add: prod_eq_iff push_def)

lemma process_state_line:
  assumes "split_line (ps_buffer p) = Some (l, r)"
  shows "ps_state p = RequestLine \<Longrightarrow> process_state p = request_line_content l (p\<lparr>ps_buffer := r\<rparr>)"
    "ps_state p = Headers \<Longrightarrow> process_state p = header_line_content l (p\<lparr>ps_buffer := r\<rparr>)"
  using assms by (simp_all add: process_state_def process_request_line_eq process_headers_eq)

lemma process_state_no_line:
  assumes "split_line (ps_buffer p) = None"
  shows "ps_state p = RequestLine \<Longrightarrow> process_state p = (False,
      if length (ps_buffer p) > MAX_REQUEST_LINE then fail PE_BadRequest ''Request line too long'' p else p)"
    "ps_state p = Headers \<Longrightarrow> process_state p = (False,
      if length (ps_buffer p) > MAX_HEADER_LINE then fail PE_InvalidHeader ''Header line too long'' p else p)"
  using assms by (simp_all add: process_state_def process_request_line_eq process_headers_eq)

lemma line_content_stuck:
  "request_line_content l p = (False, p') \<Longrightarrow> has_error p'"
  "header_line_content l p = (False, p') \<Longrightarrow> has_error p'"
  by (auto simp: line_defs has_error_def split: option.splits sum.splits if_splits prod.splits)

text \<open>
  An iteration without progress leaves the parser as it was or in the error state; an iteration
  with progress does the same on a longer buffer.
\<close>

lemma process_state_stuck:
  assumes "process_state p = (False, p')"
  shows "p' = p \<or> has_error p'"
proof (cases "split_line (ps_buffer p)")
  case None
  with assms show ?thesis
    by (cases "ps_state p")
      (auto simp: process_state_def process_request_line_eq process_headers_eq process_body_def
        Let_def has_error_def split: if_splits)
next
  case (Some lr)
  then obtain l r where "split_line (ps_buffer p) = Some (l, r)" by (cases lr) simp
  with assms show ?thesis
    by (cases "ps_state p")
      (auto simp: process_state_def process_request_line_eq process_headers_eq process_body_def
        Let_def dest: line_content_stuck split: if_splits)
qed

lemma process_state_push:
  assumes "process_state p = (True, p')"
  shows "process_state (push b p) = (True, push b p')"
proof (cases "ps_state p = Body")
  case True
  with assms show ?thesis
    by (auto simp: process_state_def process_body_def push_def substr_def Let_def split: if_splits)
next
  case False
  with assms obtain l r where lr: "split_line (ps_buffer p) = Some (l, r)"
    by (cases "split_line (ps_buffer p)"; cases "ps_state p")
      (auto simp: process_state_def process_request_line_eq process_headers_eq)
  have lr': "split_line (ps_buffer (push b p)) = Some (l, r @ b)"
    using split_line_append [OF lr] by simp
  have buf: "push b p\<lparr>ps_buffer := r @ b\<rparr> = p\<lparr>ps_buffer := r @ b\<rparr>" by (simp add: push_def)
  show ?thesis
  proof (cases "ps_state p")
    case RequestLine
    then show ?thesis
      using assms by (simp add: process_state_line(1) [OF lr] process_state_line(1) [OF lr'] buf
          request_line_content_push)
  next
    case Headers
    then show ?thesis
      using assms by (simp add: process_state_line(2) [OF lr] process_state_line(2) [OF lr'] buf
          header_line_content_push)
  qed (use assms False in \<open>auto simp: process_state_def\<close>)
qed

lemma advance_stopped: "\<not> need_more p \<Longrightarrow> advance p = p"
  by (auto simp: advance.simps [of p] need_more_def has_request_def has_error_def)

lemma advance_step: "need_more p \<Longrightarrow> process_state p = (True, p') \<Longrightarrow> advance p = advance p'"
  by (simp add: advance.simps [of p] need_more_def has_request_def has_error_def)

lemma advance_rest: "need_more p \<Longrightarrow> process_state p = (False, p') \<Longrightarrow> advance p = p'"
  by (simp add: advance.simps [of p] need_more_def has_request_def has_error_def)

lemma advance_push:
  assumes "need_more (advance p) \<or> has_request (advance p)"
  shows "advance (push b p) = advance (push b (advance p))"
  using assms
proof (induction p rule: advance.induct)
  case (1 p)
  show ?case
  proof (cases "need_more p")
    case False
    then show ?thesis by (simp add: advance_stopped)
  next
    case True
    obtain progress p' where step: "process_state p = (progress, p')" by (cases "process_state p")
    show ?thesis
    proof (cases progress)
      case True
      with step \<open>need_more p\<close> have a: "advance p = advance p'" by (simp add: advance_step)
      have "\<not> (ps_state p = Done \<or> ps_state p = Error)"
        using \<open>need_more p\<close> by (simp add: need_more_def has_request_def has_error_def)
      then have IH: "advance (push b p') = advance (push b (advance p'))"
        using "1.IH" "1.prems" step True a by simp
      have "process_state (push b p) = (True, push b p')"
        using step True by (simp add: process_state_push)
      with \<open>need_more p\<close> have "advance (push b p) = advance (push b p')" by (simp add: advance_step)
      with a IH show ?thesis by simp
    next
      case False
      then have a: "advance p = p'" using step \<open>need_more p\<close> by (simp add: advance_rest)
      with "1.prems" have "\<not> has_error p'" by (auto simp: need_more_def has_request_def has_error_def)
      with step False have "p' = p" using process_state_stuck [of p p'] by simp
      with a show ?thesis by simp
    qed
  qed
qed

lemma feed_push: "need_more p \<Longrightarrow> feed b p = advance (push b p)"
  by (simp add: feed_def push_def need_more_def has_request_def has_error_def)

lemma feed_stopped: "\<not> need_more p \<Longrightarrow> feed b p = p"
  by (auto simp: feed_def need_more_def has_request_def has_error_def)

lemma feed_append:
  assumes "need_more (feed a p)"
  shows "feed b (feed a p) = feed (a @ b) p"
proof -
  from assms have "need_more p" using feed_stopped by metis
  with assms show ?thesis
    using advance_push [of "push a p" b] by (simp add: feed_push)
qed

interpretation parser: incremental_decoder feed need_more
  by unfold_locales (auto simp: feed_append feed_stopped)


text \<open>Once a request is complete, later bytes cannot change it: they only wait in the buffer.\<close>

lemma feed_complete:
  assumes "has_request (feed a p)" "need_more p"
  shows "feed (a @ b) p = push b (feed a p)"
  using assms advance_push [of "push a p" b]
  by (simp add: feed_push) (simp add: advance_stopped need_more_def)


section \<open>Reading a serialised request back\<close>

definition request_line :: "meth \<Rightarrow> string \<Rightarrow> string" where
  "request_line m uri = method_to_string m @ '' '' @ uri @ '' HTTP/1.1''"

definition request_head :: "meth \<Rightarrow> string \<Rightarrow> headers \<Rightarrow> string" where
  "request_head m uri hs = request_line m uri @ crlf @ header_lines hs @ crlf"

definition good_uri :: "string \<Rightarrow> bool" where
  "good_uri uri \<longleftrightarrow> uri \<noteq> [] \<and> CHR '' '' \<notin> set uri \<and> LF \<notin> set uri"

definition good_field :: "string \<times> string \<Rightarrow> bool" where
  "good_field kv \<longleftrightarrow> fst kv \<noteq> [] \<and> CHR '':'' \<notin> set (fst kv) \<and> LF \<notin> set (fst kv) \<and> LF \<notin> set (snd kv)
     \<and> trimmed default_ws (fst kv) \<and> trimmed default_ws (snd kv)"

definition good_request :: "string \<Rightarrow> headers \<Rightarrow> bool" where
  "good_request uri hs \<longleftrightarrow> good_uri uri \<and> list_all good_field hs"

text \<open>The table the parser builds: names in lower case, the last of equal names wins.\<close>

definition header_table :: "headers \<Rightarrow> headers" where
  "header_table hs = hdr.set_all (map (\<lambda>kv. (to_lower (fst kv), snd kv)) hs) []"

abbreviation in_headers :: "string \<Rightarrow> http_request \<Rightarrow> request_parser" where
  "in_headers buf r \<equiv> \<lparr>ps_buffer = buf, ps_state = Headers, ps_request = r, ps_error = PE_Ok,
     ps_error_message = [], ps_body_bytes_remaining = 0\<rparr>"

lemma method_no_space: "CHR '' '' \<notin> set (method_to_string m)" "method_to_string m \<noteq> []"
    "LF \<notin> set (method_to_string m)"
  by (cases m; simp)+

lemma request_line_content_good:
  assumes "good_uri uri"
  shows "request_line_content (request_line m uri) p =
    (True, p\<lparr>ps_request := (ps_request p)\<lparr>rq_uri := uri, rq_method := m, rq_method_str := method_to_string m\<rparr>,
             ps_state := Headers\<rparr>)"
proof -
  let ?m = "method_to_string m" and ?line = "request_line m uri"
  have line: "?line = ?m @ CHR '' '' # uri @ CHR '' '' # ''HTTP/1.1''"
    by (simp add: request_line_def)
  have s1: "find_char CHR '' '' ?line = Some (length ?m)"
    unfolding line using method_no_space(1) by (rule find_char_prefix)
  have s2: "find_char_from CHR '' '' ?line (length ?m + 1) = Some (length ?m + 1 + length uri)"
    using assms find_char_prefix [of "CHR '' ''" uri "''HTTP/1.1''"]
    by (simp add: find_char_from_def line good_uri_def)
  have s3: "find_char_from CHR '' '' ?line (length ?m + 1 + length uri + 1) = None"
    by (simp add: find_char_from_def line)
  have parts: "substr ?line 0 (length ?m) = ?m"
    "substr ?line (length ?m + 1) (length ?m + 1 + length uri - (length ?m + 1)) = uri"
    "drop (length ?m + 1 + length uri + 1) ?line = ''HTTP/1.1''"
    by (simp_all add: substr_def line)
  have "trim_ws ''HTTP/1.1'' \<noteq> []" by code_simp
  then show ?thesis
    unfolding request_line_content_def s1 option.case s2 s3 parts Let_def
    using assms method_no_space(2) by (simp add: good_uri_def set_method_def)
qed

lemma advance_headers:
  assumes "list_all good_field hs"
  shows "advance (in_headers (header_lines hs @ rest) r)
    = advance (in_headers rest (r\<lparr>rq_headers := hdr.set_all (map (\<lambda>kv. (to_lower (fst kv), snd kv)) hs) (rq_headers r)\<rparr>))"
  using assms
proof (induction hs arbitrary: r)
  case Nil
  then show ?case by (simp add: header_lines_def)
next
  case (Cons kv hs)
  obtain k v where kv: "kv = (k, v)" by (cases kv)
  let ?line = "k @ '': '' @ v" and ?p = "in_headers (header_lines (kv # hs) @ rest) r"
  have "LF \<notin> set ?line" using Cons.prems kv by (auto simp: good_field_def)
  then have "split_line (ps_buffer ?p) = Some (?line, header_lines hs @ rest)"
    using split_line_crlf [of ?line] kv by (simp add: header_lines_def)
  then have "process_state ?p = header_line_content ?line (?p\<lparr>ps_buffer := header_lines hs @ rest\<rparr>)"
    by (rule process_state_line) simp
  moreover have "parse_header_line ?line True = (to_lower k, v)"
    using Cons.prems kv parse_header_line_eq [of k "CHR '' '' # v" True]
    by (simp add: good_field_def trim_id default_ws_def)
  ultimately have "process_state ?p = (True, in_headers (header_lines hs @ rest)
      (r\<lparr>rq_headers := header_set (to_lower k) v (rq_headers r)\<rparr>))"
    using Cons.prems kv by (simp add: header_line_content_def good_field_def to_lower_def)
  then have "advance ?p = advance (in_headers (header_lines hs @ rest)
      (r\<lparr>rq_headers := header_set (to_lower k) v (rq_headers r)\<rparr>))"
    by (intro advance_step) (simp_all add: need_more_def has_request_def has_error_def)
  with Cons kv show ?case by simp
qed

lemma advance_request_head:
  assumes "good_request uri hs"
  shows "feed (request_head m uri hs @ rest) init_parser
    = advance (snd (end_of_headers (in_headers rest (make_request m uri (header_table hs) 0 []))))"
proof -
  let ?p = "push (request_head m uri hs @ rest) init_parser"
  let ?tail = "header_lines hs @ crlf @ rest"
  let ?r = "make_request m uri [] 0 []"
  have "LF \<notin> set (request_line m uri)"
    using assms method_no_space by (auto simp: request_line_def good_request_def good_uri_def)
  then have "split_line (ps_buffer ?p) = Some (request_line m uri, ?tail)"
    using split_line_crlf [of "request_line m uri"] by (simp add: request_head_def init_parser_def)
  then have "process_state ?p = request_line_content (request_line m uri) (?p\<lparr>ps_buffer := ?tail\<rparr>)"
    by (rule process_state_line) (simp add: init_parser_def)
  also have "\<dots> = (True, in_headers ?tail ?r)"
    using assms by (simp add: request_line_content_good good_request_def init_parser_def push_def
        empty_request_def make_request_def)
  finally have "feed (request_head m uri hs @ rest) init_parser = advance (in_headers ?tail ?r)"
    by (simp add: feed_push advance_step need_more_def has_request_def has_error_def init_parser_def)
  also have "\<dots> = advance (in_headers (crlf @ rest) (make_request m uri (header_table hs) 0 []))"
    using assms advance_headers [of hs "crlf @ rest" ?r]
    by (simp add: good_request_def make_request_def header_table_def)
  also have "\<dots> = advance (snd (end_of_headers (in_headers rest (make_request m uri (header_table hs) 0 []))))"
  proof -
    let ?q = "in_headers (crlf @ rest) (make_request m uri (header_table hs) 0 [])"
    have "split_line (ps_buffer ?q) = Some ([], rest)"
      using split_line_crlf [of "[]" rest] by simp
    then have "process_state ?q = header_line_content [] (?q\<lparr>ps_buffer := rest\<rparr>)"
      by (rule process_state_line(2)) simp
    then have q: "process_state ?q = end_of_headers (in_headers rest (make_request m uri (header_table hs) 0 []))"
      by (simp add: header_line_content_def)
    obtain progress q' where step: "process_state ?q = (progress, q')" by (cases "process_state ?q")
    show ?thesis
    proof (cases progress)
      case True
      with step have "advance ?q = advance q'"
        by (intro advance_step) (simp_all add: need_more_def has_request_def has_error_def)
      with step q show ?thesis by (metis snd_conv)
    next
      case False
      with step have "advance ?q = q'"
        by (intro advance_rest) (simp_all add: need_more_def has_request_def has_error_def)
      moreover have "has_error q' \<or> q' = ?q" using process_state_stuck [of ?q q'] step False by auto
      moreover have "q' \<noteq> ?q"
        using step q False by (auto simp: line_defs split: option.splits sum.splits if_splits)
      ultimately show ?thesis using step q by (metis advance_stopped need_more_def snd_conv)
    qed
  qed
  finally show ?thesis .
qed

text \<open>The length the header table declares, as the code reads it: 0 without the header.\<close>

definition declares_length :: "headers \<Rightarrow> nat \<Rightarrow> bool" where
  "declares_length h n \<longleftrightarrow> n \<le> MAX_BODY_SIZE
     \<and> (case header_get h ''content-length'' of None \<Rightarrow> n = 0 | Some v \<Rightarrow> v = dec_nat n)"

lemma MAX_BODY_SIZE_small: "n \<le> MAX_BODY_SIZE \<Longrightarrow> n < 2 ^ 63"
  by (simp add: MAX_BODY_SIZE_def)

lemma end_of_headers_declared:
  assumes "declares_length (rq_headers r) n"
  shows "end_of_headers (in_headers rest r) = begin_body n (in_headers rest r)"
  using assms MAX_BODY_SIZE_small [of n]
  by (auto simp: end_of_headers_def declares_length_def split: option.splits)

lemma get_request_fresh:
  "ps_buffer p = rest \<Longrightarrow> get_request p = (ps_request p, feed rest init_parser)"
  by (cases p) (simp add: get_request_def feed_def init_parser_def)



text \<open>
  Only POST consumes a body. For every other method a declared Content-Length is checked and
  then ignored: the request completes with an empty body, and the \<open>n\<close> bytes the client announced
  as its body stay in the buffer, where they are parsed as the next request of the connection.
\<close>

theorem body_of_non_post_is_next_request:
  assumes "good_request uri hs" "declares_length (header_table hs) n" "m \<noteq> POST" "length body = n"
  shows "get_request (feed (request_head m uri hs @ body @ rest) init_parser)
      = (make_request m uri (header_table hs) (of_nat (min 65535 n)) [], feed (body @ rest) init_parser)"
proof -
  let ?r = "make_request m uri (header_table hs) 0 []"
  have hd: "end_of_headers (in_headers (body @ rest) ?r) = begin_body n (in_headers (body @ rest) ?r)"
    using assms(2) by (intro end_of_headers_declared) (simp add: make_request_def)
  have le: "n \<le> MAX_BODY_SIZE" using assms(2) by (simp add: declares_length_def)
  have "feed (request_head m uri hs @ body @ rest) init_parser
      = advance (snd (begin_body n (in_headers (body @ rest) ?r)))"
    using assms(1) by (simp add: advance_request_head hd)
  also have "\<dots> = \<lparr>ps_buffer = body @ rest, ps_state = Done,
         ps_request = make_request m uri (header_table hs) (of_nat (min 65535 n)) [],
         ps_error = PE_Ok, ps_error_message = [], ps_body_bytes_remaining = n\<rparr>"
    using assms(3) le
    by (auto simp: begin_body_def make_request_def Let_def advance_stopped
        need_more_def has_request_def min_def)
  finally show ?thesis by (simp add: get_request_fresh)
qed

theorem body_of_non_post_is_next_request_witness:
  "get_request (feed (request_head GET ''/a'' [(''Content-Length'', ''19'')] @ request_head GET ''/b'' []) init_parser)
     = (make_request GET ''/a'' [(''content-length'', ''19'')] 19 [], feed (request_head GET ''/b'' []) init_parser)
   \<and> fst (get_request (feed (request_head GET ''/b'' []) init_parser)) = make_request GET ''/b'' [] 0 []"
proof
  have t: "header_table [(''Content-Length'', ''19'')] = [(''content-length'', ''19'')]"
    by (simp add: header_table_def header_set_def lower_char_def char_of_def bit_simps)
  have "declares_length [(''content-length'', ''19'')] 19" by code_simp
  moreover have "good_request ''/a'' [(''Content-Length'', ''19'')]" by code_simp
  moreover have "length (request_head GET ''/b'' []) = 19" by code_simp
  ultimately show "get_request (feed (request_head GET ''/a'' [(''Content-Length'', ''19'')] @ request_head GET ''/b'' []) init_parser)
     = (make_request GET ''/a'' [(''content-length'', ''19'')] 19 [], feed (request_head GET ''/b'' []) init_parser)"
    using body_of_non_post_is_next_request [of "''/a''" "[(''Content-Length'', ''19'')]" 19 GET
        "request_head GET ''/b'' []" "[]"] unfolding t by simp
  show "fst (get_request (feed (request_head GET ''/b'' []) init_parser)) = make_request GET ''/b'' [] 0 []"
    by code_simp
qed

section \<open>Consistent fields, bounded buffers\<close>

definition good_name :: "string \<times> string \<Rightarrow> bool" where
  "good_name kv \<longleftrightarrow> fst kv \<noteq> [] \<and> to_lower (fst kv) = fst kv \<and> CHR '':'' \<notin> set (fst kv)"

definition request_inv :: "http_request \<Rightarrow> bool" where
  "request_inv r \<longleftrightarrow> rq_method_str r = method_to_string (rq_method r)
     \<and> headers_ok (rq_headers r) \<and> list_all good_name (rq_headers r)"

definition complete_inv :: "http_request \<Rightarrow> bool" where
  "complete_inv r \<longleftrightarrow> request_inv r \<and> rq_uri r \<noteq> [] \<and> CHR '' '' \<notin> set (rq_uri r) \<and> LF \<notin> set (rq_uri r)
     \<and> length (rq_buffer r) \<le> MAX_BODY_SIZE
     \<and> (rq_method r = POST \<longrightarrow> unat (rq_content_length r) = min 65535 (length (rq_buffer r)))
     \<and> (rq_method r \<noteq> POST \<longrightarrow> rq_buffer r = [])"

definition parser_inv :: "request_parser \<Rightarrow> bool" where
  "parser_inv p \<longleftrightarrow> request_inv (ps_request p)
     \<and> (ps_error p = PE_Ok \<longleftrightarrow> ps_state p \<noteq> Error)
     \<and> (ps_state p \<in> {RequestLine, Headers} \<longrightarrow> rq_buffer (ps_request p) = [])
     \<and> (ps_state p \<in> {Headers, Body} \<longrightarrow>
          rq_uri (ps_request p) \<noteq> [] \<and> CHR '' '' \<notin> set (rq_uri (ps_request p)) \<and> LF \<notin> set (rq_uri (ps_request p)))
     \<and> (ps_state p = Body \<longrightarrow> rq_method (ps_request p) = POST
          \<and> 0 < ps_body_bytes_remaining p \<and> ps_body_bytes_remaining p \<le> MAX_BODY_SIZE
          \<and> unat (rq_content_length (ps_request p)) = min 65535 (ps_body_bytes_remaining p))
     \<and> (ps_state p = Done \<longrightarrow> complete_inv (ps_request p))"

text \<open>A parser that waits holds less than one line, or less than the body it waits for.\<close>

definition settled :: "request_parser \<Rightarrow> bool" where
  "settled p \<longleftrightarrow>
     (ps_state p \<in> {RequestLine, Headers} \<longrightarrow> LF \<notin> set (ps_buffer p) \<and> length (ps_buffer p) \<le> MAX_REQUEST_LINE)
     \<and> (ps_state p = Body \<longrightarrow> length (ps_buffer p) < ps_body_bytes_remaining p)"

lemma parser_inv_buffer [simp]: "parser_inv (p\<lparr>ps_buffer := b\<rparr>) = parser_inv p"
  by (simp add: parser_inv_def)

lemma request_inv_empty [simp]: "request_inv empty_request"
  by (simp add: request_inv_def empty_request_def headers_ok_def)

lemma parser_inv_fail: "parser_inv p \<Longrightarrow> e \<noteq> PE_Ok \<Longrightarrow> parser_inv (fail e m p)"
  by (simp add: parser_inv_def fail_def)

lemma parser_inv_init: "parser_inv init_parser" "parser_inv (reset p)"
  by (simp_all add: parser_inv_def init_parser_def reset_def) (simp_all add: empty_request_def)

lemma substr_no_space:
  assumes "find_char_from c l i = Some j" 
  shows "c \<notin> set (substr l i (j - i))"
proof -
  from assms obtain k where "find_char c (drop i l) = Some k" "j = i + k"
    by (auto simp: find_char_from_def)
  then show ?thesis using find_char_SomeD(3) by (simp add: substr_def)
qed

text \<open>The two ways out of each line handler.\<close>

lemma request_line_content_cases:
  obtains (failed) e m u where "e \<noteq> PE_Ok"
      "request_line_content l p = (False, fail e m (p\<lparr>ps_request := (ps_request p)\<lparr>rq_uri := u\<rparr>\<rparr>))"
  | (parsed) s1 s2 m where "find_char_from CHR '' '' l (s1 + 1) = Some s2"
      "substr l (s1 + 1) (s2 - (s1 + 1)) \<noteq> []"
      "request_line_content l p = (True, (set_method m
        (p\<lparr>ps_request := (ps_request p)\<lparr>rq_uri := substr l (s1 + 1) (s2 - (s1 + 1))\<rparr>\<rparr>))\<lparr>ps_state := Headers\<rparr>)"
proof (cases "find_char CHR '' '' l")
  case None
  then show ?thesis
    by (intro failed [of PE_InvalidRequestLine _ "rq_uri (ps_request p)"]) (auto simp: request_line_content_def)
next
  case s1: (Some s1)
  show ?thesis
  proof (cases "find_char_from CHR '' '' l (s1 + 1)")
    case None
    with s1 show ?thesis
      by (intro failed [of PE_InvalidRequestLine _ "rq_uri (ps_request p)"]) (auto simp: request_line_content_def)
  next
    case s2: (Some s2)
    let ?u = "substr l (s1 + 1) (s2 - (s1 + 1))"
    show ?thesis
    proof (cases "find_char_from CHR '' '' l (s2 + 1) \<noteq> None")
      case True
      with s1 s2 show ?thesis
        by (intro failed [of PE_InvalidRequestLine _ "rq_uri (ps_request p)"]) (auto simp: request_line_content_def)
    next
      case s3: False
      show ?thesis
      proof (cases "trim_ws (drop (s2 + 1) l) = [] \<or> substr l 0 s1 = [] \<or> ?u = []")
        case True
        with s1 s2 s3 show ?thesis
          by (intro failed [of PE_InvalidRequestLine _ ?u]) (auto simp: request_line_content_def)
      next
        case ne: False
        show ?thesis
        proof (cases "method_of_string (substr l 0 s1)")
          case None
          with s1 s2 s3 ne show ?thesis
            by (intro failed [of PE_MethodNotAllowed _ ?u]) (auto simp: request_line_content_def)
        next
          case (Some m)
          with s1 s2 s3 ne show ?thesis
            by (intro parsed [of s1 s2 m]) (auto simp: request_line_content_def)
        qed
      qed
    qed
  qed
qed

lemma split_line_no_LF: "split_line b = Some (l, r) \<Longrightarrow> LF \<notin> set l"
  using find_char_SomeD(3) [of LF b] by (auto simp: split_line_def strip_cr_def dest: in_set_butlastD split: if_splits)

lemma substr_set: "set (substr l i n) \<subseteq> set l"
  by (auto simp: substr_def dest: in_set_takeD in_set_dropD)

lemma parser_inv_request_line:
  assumes "parser_inv p" "ps_state p = RequestLine" "LF \<notin> set l"
  shows "parser_inv (snd (request_line_content l p))"
proof (cases rule: request_line_content_cases [of l p])
  case (failed e m u)
  with assms show ?thesis by (simp add: parser_inv_def request_inv_def fail_def)
next
  case (parsed s1 s2 m)
  have "LF \<notin> set (substr l (s1 + 1) (s2 - (s1 + 1)))" using assms(3) substr_set by blast
  with parsed assms(1,2) substr_no_space [OF parsed(1)] show ?thesis
    by (simp add: parser_inv_def request_inv_def)
qed

lemma parser_inv_begin_body:
  assumes "parser_inv p" "ps_state p = Headers"
  shows "parser_inv (snd (begin_body cl p))"
proof (cases "cl > MAX_BODY_SIZE")
  case True
  with assms show ?thesis by (simp add: begin_body_def parser_inv_fail)
next
  case False
  have "unat (of_nat (if cl > 65535 then 65535 else cl) :: 16 word) = min 65535 cl"
    by (auto simp: min_def unat_of_nat)
  with False assms show ?thesis
    by (auto simp: begin_body_def parser_inv_def complete_inv_def request_inv_def Let_def)
qed

lemma parser_inv_end_of_headers:
  assumes "parser_inv p" "ps_state p = Headers"
  shows "parser_inv (snd (end_of_headers p))"
proof (cases "header_get (rq_headers (ps_request p)) ''content-length''")
  case None
  with assms show ?thesis by (simp add: end_of_headers_def parser_inv_begin_body)
next
  case (Some s)
  with assms show ?thesis
    by (cases "stoll s") (simp_all add: end_of_headers_def parser_inv_begin_body parser_inv_fail)
qed

lemma lower_char_colon: "lower_char c = CHR '':'' \<Longrightarrow> c = CHR '':''"
proof -
  assume "lower_char c = CHR '':''"
  then have "(of_char (lower_char c) :: nat) = of_char CHR '':''" by simp
  then have "(of_char c :: nat) = of_char CHR '':''" by (auto simp: lower_char_def split: if_splits)
  then show "c = CHR '':''" by (simp only: of_char_eq_iff)
qed

lemma good_name_header_set:
  "good_name (n, v) \<Longrightarrow> list_all good_name h \<Longrightarrow> list_all good_name (header_set n v h)"
  by (induction h) (auto simp: header_set_def good_name_def)

lemma good_name_parsed:
  assumes "parse_header_line l True = (n, v)" "n \<noteq> []"
  shows "good_name (n, v)"
proof -
  obtain k where k: "n = to_lower k" "CHR '':'' \<notin> set k"
    using parse_header_line_parts [OF assms] by metis
  have "CHR '':'' \<notin> set (to_lower k)"
  proof
    assume "CHR '':'' \<in> set (to_lower k)"
    then obtain c where "c \<in> set k" "lower_char c = CHR '':''" by (auto simp: to_lower_def)
    with k(2) lower_char_colon show False by metis
  qed
  with k(1) assms(2) show ?thesis by (simp add: good_name_def)
qed

lemma parser_inv_add_header:
  assumes "parser_inv p" "ps_state p = Headers" "good_name (n, v)"
  shows "parser_inv (p\<lparr>ps_request := (ps_request p)\<lparr>rq_headers := header_set n v (rq_headers (ps_request p))\<rparr>\<rparr>)"
  using assms good_name_header_set [OF assms(3)]
  by (simp add: parser_inv_def request_inv_def)

lemma parser_inv_header_line:
  assumes "parser_inv p" "ps_state p = Headers"
  shows "parser_inv (snd (header_line_content l p))"
proof -
  obtain n v where nv: "parse_header_line l True = (n, v)" by (cases "parse_header_line l True")
  consider "l = []" | "l \<noteq> []" "n = []" | "l \<noteq> []" "n \<noteq> []" by blast
  then show ?thesis
  proof cases
    case 1
    with assms show ?thesis by (simp add: header_line_content_def parser_inv_end_of_headers)
  next
    case 2
    with nv assms show ?thesis by (simp add: header_line_content_def parser_inv_fail)
  next
    case 3
    with nv assms show ?thesis
      by (simp add: header_line_content_def parser_inv_add_header good_name_parsed)
  qed
qed

lemma parser_inv_process_state:
  assumes "parser_inv p"
  shows "parser_inv (snd (process_state p))"
proof (cases "ps_state p")
  case RequestLine
  with assms show ?thesis
    by (auto simp: process_state_def process_request_line_eq parser_inv_request_line parser_inv_fail
        dest: split_line_no_LF split: option.split)
next
  case Headers
  with assms show ?thesis
    by (auto simp: process_state_def process_headers_eq parser_inv_header_line parser_inv_fail
        split: option.split)
next
  case Body
  with assms show ?thesis
    by (auto simp: process_state_def process_body_def parser_inv_def complete_inv_def request_inv_def
        substr_def Let_def)
qed (use assms in \<open>simp_all add: process_state_def\<close>)

lemma parser_inv_advance: "parser_inv p \<Longrightarrow> parser_inv (advance p)"
proof (induction p rule: advance.induct)
  case (1 p)
  obtain progress p' where step: "process_state p = (progress, p')" by (cases "process_state p")
  then have "parser_inv p'" using parser_inv_process_state [OF "1.prems"] by simp
  with 1 step show ?case by (subst advance.simps) simp
qed

lemma fail_neq: "\<not> has_error p \<Longrightarrow> fail e m p \<noteq> p"
  by (metis has_simps(4))

lemma settled_stuck:
  assumes "process_state p = (False, p)" "\<not> has_error p"
  shows "settled p"
proof (cases "split_line (ps_buffer p)")
  case None
  with assms show ?thesis
    by (cases "ps_state p")
      (auto simp: settled_def process_state_def process_request_line_eq process_headers_eq process_body_def
        Let_def fail_neq MAX_HEADER_LINE_def MAX_REQUEST_LINE_def simp flip: split_line_None
        split: if_splits)
next
  case (Some lr)
  then obtain l r where lr: "split_line (ps_buffer p) = Some (l, r)" by (cases lr) simp
  note line = process_state_line [OF lr]
  show ?thesis
  proof (cases "ps_state p")
    case RequestLine
    with assms line(1) show ?thesis using line_content_stuck(1) by metis
  next
    case Headers
    with assms line(2) show ?thesis using line_content_stuck(2) by metis
  qed (use assms in \<open>auto simp: settled_def process_state_def process_body_def Let_def split: if_splits\<close>)
qed

lemma settled_advance: "settled (advance p)"
proof (induction p rule: advance.induct)
  case (1 p)
  obtain progress p' where step: "process_state p = (progress, p')" by (cases "process_state p")
  show ?case
  proof (cases "need_more p")
    case False
    then show ?thesis by (simp add: advance_stopped) (auto simp: settled_def need_more_def has_request_def has_error_def)
  next
    case True
    show ?thesis
    proof (cases progress)
      case True
      with 1 step \<open>need_more p\<close> show ?thesis
        by (simp add: advance_step need_more_def has_request_def has_error_def)
    next
      case False
      then have "advance p = p'" using step \<open>need_more p\<close> by (simp add: advance_rest)
      moreover have "settled p'" if "\<not> has_error p'"
      proof -
        have "p' = p" using process_state_stuck [of p p'] step False that by simp
        with step False that show ?thesis by (simp add: settled_stuck)
      qed
      moreover have "settled p'" if "has_error p'"
        using that by (simp add: settled_def has_error_def)
      ultimately show ?thesis by auto
    qed
  qed
qed

datatype parser_call = Feed string | Get_request | Reset

fun parser_call_step :: "parser_call \<Rightarrow> request_parser \<Rightarrow> request_parser" where
  "parser_call_step (Feed d) p = feed d p"
| "parser_call_step Get_request p = snd (get_request p)"
| "parser_call_step Reset p = reset p"

lemma parser_call_inv:
  assumes "parser_inv p" "settled p"
  shows "parser_inv (parser_call_step c p) \<and> settled (parser_call_step c p)"
proof (cases c)
  case (Feed d)
  with assms show ?thesis by (simp add: feed_def parser_inv_advance settled_advance)
next
  case Get_request
  have "parser_inv (p\<lparr>ps_request := empty_request, ps_state := RequestLine, ps_error := PE_Ok,
      ps_error_message := [], ps_body_bytes_remaining := 0\<rparr>)"
    by (simp add: parser_inv_def) (simp add: empty_request_def)
  with Get_request show ?thesis by (simp add: get_request_def parser_inv_advance settled_advance)
next
  case Reset
  then show ?thesis by (simp add: parser_inv_init) (simp add: settled_def reset_def MAX_REQUEST_LINE_def)
qed

interpretation parser_sys: invariant_system init_parser
  "\<lambda>p q. \<exists>c. q = parser_call_step c p" "\<lambda>p. parser_inv p \<and> settled p"
proof
  show "parser_inv init_parser \<and> settled init_parser"
    by (simp add: parser_inv_init) (simp add: settled_def init_parser_def MAX_REQUEST_LINE_def)
qed (use parser_call_inv in blast)

lemma parser_run_reachable: "parser_sys.reachable (foldl (\<lambda>p c. parser_call_step c p) init_parser calls)"
  by (induction calls rule: rev_induct) (auto intro: parser_sys.reachable.intros)

text \<open>
  C23: whatever sequence of \<open>feed\<close>, \<open>get_request\<close> and \<open>reset\<close> calls a connection makes on whatever
  bytes, a parser that asks for more holds less than 10 MiB, and no line feed unless it is reading a
  body; and a parser that has a request has a consistent one: the method string agrees with the
  method, the target is non-empty and free of spaces and line feeds, header names are distinct, non-empty and in
  lower case, only a POST has a body, and the 16-bit length is the body's length capped at 65535.
\<close>

theorem parser_calls_safe:
  "let p = foldl (\<lambda>p c. parser_call_step c p) init_parser calls in
     (ps_state p \<in> {RequestLine, Headers} \<longrightarrow> LF \<notin> set (ps_buffer p) \<and> length (ps_buffer p) \<le> 8192)
     \<and> (ps_state p = Body \<longrightarrow> length (ps_buffer p) < 10 * 1024 * 1024)
     \<and> (has_request p \<longrightarrow> complete_inv (ps_request p))
     \<and> (ps_error p = PE_Ok \<longleftrightarrow> \<not> has_error p)"
  using parser_sys.reachable_inv [OF parser_run_reachable, of calls]
  by (auto simp: Let_def parser_inv_def settled_def has_request_def has_error_def
      MAX_REQUEST_LINE_def MAX_BODY_SIZE_def)

theorem parser_calls_safe_witness:
  "complete_inv (ps_request (foldl (\<lambda>p c. parser_call_step c p) init_parser
      [Feed (request_head GET ''/a'' [])]))"
proof -
  have "has_request (foldl (\<lambda>p c. parser_call_step c p) init_parser [Feed (request_head GET ''/a'' [])])"
    by code_simp
  then show ?thesis
    using parser_calls_safe [of "[Feed (request_head GET ''/a'' [])]"] by (simp add: Let_def)
qed

end
