(* ===== verification/Path_Utils.thy ===== *)
theory Path_Utils
  imports Handler_Utils
begin

text \<open>
  Path canonicalisation: \<open>normalize_path\<close> and \<open>path_under_root\<close> of
  \<open>http/core/request_handler_utils.cpp\<close>. The scan is translated byte by byte; the lemmas relate
  it to the list of segments of a path, on which "below the document root" is the prefix order.
\<close>

section \<open>Definitions\<close>

definition push_segment :: "string \<Rightarrow> string list \<Rightarrow> string list" where
  "push_segment segment parts =
     (if segment = ''..'' then (if parts \<noteq> [] then butlast parts else parts)
      else if segment \<noteq> [] \<and> segment \<noteq> ''.'' then parts @ [segment]
      else parts)"

fun scan_path :: "string \<Rightarrow> string \<Rightarrow> string list \<Rightarrow> string list" where
  "scan_path [] segment parts = push_segment segment parts"
| "scan_path (c # cs) segment parts =
     (if c = CHR ''/'' then scan_path cs [] (push_segment segment parts)
      else scan_path cs (segment @ [c]) parts)"

fun join_parts :: "string list \<Rightarrow> string" where
  "join_parts [] = []"
| "join_parts [p] = p"
| "join_parts (p # q # ps) = p @ CHR ''/'' # join_parts (q # ps)"

definition is_absolute :: "string \<Rightarrow> bool" where
  "is_absolute path \<longleftrightarrow> path \<noteq> [] \<and> hd path = CHR ''/''"

definition normalize_path :: "string \<Rightarrow> string" where
  "normalize_path path =
     (let absolute = is_absolute path;
          parts = scan_path (drop (if absolute then 1 else 0) path) [] [];
          result = (if absolute then ''/'' else []) @ join_parts parts
      in if result = [] then ''/'' else result)"

definition path_under_root :: "string \<Rightarrow> string \<Rightarrow> bool" where
  "path_under_root canonical_path document_root =
     (let norm_path = normalize_path canonical_path;
          norm_root0 = normalize_path document_root;
          norm_root = (if norm_root0 \<noteq> [] \<and> last norm_root0 = CHR ''/''
                       then butlast norm_root0 else norm_root0)
      in if norm_path = norm_root then True
         else length norm_path > length norm_root
              \<and> norm_path ! length norm_root = CHR ''/''
              \<and> take (length norm_root) norm_path = norm_root)"

section \<open>Segments\<close>

fun split_slash :: "string \<Rightarrow> string \<Rightarrow> string list" where
  "split_slash [] segment = [segment]"
| "split_slash (c # cs) segment =
     (if c = CHR ''/'' then segment # split_slash cs [] else split_slash cs (segment @ [c]))"

abbreviation segments :: "string \<Rightarrow> string list" where
  "segments s \<equiv> split_slash s []"

definition resolve_segments :: "string list \<Rightarrow> string list \<Rightarrow> string list" where
  "resolve_segments parts segs = foldl (\<lambda>ps s. push_segment s ps) parts segs"

definition plain_segment :: "string \<Rightarrow> bool" where
  "plain_segment s \<longleftrightarrow> s \<noteq> [] \<and> s \<noteq> ''.'' \<and> s \<noteq> ''..'' \<and> CHR ''/'' \<notin> set s"

definition plain :: "string list \<Rightarrow> bool" where
  "plain ps \<longleftrightarrow> list_all plain_segment ps"

definition abs_path :: "string list \<Rightarrow> string" where
  "abs_path ps = CHR ''/'' # join_parts ps"

text \<open>The canonical segments of a path.\<close>

definition path_parts :: "string \<Rightarrow> string list" where
  "path_parts path = resolve_segments [] (segments path)"

lemma resolve_segments_simps [simp]:
  "resolve_segments ps [] = ps"
  "resolve_segments ps (s # ss) = resolve_segments (push_segment s ps) ss"
  "resolve_segments ps (ss @ ts) = resolve_segments (resolve_segments ps ss) ts"
  by (simp_all add: resolve_segments_def)

lemma push_segment_Nil [simp]: "push_segment [] ps = ps"
  by (simp add: push_segment_def)

lemma scan_path_eq: "scan_path cs seg ps = resolve_segments ps (split_slash cs seg)"
  by (induction cs seg ps rule: scan_path.induct) auto

lemma split_slash_no_slash: "CHR ''/'' \<notin> set seg \<Longrightarrow> list_all (\<lambda>s. CHR ''/'' \<notin> set s) (split_slash cs seg)"
  by (induction cs seg rule: split_slash.induct) auto

lemma split_slash_append_slash:
  "split_slash (a @ CHR ''/'' # b) seg = split_slash a seg @ split_slash b []"
  by (induction a seg rule: split_slash.induct) auto

lemma split_slash_single: "CHR ''/'' \<notin> set a \<Longrightarrow> split_slash a seg = [seg @ a]"
  by (induction a arbitrary: seg) auto

lemma plain_simps [simp]:
  "plain []" "plain (s # ps) \<longleftrightarrow> plain_segment s \<and> plain ps"
  "plain (ps @ qs) \<longleftrightarrow> plain ps \<and> plain qs"
  by (simp_all add: plain_def)

lemma plain_butlast: "plain ps \<Longrightarrow> plain (butlast ps)"
  by (auto simp: plain_def list_all_iff dest: in_set_butlastD)

lemma push_segment_plain:
  "plain ps \<Longrightarrow> CHR ''/'' \<notin> set s \<Longrightarrow> plain (push_segment s ps)"
  by (auto simp: push_segment_def plain_segment_def intro: plain_butlast)

lemma resolve_segments_plain:
  "plain ps \<Longrightarrow> list_all (\<lambda>s. CHR ''/'' \<notin> set s) ss \<Longrightarrow> plain (resolve_segments ps ss)"
  by (induction ss arbitrary: ps) (auto intro: push_segment_plain)

lemma path_parts_plain [simp]: "plain (path_parts p)"
  by (simp add: path_parts_def resolve_segments_plain split_slash_no_slash)

lemma push_plain_segment: "plain_segment s \<Longrightarrow> push_segment s ps = ps @ [s]"
  by (simp add: push_segment_def plain_segment_def)

lemma resolve_plain: "plain ss \<Longrightarrow> resolve_segments ps ss = ps @ ss"
  by (induction ss arbitrary: ps) (auto simp: push_plain_segment)

lemma segments_join_parts:
  "plain ps \<Longrightarrow> ps \<noteq> [] \<Longrightarrow> segments (join_parts ps) = ps"
  by (induction ps rule: join_parts.induct)
    (auto simp: plain_segment_def split_slash_single split_slash_append_slash)

lemma path_parts_join [simp]: "plain ps \<Longrightarrow> path_parts (join_parts ps) = ps"
  by (cases "ps = []") (simp_all add: path_parts_def segments_join_parts resolve_plain)

lemma path_parts_slash [simp]: "path_parts (CHR ''/'' # p) = path_parts p"
  by (simp add: path_parts_def)

lemma path_parts_abs_path [simp]: "plain ps \<Longrightarrow> path_parts (abs_path ps) = ps"
  by (simp add: abs_path_def)

lemma path_parts_Nil [simp]: "path_parts [] = []"
  by (simp add: path_parts_def)

lemma path_parts_append_slash:
  "path_parts (a @ CHR ''/'' # b) = resolve_segments (path_parts a) (segments b)"
  by (simp add: path_parts_def split_slash_append_slash)

lemma join_parts_no_lead: "plain ps \<Longrightarrow> join_parts ps = [] \<or> hd (join_parts ps) \<noteq> CHR ''/''"
  by (induction ps rule: join_parts.induct)
    (auto simp: plain_segment_def hd_append dest: hd_in_set)

lemma is_absolute_abs_path [simp]: "is_absolute (abs_path ps)"
  by (simp add: is_absolute_def abs_path_def)

section \<open>Canonical forms\<close>

lemma normalize_path_eq:
  "normalize_path p =
     (if is_absolute p \<or> path_parts p = [] then abs_path (path_parts p) else join_parts (path_parts p))"
proof -
  have j: "join_parts ps = [] \<longleftrightarrow> ps = []" if "plain ps" for ps
    using that by (induction ps rule: join_parts.induct) (auto simp: plain_segment_def)
  have "is_absolute p \<Longrightarrow> path_parts p = path_parts (drop 1 p)"
    by (cases p) (auto simp: is_absolute_def)
  moreover have "join_parts (path_parts p) = [] \<longleftrightarrow> path_parts p = []"
    by (rule j) simp
  ultimately show ?thesis
    by (auto simp: normalize_path_def scan_path_eq path_parts_def [symmetric] abs_path_def Let_def)
qed

lemma normalize_path_parts [simp]: "path_parts (normalize_path p) = path_parts p"
  by (simp add: normalize_path_eq)

lemma normalize_path_absolute: "is_absolute p \<Longrightarrow> normalize_path p = abs_path (path_parts p)"
  by (simp add: normalize_path_eq)

lemma is_absolute_normalize:
  "is_absolute (normalize_path p) \<longleftrightarrow> is_absolute p \<or> path_parts p = []"
proof -
  have "\<not> is_absolute (join_parts (path_parts p))" if "path_parts p \<noteq> []"
    using join_parts_no_lead [OF path_parts_plain, of p] by (auto simp: is_absolute_def)
  then show ?thesis by (auto simp: normalize_path_eq)
qed

lemma normalize_path_segments:
  assumes "normalize_path p \<noteq> ''/''"
  shows "segments (if is_absolute p then tl (normalize_path p) else normalize_path p) = path_parts p"
proof -
  have "path_parts p \<noteq> []" using assms by (auto simp: normalize_path_eq abs_path_def)
  then show ?thesis
    by (simp add: normalize_path_eq abs_path_def segments_join_parts)
qed

text \<open>
  \<open>normalize_path\<close> is idempotent, and unless its result is the root itself, the segments of the
  result, split at every slash, are never empty, \<open>.\<close> or \<open>..\<close>: no dot segment and no doubled
  slash survives canonicalisation, for relative and absolute paths alike.
\<close>

theorem normalize_path_canonical:
  "normalize_path (normalize_path p) = normalize_path p
   \<and> (normalize_path p = ''/''
      \<or> plain (segments (if is_absolute p then tl (normalize_path p) else normalize_path p)))"
proof
  show "normalize_path (normalize_path p) = normalize_path p"
    by (simp add: normalize_path_eq [of "normalize_path p"] is_absolute_normalize)
      (auto simp: normalize_path_eq [of p])
next
  show "normalize_path p = ''/''
      \<or> plain (segments (if is_absolute p then tl (normalize_path p) else normalize_path p))"
    using normalize_path_segments [of p] path_parts_plain [of p] by metis
qed

section \<open>Below the document root\<close>

definition slashed :: "string list \<Rightarrow> string" where
  "slashed ps = concat (map (\<lambda>s. CHR ''/'' # s) ps)"

lemma slashed_simps [simp]:
  "slashed [] = []" "slashed (p # ps) = CHR ''/'' # p @ slashed ps"
  by (simp_all add: slashed_def)

lemma abs_path_slashed: "abs_path ps = (if ps = [] then ''/'' else slashed ps)"
  by (induction ps rule: join_parts.induct) (auto simp: abs_path_def)

lemma slashed_head: "slashed ps = [] \<or> hd (slashed ps) = CHR ''/''"
  by (cases ps) auto

lemma takeWhile_segment:
  assumes "CHR ''/'' \<notin> set p" "y = [] \<or> hd y = CHR ''/''"
  shows "takeWhile (\<lambda>c. c \<noteq> CHR ''/'') (p @ y) = p"
proof -
  have "takeWhile (\<lambda>c. c \<noteq> CHR ''/'') y = []" using assms(2) by (cases y) auto
  moreover have "\<forall>c \<in> set p. c \<noteq> CHR ''/''" using assms(1) by auto
  ultimately show ?thesis by (simp add: takeWhile_append2)
qed

lemma segment_split:
  assumes "CHR ''/'' \<notin> set p" "CHR ''/'' \<notin> set r"
    "x = [] \<or> hd x = CHR ''/''" "y = [] \<or> hd y = CHR ''/''"
  shows "p @ x = r @ y \<longleftrightarrow> p = r \<and> x = y"
  using assms by (metis same_append_eq takeWhile_segment)

lemma slashed_prefix:
  assumes "plain rs" "plain ps"
  shows "(slashed ps = slashed rs \<or> prefix (slashed rs @ ''/'') (slashed ps)) \<longleftrightarrow> prefix rs ps"
  using assms
proof (induction rs arbitrary: ps)
  case Nil
  then show ?case by (cases ps) auto
next
  case (Cons r rs)
  show ?case
  proof (cases ps)
    case Nil
    then show ?thesis by simp
  next
    case (Cons p ps')
    have no_slash: "CHR ''/'' \<notin> set p" "CHR ''/'' \<notin> set r"
      using Cons.prems Cons by (auto simp: plain_segment_def)
    have "p @ slashed ps' = r @ slashed rs \<longleftrightarrow> p = r \<and> slashed ps' = slashed rs"
      using no_slash slashed_head by (intro segment_split) auto
    moreover have "p @ slashed ps' = r @ slashed rs @ ''/'' @ z
        \<longleftrightarrow> p = r \<and> slashed ps' = slashed rs @ ''/'' @ z" for z
      using no_slash slashed_head [of ps'] slashed_head [of rs]
      by (intro segment_split) (auto simp: hd_append)
    ultimately show ?thesis
      using Cons.IH [of ps'] Cons.prems Cons by (auto simp: prefix_def)
  qed
qed

lemma last_slashed: "plain ps \<Longrightarrow> ps \<noteq> [] \<Longrightarrow> last (slashed ps) \<noteq> CHR ''/''"
proof (induction ps)
  case (Cons p ps)
  then show ?case by (cases "ps = []") (auto simp: plain_segment_def last_append dest: last_in_set)
qed simp

lemma under_test_iff:
  "length p > length r \<and> p ! length r = c \<and> take (length r) p = r \<longleftrightarrow> prefix (r @ [c]) p"
proof
  assume *: "length p > length r \<and> p ! length r = c \<and> take (length r) p = r"
  then have "take (Suc (length r)) p = r @ [c]" by (simp add: take_Suc_conv_app_nth)
  then show "prefix (r @ [c]) p" by (metis take_is_prefix)
qed (auto simp: prefix_def nth_append)

lemma path_under_root_segments:
  assumes "is_absolute p" "is_absolute root"
  shows "path_under_root p root \<longleftrightarrow> prefix (path_parts root) (path_parts p)"
proof -
  let ?ps = "path_parts p" and ?rs = "path_parts root"
  let ?root0 = "normalize_path root"
  have root: "(if ?root0 \<noteq> [] \<and> last ?root0 = CHR ''/'' then butlast ?root0 else ?root0) = slashed ?rs"
    using assms(2) last_slashed [of ?rs]
    by (auto simp: normalize_path_absolute abs_path_slashed)
  have "path_under_root p root \<longleftrightarrow>
      abs_path ?ps = slashed ?rs \<or> prefix (slashed ?rs @ ''/'') (abs_path ?ps)"
    unfolding path_under_root_def Let_def root
    using assms(1) by (simp add: normalize_path_absolute under_test_iff)
  also have "\<dots> \<longleftrightarrow> prefix ?rs ?ps"
  proof (cases "?ps = []")
    case True
    have "plain_segment r \<Longrightarrow> r \<noteq> []" for r by (simp add: plain_segment_def)
    with True path_parts_plain [of root] show ?thesis
      by (cases ?rs) (auto simp: abs_path_slashed)
  next
    case False
    then show ?thesis
      using slashed_prefix [of ?rs ?ps] by (simp add: abs_path_slashed)
  qed
  finally show ?thesis .
qed

text \<open>
  For absolute paths, the string test of \<open>path_under_root\<close> (equal, or longer with a slash at
  the root's length) decides exactly whether the canonical segments of the document root are a
  prefix of those of the path: \<open>/var/www2\<close> is not under \<open>/var/www\<close>, \<open>/var/www/../x\<close> is not
  either, and a document root \<open>/\<close> contains everything.
\<close>

theorem path_under_root_iff:
  assumes "is_absolute p" "is_absolute root"
  shows "path_under_root p root \<longleftrightarrow> prefix (path_parts root) (path_parts p)"
  using assms by (rule path_under_root_segments)

theorem path_under_root_iff_witness:
  "\<not> path_under_root ''/var/www2'' ''/var/www'' \<and> path_under_root ''/var/www/a'' ''/var/www/''"
  using path_under_root_iff [of "''/var/www2''" "''/var/www''"]
    path_under_root_iff [of "''/var/www/a''" "''/var/www/''"]
  by (simp add: is_absolute_def path_parts_def push_segment_def)

end
