(* ===== verification/Config_File.thy ===== *)
theory Config_File
  imports Handler_Utils Path_Utils
begin

text \<open>
  The configuration: \<open>config/config.hpp\<close>, \<open>config/config.cpp\<close>, and the resolution of relative
  document roots in \<open>main.cpp\<close>. The file is the list of its lines; \<open>None\<close> is a file that cannot
  be opened. A line handler returns \<open>Inl\<close> with the configuration as it stands when
  \<open>load_config\<close> returns false, and \<open>Inr\<close> to go on.
\<close>

section \<open>Data\<close>

record virtual_host =
  vh_document_root :: string
  vh_server_name :: string

datatype mode = Select | Threads

record config =
  cf_listen_port :: int
  cf_virtual_hosts :: "virtual_host list"
  cf_mode :: mode
  cf_n_select_loops :: int
  cf_n_threads :: int
  cf_timeout_seconds :: int
  cf_log_file :: string
  cf_tls_cert_file :: string
  cf_tls_key_file :: string
  cf_tls_port :: int

definition default_config :: config where
  "default_config = \<lparr>cf_listen_port = 8080, cf_virtual_hosts = [], cf_mode = Threads,
     cf_n_select_loops = 0, cf_n_threads = 4, cf_timeout_seconds = 10, cf_log_file = [],
     cf_tls_cert_file = [], cf_tls_key_file = [], cf_tls_port = 4443\<rparr>"

definition empty_vhost :: virtual_host where
  "empty_vhost = \<lparr>vh_document_root = [], vh_server_name = []\<rparr>"

section \<open>Lines\<close>

definition strip_comment :: "string \<Rightarrow> string" where
  "strip_comment s =
     (let before = (case find_char CHR ''#'' s of None \<Rightarrow> s | Some hash \<Rightarrow> substr s 0 hash)
      in trim_ws before)"

text \<open>Returns the C++ result together with the two reference arguments.\<close>

definition split_first_word :: "string \<Rightarrow> bool \<times> string \<times> string" where
  "split_first_word line =
     (case find_idx (\<lambda>c. c = CHR '' '' \<or> c = TAB) line of
        None \<Rightarrow> let key = trim_ws line in (key \<noteq> [], key, [])
      | Some space \<Rightarrow> (True, trim_ws (substr line 0 space), trim_ws (drop (space + 1) line)))"

definition parse_positive_int :: "string \<Rightarrow> int option" where
  "parse_positive_int s =
     (if s = [] then None
      else (case stoi s of
              Inl _ \<Rightarrow> None
            | Inr (n, pos) \<Rightarrow> if n \<le> 0 \<or> pos \<noteq> length s then None else Some n))"

section \<open>The loop of load_config\<close>

definition update_last :: "('a \<Rightarrow> 'a) \<Rightarrow> 'a list \<Rightarrow> 'a list" where
  "update_last f xs = (if xs = [] then xs else butlast xs @ [f (last xs)])"

definition vhost_line :: "string \<Rightarrow> config \<Rightarrow> bool \<times> config" where
  "vhost_line normalized cfg =
     (if find_sub ''</VirtualHost>'' normalized = Some 0 then (False, cfg)
      else
        let (ok, key, v) = split_first_word normalized
        in (True,
            if ok then
              if key = ''DocumentRoot''
              then cfg\<lparr>cf_virtual_hosts := update_last (vh_document_root_update (\<lambda>_. v)) (cf_virtual_hosts cfg)\<rparr>
              else if key = ''ServerName''
              then cfg\<lparr>cf_virtual_hosts := update_last (vh_server_name_update (\<lambda>_. v)) (cf_virtual_hosts cfg)\<rparr>
              else cfg
            else cfg))"

definition with_positive :: "string \<Rightarrow> config \<Rightarrow> (int \<Rightarrow> config) \<Rightarrow> config + config" where
  "with_positive v cfg f = (case parse_positive_int v of None \<Rightarrow> Inl cfg | Some n \<Rightarrow> Inr (f n))"

definition global_line :: "string \<Rightarrow> string \<Rightarrow> config \<Rightarrow> config + config" where
  "global_line key v cfg =
     (if key = ''Listen'' then with_positive v cfg (\<lambda>n. cfg\<lparr>cf_listen_port := n\<rparr>)
      else if key = ''nThreads''
      then with_positive v cfg (\<lambda>n. cfg\<lparr>cf_mode := Threads, cf_n_threads := n\<rparr>)
      else if key = ''nSelectLoops''
      then with_positive v cfg (\<lambda>n. cfg\<lparr>cf_mode := Select, cf_n_select_loops := n\<rparr>)
      else if key = ''Timeout'' then with_positive v cfg (\<lambda>n. cfg\<lparr>cf_timeout_seconds := n\<rparr>)
      else if key = ''LogFile'' then Inr (cfg\<lparr>cf_log_file := v\<rparr>)
      else if key = ''TLSCertFile'' then Inr (cfg\<lparr>cf_tls_cert_file := v\<rparr>)
      else if key = ''TLSKeyFile'' then Inr (cfg\<lparr>cf_tls_key_file := v\<rparr>)
      else if key = ''TLSPort'' then with_positive v cfg (\<lambda>n. cfg\<lparr>cf_tls_port := n\<rparr>)
      else Inr cfg)"

definition config_line :: "string \<Rightarrow> bool \<times> config \<Rightarrow> config + bool \<times> config" where
  "config_line line st =
     (let (in_virtual_host, cfg) = st; normalized = strip_comment line
      in if normalized = [] then Inr st
         else if in_virtual_host then Inr (vhost_line normalized cfg)
         else if find_sub ''<VirtualHost'' normalized = Some 0
         then Inr (True, cfg\<lparr>cf_virtual_hosts := cf_virtual_hosts cfg @ [empty_vhost]\<rparr>)
         else
           let (ok, key, v) = split_first_word normalized
           in if \<not> ok then Inr st
              else map_sum id (\<lambda>c. (False, c)) (global_line key v cfg))"

fun config_lines :: "string list \<Rightarrow> bool \<times> config \<Rightarrow> config + bool \<times> config" where
  "config_lines [] st = Inr st"
| "config_lines (l # ls) st =
     (case config_line l st of Inl cfg \<Rightarrow> Inl cfg | Inr st' \<Rightarrow> config_lines ls st')"

definition load_config :: "string option \<Rightarrow> config \<Rightarrow> bool \<times> config" where
  "load_config file out =
     (case file of
        None \<Rightarrow> (False, out)
      | Some content \<Rightarrow>
          (case config_lines (getlines LF content) (False, out) of
             Inl cfg \<Rightarrow> (False, cfg)
           | Inr (in_virtual_host, cfg) \<Rightarrow> (\<not> in_virtual_host, cfg)))"

text \<open>
  \<open>main\<close> makes relative document roots absolute; \<open>cwd\<close> is what \<open>getcwd\<close> returns (\<open>None\<close> if it
  fails) and \<open>realpath\<close> the C library function (\<open>None\<close> for a null result).
\<close>

definition resolve_document_root :: "(string \<Rightarrow> string option) \<Rightarrow> string \<Rightarrow> virtual_host \<Rightarrow> virtual_host" where
  "resolve_document_root realpath base vh =
     (if vh_document_root vh \<noteq> [] \<and> hd (vh_document_root vh) \<noteq> CHR ''/''
      then
        let root = base @ ''/'' @ vh_document_root vh
        in vh\<lparr>vh_document_root := (case realpath root of Some resolved \<Rightarrow> resolved | None \<Rightarrow> root)\<rparr>
      else vh)"

definition resolve_document_roots :: "(string \<Rightarrow> string option) \<Rightarrow> string option \<Rightarrow> config \<Rightarrow> config" where
  "resolve_document_roots realpath cwd cfg =
     (case cwd of
        None \<Rightarrow> cfg
      | Some base \<Rightarrow>
          cfg\<lparr>cf_virtual_hosts := map (resolve_document_root realpath base) (cf_virtual_hosts cfg)\<rparr>)"

section \<open>A loaded configuration is usable\<close>

definition in_int_range :: "int \<Rightarrow> bool" where
  "in_int_range n \<longleftrightarrow> 0 < n \<and> n < 2 ^ 31"

definition config_ok :: "config \<Rightarrow> bool" where
  "config_ok c \<longleftrightarrow> in_int_range (cf_listen_port c) \<and> in_int_range (cf_tls_port c)
     \<and> in_int_range (cf_timeout_seconds c) \<and> in_int_range (cf_n_threads c)
     \<and> (cf_n_select_loops c = 0 \<or> in_int_range (cf_n_select_loops c))
     \<and> (cf_mode c = Select \<longrightarrow> in_int_range (cf_n_select_loops c))"

lemma stoi_range:
  assumes "stoi s = Inr (n, pos)"
  shows "n < 2 ^ 31"
proof -
  from assms obtain neg m where "signed_in 32 neg m = Some n"
    by (auto simp: stoi_def split: option.splits prod.splits)
  then show ?thesis unfolding signed_in_def Let_def by (simp split: if_splits)
qed

lemma parse_positive_int_range:
  assumes "parse_positive_int s = Some n"
  shows "in_int_range n"
proof -
  from assms obtain m pos where "stoi s = Inr (m, pos)" "m = n" "0 < n"
    by (auto simp: parse_positive_int_def split: if_splits sum.splits prod.splits)
  then show ?thesis using stoi_range by (simp add: in_int_range_def)
qed

lemma with_positive_ok:
  assumes "with_positive v c f = Inr c'" "\<And>n. in_int_range n \<Longrightarrow> config_ok (f n)"
  shows "config_ok c'"
proof (cases "parse_positive_int v")
  case None
  with assms(1) show ?thesis by (simp add: with_positive_def)
next
  case (Some n)
  with assms(1) have "c' = f n" by (simp add: with_positive_def)
  with assms(2) parse_positive_int_range [OF Some] show ?thesis by simp
qed

lemma global_line_ok:
  assumes "config_ok c" "global_line key v c = Inr c'"
  shows "config_ok c'"
  using assms unfolding global_line_def
  by (auto simp: config_ok_def split: if_split_asm elim!: with_positive_ok [unfolded config_ok_def])

lemma vhost_line_ok: "config_ok c \<Longrightarrow> config_ok (snd (vhost_line l c))"
  by (simp add: vhost_line_def config_ok_def split: prod.split)

lemma config_line_ok:
  assumes "config_ok c" "config_line l (b, c) = Inr st'"
  shows "config_ok (snd st')"
proof -
  let ?n = "strip_comment l"
  obtain ok key v where w: "split_first_word ?n = (ok, key, v)"
    by (cases "split_first_word ?n")
  consider "?n = []" | "?n \<noteq> []" "b" | "?n \<noteq> []" "\<not> b" "find_sub ''<VirtualHost'' ?n = Some 0"
    | "?n \<noteq> []" "\<not> b" "find_sub ''<VirtualHost'' ?n \<noteq> Some 0" by blast
  then show ?thesis
  proof cases
    case 3
    with assms show ?thesis by (auto simp: config_line_def Let_def config_ok_def)
  next
    case 4
    show ?thesis
    proof (cases "global_line key v c")
      case (Inr c')
      with 4 w assms global_line_ok [OF assms(1) Inr] show ?thesis
        by (auto simp: config_line_def Let_def split: if_splits)
    qed (use 4 w assms in \<open>auto simp: config_line_def Let_def split: if_splits\<close>)
  qed (use assms vhost_line_ok in \<open>auto simp: config_line_def Let_def\<close>)
qed

lemma config_lines_ok:
  "config_ok (snd st) \<Longrightarrow> config_lines ls st = Inr st' \<Longrightarrow> config_ok (snd st')"
proof (induction ls arbitrary: st)
  case (Cons l ls)
  then show ?case
    using config_line_ok [of "snd st" l "fst st"] by (cases "config_line l st") simp_all
qed simp

lemma default_config_ok: "config_ok default_config"
  by (simp add: config_ok_def default_config_def in_int_range_def)

lemma load_config_ok: "load_config file default_config = (True, cfg) \<Longrightarrow> config_ok cfg"
  using config_lines_ok [OF _ , of "(False, default_config)"] default_config_ok
  by (fastforce simp: load_config_def split: option.splits sum.splits prod.splits)

text \<open>
  C34: a configuration that \<open>load_config\<close> accepts (started from the defaults, as \<open>main\<close> does) has
  every numeric setting positive and within \<open>int\<close>, and at least one worker for the mode it selects,
  whatever the file says.
\<close>

theorem load_config_valid:
  assumes "load_config file default_config = (True, cfg)"
  shows "config_ok cfg"
  using assms by (rule load_config_ok)

theorem load_config_valid_witness:
  "config_ok (snd (load_config (Some (''nSelectLoops 2'' @ [LF])) default_config))"
proof -
  have "load_config (Some (''nSelectLoops 2'' @ [LF])) default_config
      = (True, default_config\<lparr>cf_mode := Select, cf_n_select_loops := 2\<rparr>)"
    by code_simp
  then show ?thesis using load_config_valid by simp
qed

section \<open>Writing a configuration down\<close>

definition key_line :: "string \<Rightarrow> string \<Rightarrow> string" where
  "key_line key v = key @ CHR '' '' # v"

definition number_line :: "string \<Rightarrow> int \<Rightarrow> string" where
  "number_line key n = key_line key (dec_nat (nat n))"

definition render_vhost :: "virtual_host \<Rightarrow> string list" where
  "render_vhost vh =
     [''<VirtualHost *>'', key_line ''DocumentRoot'' (vh_document_root vh),
      key_line ''ServerName'' (vh_server_name vh), ''</VirtualHost>'']"

definition render_workers :: "config \<Rightarrow> string list" where
  "render_workers c =
     (let threads = [number_line ''nThreads'' (cf_n_threads c)];
          loops = (if cf_n_select_loops c = 0 then []
                   else [number_line ''nSelectLoops'' (cf_n_select_loops c)])
      in case cf_mode c of Threads \<Rightarrow> loops @ threads | Select \<Rightarrow> threads @ loops)"

definition render_config :: "config \<Rightarrow> string list" where
  "render_config c =
     [number_line ''Listen'' (cf_listen_port c)] @ render_workers c
     @ [number_line ''Timeout'' (cf_timeout_seconds c), key_line ''LogFile'' (cf_log_file c),
        key_line ''TLSCertFile'' (cf_tls_cert_file c), key_line ''TLSKeyFile'' (cf_tls_key_file c),
        number_line ''TLSPort'' (cf_tls_port c)]
     @ concat (map render_vhost (cf_virtual_hosts c))"

definition unlines :: "string list \<Rightarrow> string" where
  "unlines ls = concat (map (\<lambda>l. l @ [LF]) ls)"

text \<open>Values that survive the line format: no comment sign, no line feed, no outer white space.\<close>

definition plain_value :: "string \<Rightarrow> bool" where
  "plain_value v \<longleftrightarrow> CHR ''#'' \<notin> set v \<and> LF \<notin> set v \<and> trimmed default_ws v"

definition plain_config :: "config \<Rightarrow> bool" where
  "plain_config c \<longleftrightarrow> config_ok c \<and> plain_value (cf_log_file c) \<and> plain_value (cf_tls_cert_file c)
     \<and> plain_value (cf_tls_key_file c)
     \<and> list_all (\<lambda>vh. plain_value (vh_document_root vh) \<and> plain_value (vh_server_name vh))
          (cf_virtual_hosts c)"

definition plain_key :: "string \<Rightarrow> bool" where
  "plain_key k \<longleftrightarrow> k \<noteq> [] \<and> hd k \<noteq> CHR ''<'' \<and> CHR ''#'' \<notin> set k \<and> (\<forall>c \<in> set k. c \<notin> set default_ws)"

lemma find_sub_0: "find_sub pat s = Some 0 \<longleftrightarrow> prefix pat s"
  by (cases s) auto

lemma plain_key_trimmed:
  assumes "plain_key k"
  shows "trimmed default_ws k"
  using assms by (auto simp: plain_key_def trimmed_def)

lemma key_line_parse:
  assumes "plain_key k" "plain_value v"
  defines "n \<equiv> (if v = [] then k else key_line k v)"
  shows "strip_comment (key_line k v) = n" "split_first_word n = (True, k, v)" "n \<noteq> []"
    "hd n \<noteq> CHR ''<''"
proof -
  have no_hash: "CHR ''#'' \<notin> set (key_line k v)"
    using assms by (auto simp: key_line_def plain_key_def plain_value_def)
  have "trim_ws (key_line k v) = n"
  proof (cases "v = []")
    case True
    have "dropWhile (\<lambda>c. c \<in> set default_ws) (k @ [CHR '' '']) = k @ [CHR '' '']"
      using assms(1) by (cases k) (simp_all add: plain_key_def)
    moreover have "dropWhile (\<lambda>c. c \<in> set default_ws) (rev k) = rev k"
      using assms(1) by (auto simp: plain_key_def dropWhile_eq_self_iff hd_rev)
    moreover have "CHR '' '' \<in> set default_ws" by (simp add: default_ws_def)
    ultimately have "trim_ws (k @ [CHR '' '']) = k" by (simp add: trim_eq)
    with True show ?thesis by (simp add: n_def key_line_def)
  next
    case False
    then have "trimmed default_ws (key_line k v)"
      using assms by (auto simp: trimmed_def key_line_def plain_key_def plain_value_def)
    with False show ?thesis by (simp add: n_def trim_id)
  qed
  with no_hash show "strip_comment (key_line k v) = n" by (simp add: strip_comment_def)
  have key: "\<forall>c \<in> set k. \<not> (c = CHR '' '' \<or> c = TAB)"
    using assms(1) by (auto simp: plain_key_def default_ws_def)
  show "split_first_word n = (True, k, v)"
  proof (cases "v = []")
    case True
    have "find_idx (\<lambda>c. c = CHR '' '' \<or> c = TAB) k = None" using key by (simp add: find_idx_None_iff)
    with True assms(1) plain_key_trimmed [OF assms(1)] show ?thesis
      by (simp add: n_def split_first_word_def trim_id plain_key_def)
  next
    case False
    have "find_idx (\<lambda>c. c = CHR '' '' \<or> c = TAB) (key_line k v) = Some (length k)"
      unfolding key_line_def using key by (rule find_idx_prefix) simp
    with False assms(2) plain_key_trimmed [OF assms(1)] show ?thesis
      by (simp add: n_def split_first_word_def substr_def trim_id plain_value_def key_line_def)
  qed
  show "n \<noteq> []" "hd n \<noteq> CHR ''<''"
    using assms(1) by (auto simp: n_def key_line_def plain_key_def)
qed

lemma config_line_key:
  assumes "plain_key k" "plain_value v"
  shows "config_line (key_line k v) (False, c) = map_sum id (\<lambda>c. (False, c)) (global_line k v c)"
    "config_line (key_line k v) (True, c) = Inr (vhost_line (strip_comment (key_line k v)) c)"
proof -
  note parse = key_line_parse [OF assms]
  have "find_sub ''<VirtualHost'' (if v = [] then k else key_line k v) \<noteq> Some 0"
    using parse(3,4) by (auto simp: find_sub_0 prefix_def)
  then show "config_line (key_line k v) (False, c) = map_sum id (\<lambda>c. (False, c)) (global_line k v c)"
    using parse(2,3) by (simp add: config_line_def parse(1) Let_def)
  show "config_line (key_line k v) (True, c) = Inr (vhost_line (strip_comment (key_line k v)) c)"
    using parse(3) by (simp add: config_line_def parse(1) Let_def)
qed

lemma vhost_line_key:
  assumes "plain_key k" "plain_value v"
  shows "vhost_line (strip_comment (key_line k v)) c =
    (True, if k = ''DocumentRoot''
       then c\<lparr>cf_virtual_hosts := update_last (vh_document_root_update (\<lambda>_. v)) (cf_virtual_hosts c)\<rparr>
       else if k = ''ServerName''
       then c\<lparr>cf_virtual_hosts := update_last (vh_server_name_update (\<lambda>_. v)) (cf_virtual_hosts c)\<rparr>
       else c)"
proof -
  note parse = key_line_parse [OF assms]
  have "find_sub ''</VirtualHost>'' (if v = [] then k else key_line k v) \<noteq> Some 0"
    using parse(3,4) by (auto simp: find_sub_0 prefix_def)
  then show ?thesis
    using parse(2) by (simp add: vhost_line_def parse(1))
qed

lemma plain_keys:
  "plain_key ''Listen''" "plain_key ''nThreads''" "plain_key ''nSelectLoops''" "plain_key ''Timeout''"
  "plain_key ''LogFile''" "plain_key ''TLSCertFile''" "plain_key ''TLSKeyFile''" "plain_key ''TLSPort''"
  "plain_key ''DocumentRoot''" "plain_key ''ServerName''"
  by (simp_all add: plain_key_def default_ws_def)

lemma plain_value_dec_nat: "plain_value (dec_nat n)"
proof -
  have no: "c \<notin> set default_ws" if "is_digit c" for c
    using that by (auto simp: is_digit_def default_ws_def)
  have "hd (dec_nat n) \<in> set (dec_nat n)" "last (dec_nat n) \<in> set (dec_nat n)" by simp_all
  then have "trimmed default_ws (dec_nat n)"
    unfolding trimmed_def by (blast dest: dec_nat_digits no)
  then show ?thesis
    by (auto simp: plain_value_def dest: dec_nat_digits simp: is_digit_def)
qed

lemma parse_positive_int_dec_nat:
  assumes "in_int_range n"
  shows "parse_positive_int (dec_nat (nat n)) = Some n"
proof -
  have "nat n < 2 ^ 31" using assms by (simp add: in_int_range_def nat_less_iff)
  from stoi_dec_nat [OF this] show ?thesis
    using assms by (simp add: parse_positive_int_def in_int_range_def)
qed

lemma number_line_step:
  assumes "plain_key k"
  shows "config_line (number_line k n) (False, c)
    = map_sum id (\<lambda>c. (False, c)) (global_line k (dec_nat (nat n)) c)"
  using assms plain_value_dec_nat by (simp add: number_line_def config_line_key)

lemmas line_steps = number_line_step config_line_key(1) plain_keys global_line_def with_positive_def
  parse_positive_int_dec_nat

lemma render_vhost_step:
  assumes "plain_value (vh_document_root vh)" "plain_value (vh_server_name vh)"
  shows "config_lines (render_vhost vh @ ls) (False, c)
    = config_lines ls (False, c\<lparr>cf_virtual_hosts := cf_virtual_hosts c @ [vh]\<rparr>)"
proof -
  have open_line: "strip_comment ''<VirtualHost *>'' = ''<VirtualHost *>''"
    and close_line: "strip_comment ''</VirtualHost>'' = ''</VirtualHost>''" by code_simp+
  have o: "config_line ''<VirtualHost *>'' (False, c)
      = Inr (True, c\<lparr>cf_virtual_hosts := cf_virtual_hosts c @ [empty_vhost]\<rparr>)"
    by (simp add: config_line_def open_line find_sub_0 Let_def)
  have cl: "config_line ''</VirtualHost>'' (True, d) = Inr (False, d)" for d
    by (simp add: config_line_def close_line vhost_line_def find_sub_0 Let_def)
  show ?thesis
    using assms
    by (cases vh)
      (simp add: render_vhost_def o cl config_line_key(2) vhost_line_key plain_keys update_last_def empty_vhost_def)
qed

lemma render_vhosts_step:
  "list_all (\<lambda>vh. plain_value (vh_document_root vh) \<and> plain_value (vh_server_name vh)) vhs \<Longrightarrow>
   config_lines (concat (map render_vhost vhs)) (False, c)
     = Inr (False, c\<lparr>cf_virtual_hosts := cf_virtual_hosts c @ vhs\<rparr>)"
  by (induction vhs arbitrary: c) (auto simp: render_vhost_step)

lemma key_line_no_LF: "plain_key k \<Longrightarrow> plain_value v \<Longrightarrow> LF \<notin> set (key_line k v)"
  by (auto simp: key_line_def plain_key_def plain_value_def default_ws_def)

lemma number_line_no_LF: "plain_key k \<Longrightarrow> LF \<notin> set (number_line k n)"
  by (simp add: number_line_def key_line_no_LF plain_value_dec_nat)

lemma render_config_no_LF: "plain_config c \<Longrightarrow> list_all (\<lambda>l. LF \<notin> set l) (render_config c)"
  by (auto simp: render_config_def render_workers_def render_vhost_def plain_config_def list_all_iff Let_def
      key_line_no_LF number_line_no_LF plain_keys split: mode.splits)

text \<open>
  C33: round trip of configuration files. Every usable configuration whose strings fit the line
  format can be written down so that \<open>load_config\<close> reads back exactly it: ports, worker counts and
  mode, timeout, log and TLS files, and every virtual host in order.
\<close>

theorem load_config_roundtrip:
  assumes "plain_config c"
  shows "load_config (Some (unlines (render_config c))) default_config = (True, c)"
proof -
  have lines: "getlines LF (unlines (render_config c)) = render_config c"
    using getlines_concat [OF render_config_no_LF [OF assms], of "[]"] by (simp add: unlines_def)
  let ?c0 = "default_config\<lparr>cf_listen_port := cf_listen_port c\<rparr>"
  let ?c1 = "?c0\<lparr>cf_mode := cf_mode c, cf_n_select_loops := cf_n_select_loops c, cf_n_threads := cf_n_threads c\<rparr>"
  note ok = assms [unfolded plain_config_def config_ok_def]
  have workers: "config_lines (render_workers c @ ls) (False, ?c0) = config_lines ls (False, ?c1)" for ls
    using ok by (cases "cf_mode c"; cases "cf_n_select_loops c = 0")
      (simp_all add: render_workers_def Let_def line_steps default_config_def in_int_range_def [of 0])
  have "config_lines (render_config c) (False, default_config) = Inr (False, c)"
    using ok by (simp add: render_config_def line_steps workers render_vhosts_step)
      (simp add: default_config_def)
  then show ?thesis by (simp add: load_config_def lines)
qed

theorem load_config_roundtrip_witness:
  "load_config (Some (unlines (render_config (default_config\<lparr>cf_virtual_hosts :=
       [\<lparr>vh_document_root = ''/srv'', vh_server_name = ''a''\<rparr>]\<rparr>)))) default_config
   = (True, default_config\<lparr>cf_virtual_hosts := [\<lparr>vh_document_root = ''/srv'', vh_server_name = ''a''\<rparr>]\<rparr>)"
  by (rule load_config_roundtrip) code_simp

section \<open>Document roots are absolute\<close>

text \<open>
  After \<open>main\<close> has resolved the document roots, every virtual host has an absolute root or an
  empty one (a virtual host without a DocumentRoot line keeps the empty string, which no check
  rejects).
\<close>

theorem document_roots_absolute:
  assumes "is_absolute base" "\<And>p r. realpath p = Some r \<Longrightarrow> is_absolute r"
    and "vh \<in> set (cf_virtual_hosts (resolve_document_roots realpath (Some base) cfg))"
  shows "vh_document_root vh = [] \<or> is_absolute (vh_document_root vh)"
proof -
  from assms(3) obtain v where "vh = resolve_document_root realpath base v"
    by (auto simp: resolve_document_roots_def)
  with assms(1,2) show ?thesis
    by (auto simp: resolve_document_root_def is_absolute_def Let_def split: option.split)
qed

theorem document_roots_absolute_witness:
  "is_absolute (vh_document_root (hd (cf_virtual_hosts (resolve_document_roots (\<lambda>p. None) (Some ''/home'')
     (default_config\<lparr>cf_virtual_hosts := [\<lparr>vh_document_root = ''www'', vh_server_name = ''a''\<rparr>]\<rparr>)))))"
  using document_roots_absolute [of "''/home''" "\<lambda>p. None"
      "resolve_document_root (\<lambda>p. None) ''/home'' \<lparr>vh_document_root = ''www'', vh_server_name = ''a''\<rparr>"
      "default_config\<lparr>cf_virtual_hosts := [\<lparr>vh_document_root = ''www'', vh_server_name = ''a''\<rparr>]\<rparr>"]
  by (simp add: is_absolute_def resolve_document_roots_def resolve_document_root_def)

end
