(* ===== verification/Vhost_Resolver.thy ===== *)
theory Vhost_Resolver
  imports Config_File Http_Message
begin

text \<open>
  \<open>http/routing/vhost_resolver.cpp\<close>: the choice of the virtual host from the Host header, and the
  translation of a request path to a file system path below the host's document root. The
  reference for the second is a walk over path segments: start at the segments of the root, follow
  the segments of the URI, and accept when the root is still a prefix of where the walk ends.
\<close>

section \<open>Definitions\<close>

definition strip_port :: "string \<Rightarrow> string" where
  "strip_port host = (case find_char CHR '':'' host of None \<Rightarrow> host | Some colon \<Rightarrow> substr host 0 colon)"

definition resolve_vhost :: "config \<Rightarrow> http_request \<Rightarrow> virtual_host option" where
  "resolve_vhost cfg request =
     (let host = strip_port (get_header (rq_headers request) ''host'');
          by_name = (if host \<noteq> []
                     then find (\<lambda>vh. to_lower (vh_server_name vh) = to_lower host) (cf_virtual_hosts cfg)
                     else None)
      in case by_name of
           Some vh \<Rightarrow> Some vh
         | None \<Rightarrow> (case cf_virtual_hosts cfg of [] \<Rightarrow> None | vh # _ \<Rightarrow> Some vh))"

definition resolve_path :: "virtual_host \<Rightarrow> string \<Rightarrow> string \<times> bool" where
  "resolve_path vh uri =
     (let root = vh_document_root vh;
          combined = (if uri = [] \<or> uri = ''/'' then root
                      else trim_trailing_slash root @ ''/'' @ trim_leading_slash uri);
          canonical_path = normalize_path combined
      in if \<not> path_under_root canonical_path root then ([], False) else (canonical_path, True))"

section \<open>Choosing the virtual host\<close>

definition host_matches :: "string \<Rightarrow> virtual_host \<Rightarrow> bool" where
  "host_matches host vh \<longleftrightarrow> host \<noteq> [] \<and> to_lower (vh_server_name vh) = to_lower host"

lemma strip_port_plain [simp]: "CHR '':'' \<notin> set h \<Longrightarrow> strip_port h = h"
  by (simp add: strip_port_def)

lemma strip_port_port [simp]: "CHR '':'' \<notin> set h \<Longrightarrow> strip_port (h @ CHR '':'' # p) = h"
  by (simp add: strip_port_def find_char_prefix substr_def)

lemma find_split:
  "find P xs = Some x \<Longrightarrow> \<exists>pre post. xs = pre @ x # post \<and> P x \<and> list_all (\<lambda>y. \<not> P y) pre"
proof (induction xs)
  case (Cons y ys)
  show ?case
  proof (cases "P y")
    case True
    with Cons.prems have "y # ys = [] @ x # ys \<and> P x \<and> list_all (\<lambda>y. \<not> P y) []" by simp
    then show ?thesis by blast
  next
    case False
    with Cons obtain pre post where "ys = pre @ x # post" "P x" "list_all (\<lambda>y. \<not> P y) pre" by auto
    with False have "y # ys = (y # pre) @ x # post \<and> P x \<and> list_all (\<lambda>y. \<not> P y) (y # pre)" by simp
    then show ?thesis by blast
  qed
qed simp

text \<open>
  A request is answered by the first virtual host whose ServerName equals the Host header up
  to its first colon, letter case aside; by the first configured virtual host when the header is
  missing or names none; and by none only when no virtual host is configured.
\<close>

theorem resolve_vhost_choice:
  "let host = strip_port (get_header (rq_headers request) ''host''); vhs = cf_virtual_hosts cfg
   in case resolve_vhost cfg request of
        None \<Rightarrow> vhs = []
      | Some vh \<Rightarrow>
          (\<exists>pre post. vhs = pre @ vh # post \<and> host_matches host vh \<and> list_all (\<lambda>v. \<not> host_matches host v) pre)
          \<or> (list_all (\<lambda>v. \<not> host_matches host v) vhs \<and> vhs \<noteq> [] \<and> vh = hd vhs)"
proof -
  define host where "host = strip_port (get_header (rq_headers request) ''host'')"
  let ?vhs = "cf_virtual_hosts cfg"
  have by_name: "(if host \<noteq> [] then find (\<lambda>vh. to_lower (vh_server_name vh) = to_lower host) ?vhs else None)
      = find (host_matches host) ?vhs"
  proof (cases "host = []")
    case True
    then have "find (host_matches host) ?vhs = None" by (simp add: find_None_iff host_matches_def)
    with True show ?thesis by simp
  next
    case False
    then have "host_matches host = (\<lambda>vh. to_lower (vh_server_name vh) = to_lower host)"
      by (simp add: host_matches_def fun_eq_iff)
    with False show ?thesis by simp
  qed
  have r: "resolve_vhost cfg request = (case find (host_matches host) ?vhs of
      Some vh \<Rightarrow> Some vh | None \<Rightarrow> (case ?vhs of [] \<Rightarrow> None | vh # _ \<Rightarrow> Some vh))"
    unfolding resolve_vhost_def Let_def host_def [symmetric] by_name ..
  show ?thesis
  proof (cases "find (host_matches host) ?vhs")
    case None
    then have "list_all (\<lambda>v. \<not> host_matches host v) ?vhs" by (simp add: find_None_iff list_all_iff)
    with None show ?thesis unfolding Let_def host_def [symmetric] r by (cases ?vhs) simp_all
  next
    case (Some vh)
    with find_split [OF Some] show ?thesis unfolding Let_def host_def [symmetric] r by simp
  qed
qed

section \<open>Walking below the document root\<close>

lemma path_parts_trim_trailing [simp]: "path_parts (trim_trailing_slash r) = path_parts r"
proof (cases "r \<noteq> [] \<and> last r = CHR ''/''")
  case True
  then have r: "r = butlast r @ CHR ''/'' # []" by (metis append_butlast_last_id)
  have "path_parts r = path_parts (butlast r)" by (subst r, subst path_parts_append_slash) simp
  with True show ?thesis by (simp add: trim_trailing_slash_def butlast_conv_take)
next
  case False
  then show ?thesis by (auto simp: trim_trailing_slash_def)
qed

lemma resolve_trim_leading [simp]:
  "resolve_segments ps (segments (trim_leading_slash u)) = resolve_segments ps (segments u)"
  by (cases u) (auto simp: trim_leading_slash_def)

definition walk :: "string \<Rightarrow> string \<Rightarrow> string list" where
  "walk root uri = resolve_segments (path_parts root) (segments uri)"

lemma plain_walk [simp]: "plain (walk root uri)"
  by (simp add: walk_def resolve_segments_plain split_slash_no_slash)

lemma walk_empty [simp]: "walk root [] = path_parts root" "walk root ''/'' = path_parts root"
  by (simp_all add: walk_def)

lemma is_absolute_combined: "is_absolute root \<Longrightarrow> is_absolute (trim_trailing_slash root @ CHR ''/'' # u)"
  by (cases root) (auto simp: is_absolute_def trim_trailing_slash_def hd_append)

lemma resolve_path_eq:
  assumes "is_absolute (vh_document_root vh)"
  shows "resolve_path vh uri =
    (let root = vh_document_root vh
     in if prefix (path_parts root) (walk root uri) then (abs_path (walk root uri), True) else ([], False))"
proof -
  let ?root = "vh_document_root vh"
  define combined where "combined = (if uri = [] \<or> uri = ''/'' then ?root
      else trim_trailing_slash ?root @ ''/'' @ trim_leading_slash uri)"
  have absolute: "is_absolute combined"
    using assms is_absolute_combined by (simp add: combined_def)
  have parts: "path_parts combined = walk ?root uri"
    by (auto simp: combined_def path_parts_append_slash walk_def)
  have canonical: "normalize_path combined = abs_path (walk ?root uri)"
    using absolute by (simp add: normalize_path_absolute parts)
  have "path_under_root (abs_path (walk ?root uri)) ?root \<longleftrightarrow> prefix (path_parts ?root) (walk ?root uri)"
    using assms path_under_root_segments [of "abs_path (walk ?root uri)" ?root] by simp
  with canonical show ?thesis by (simp add: resolve_path_def combined_def [symmetric] Let_def)
qed

text \<open>
  C17: path traversal is impossible. With an absolute document root, a request path is translated
  to the file system path reached by walking its segments from the root, and is accepted exactly
  when that walk ends below the root; an accepted path is absolute and canonical, so no \<open>..\<close> is
  left for the operating system to follow, and its segments extend the segments of the root.
\<close>

theorem resolve_path_confined:
  assumes "is_absolute (vh_document_root vh)"
  shows "case resolve_path vh uri of (p, accepted) \<Rightarrow>
      let root = path_parts (vh_document_root vh); target = resolve_segments root (segments uri)
      in (accepted \<longleftrightarrow> prefix root target)
         \<and> (if accepted then p = abs_path target \<and> plain target \<and> normalize_path p = p
                 \<and> prefix root (path_parts p)
            else p = [])"
  using assms by (auto simp: resolve_path_eq Let_def walk_def [symmetric] normalize_path_absolute)

theorem resolve_path_confined_witness:
  "resolve_path \<lparr>vh_document_root = ''/srv/www'', vh_server_name = []\<rparr> ''/../etc/passwd'' = ([], False)
   \<and> resolve_path \<lparr>vh_document_root = ''/srv/www'', vh_server_name = []\<rparr> ''/a/../b'' = (''/srv/www/b'', True)"
  using resolve_path_confined [of "\<lparr>vh_document_root = ''/srv/www'', vh_server_name = []\<rparr>" "''/../etc/passwd''"]
    resolve_path_confined [of "\<lparr>vh_document_root = ''/srv/www'', vh_server_name = []\<rparr>" "''/a/../b''"]
  by (simp add: is_absolute_def path_parts_def push_segment_def abs_path_def Let_def split: prod.splits)

text \<open>
  Every file below the root stays reachable: a path of plain segments (none empty, \<open>.\<close> or
  \<open>..\<close>) is accepted and translated to the root followed by those segments.
\<close>

theorem resolve_path_complete:
  assumes "is_absolute (vh_document_root vh)" "plain ss" "ss \<noteq> []"
  shows "resolve_path vh (abs_path ss) = (abs_path (path_parts (vh_document_root vh) @ ss), True)"
proof -
  have "walk (vh_document_root vh) (abs_path ss) = path_parts (vh_document_root vh) @ ss"
    using assms by (simp add: walk_def abs_path_def segments_join_parts resolve_plain)
  with assms(1) show ?thesis by (simp add: resolve_path_eq)
qed

theorem resolve_path_complete_witness:
  "resolve_path \<lparr>vh_document_root = ''/srv'', vh_server_name = []\<rparr> ''/a/b.html'' = (''/srv/a/b.html'', True)"
  using resolve_path_complete [of "\<lparr>vh_document_root = ''/srv'', vh_server_name = []\<rparr>" "[''a'', ''b.html'']"]
  by (simp add: is_absolute_def path_parts_def push_segment_def abs_path_def plain_segment_def)

text \<open>
  A virtual host without a DocumentRoot confines nothing: the empty root, which \<open>load_config\<close>
  accepts, makes \<open>resolve_path\<close> accept every request path and map it to the same path of the whole
  file system.
\<close>

theorem empty_root_serves_everything:
  "resolve_path (empty_vhost\<lparr>vh_server_name := name\<rparr>) uri = (abs_path (path_parts uri), True)"
proof -
  define combined where "combined = (if uri = [] \<or> uri = ''/'' then [] else ''/'' @ trim_leading_slash uri)"
  have parts: "path_parts combined = path_parts uri"
    using resolve_trim_leading [of "[]" uri]
    by (auto simp: combined_def path_parts_def)
  have "normalize_path combined = abs_path (path_parts uri)"
    by (simp add: normalize_path_eq parts) (auto simp: combined_def is_absolute_def path_parts_def)
  moreover have "path_under_root (abs_path ps) []" if "plain ps" for ps
    using that by (auto simp: path_under_root_def normalize_path_eq is_absolute_def abs_path_def Let_def)
  moreover have "resolve_path (empty_vhost\<lparr>vh_server_name := name\<rparr>) uri =
      (if path_under_root (normalize_path combined) [] then (normalize_path combined, True) else ([], False))"
    by (simp add: resolve_path_def empty_vhost_def combined_def trim_trailing_slash_def Let_def)
  ultimately show ?thesis by simp
qed

end
