(* ===== verification/Kernel.thy ===== *)
theory Kernel
  imports Httpd_Prelude
begin

unbundle bit_operations_syntax

text \<open>
  The operating system as the handlers see it. What a call returns is decided by the environment
  (\<open>os\<close>: other processes, clients, the disk), which may answer differently at every call: its
  answers are functions of the number of calls made before. What a call does to the process is in
  \<open>kernel\<close>: the open descriptors with what they refer to, whether a descriptor was closed that was
  not open, the bytes written to and read from each descriptor, the children not yet waited for, the programs started, the signals
  sent, the log. \<open>os_localtime\<close> is the local time zone (year, month, day, hour, minute), \<open>os_garbage\<close> what an
  uninitialised \<open>int\<close> happens to hold, \<open>os_errno\<close> what \<open>errno\<close> holds after a call that did not fail. New descriptors get the lowest free number. Paths go through \<open>c_str\<close>: the kernel
  sees a \<open>std::string\<close> only up to its first NUL byte.
\<close>

section \<open>Environment and state\<close>

record stat_buf =
  st_mode :: "32 word"
  st_ino :: "64 word"
  st_size :: int
  st_mtime :: int

definition S_ISREG :: "stat_buf \<Rightarrow> bool" where
  "S_ISREG st \<longleftrightarrow> st_mode st AND 0xF000 = 0x8000"

definition S_ISDIR :: "stat_buf \<Rightarrow> bool" where
  "S_ISDIR st \<longleftrightarrow> st_mode st AND 0xF000 = 0x4000"

definition any_exec_bit :: "stat_buf \<Rightarrow> bool" where
  "any_exec_bit st \<longleftrightarrow> st_mode st AND 0x49 \<noteq> 0"

datatype errno = EINTR | EAGAIN | EPIPE | EOTHER

datatype io_write = Wrote nat | Write_fail errno
datatype io_read = Got string | Read_fail errno
datatype select_result = Ready | Timed_out | Select_fail errno
datatype wait_result = Wait_fail | Exited int | Signalled int
datatype poll_event = Poll_event (ev_fd: int) (ev_readable: bool) (ev_writable: bool)

text \<open>What a descriptor refers to; the ends of a pipe carry the time of its creation.\<close>

datatype file_desc = Regular string | Pipe_read nat | Pipe_write nat | Socket

record os =
  os_time :: "nat \<Rightarrow> int"
  os_localtime :: "int \<Rightarrow> int \<times> nat \<times> nat \<times> nat \<times> nat"
  os_stat :: "nat \<Rightarrow> string \<Rightarrow> stat_buf option"
  os_open :: "nat \<Rightarrow> string \<Rightarrow> bool"
  os_content :: "nat \<Rightarrow> string \<Rightarrow> string option"
  os_listdir :: "nat \<Rightarrow> string \<Rightarrow> string list option"
  os_pipe :: "nat \<Rightarrow> bool"
  os_fork :: "nat \<Rightarrow> int"
  os_write :: "nat \<Rightarrow> int \<Rightarrow> io_write"
  os_read :: "nat \<Rightarrow> int \<Rightarrow> io_read"
  os_select :: "nat \<Rightarrow> int \<Rightarrow> select_result"
  os_sendfile :: "nat \<Rightarrow> int \<Rightarrow> io_write"
  os_wait :: "nat \<Rightarrow> int \<Rightarrow> wait_result"
  os_accept :: "nat \<Rightarrow> int \<Rightarrow> string option"
  os_poll :: "nat \<Rightarrow> poll_event list"
  os_errno :: "nat \<Rightarrow> errno"
  os_garbage :: int

record kernel =
  k_tick :: nat
  k_open :: "(int \<times> file_desc) list"
  k_bad_close :: bool
  k_sent :: "(int \<times> string) list"
  k_received :: "(int \<times> string) list"
  k_sigpipe :: bool
  k_children :: "int list"
  k_spawned :: "(string \<times> string list) list"
  k_killed :: "int list"
  k_log :: "string list"

abbreviation k_fds :: "kernel \<Rightarrow> int list" where
  "k_fds k \<equiv> map fst (k_open k)"

section \<open>Calls\<close>

definition c_str :: "string \<Rightarrow> string" where
  "c_str s = takeWhile (\<lambda>c. c \<noteq> CHR 0x00) s"

definition tick :: "kernel \<Rightarrow> kernel" where
  "tick k = k\<lparr>k_tick := Suc (k_tick k)\<rparr>"

definition sys_time :: "os \<Rightarrow> kernel \<Rightarrow> int \<times> kernel" where
  "sys_time os k = (os_time os (k_tick k), tick k)"

definition sys_stat :: "os \<Rightarrow> string \<Rightarrow> kernel \<Rightarrow> stat_buf option \<times> kernel" where
  "sys_stat os path k = (os_stat os (k_tick k) (c_str path), tick k)"

text \<open>Reading a whole file through a stream, and a whole directory; neither leaves a descriptor open.\<close>

definition sys_slurp :: "os \<Rightarrow> string \<Rightarrow> kernel \<Rightarrow> string option \<times> kernel" where
  "sys_slurp os path k = (os_content os (k_tick k) (c_str path), tick k)"

definition sys_listdir :: "os \<Rightarrow> string \<Rightarrow> kernel \<Rightarrow> string list option \<times> kernel" where
  "sys_listdir os path k = (os_listdir os (k_tick k) (c_str path), tick k)"

definition fresh_fd :: "int list \<Rightarrow> int" where
  "fresh_fd fds = hd (filter (\<lambda>i. i \<notin> set fds) (map int [0..<Suc (length fds)]))"

definition alloc_fd :: "file_desc \<Rightarrow> kernel \<Rightarrow> int \<times> kernel" where
  "alloc_fd d k = (let fd = fresh_fd (k_fds k) in (fd, k\<lparr>k_open := (fd, d) # k_open k\<rparr>))"

definition sys_open :: "os \<Rightarrow> string \<Rightarrow> kernel \<Rightarrow> int \<times> kernel" where
  "sys_open os path k =
     (if os_open os (k_tick k) (c_str path) then alloc_fd (Regular (c_str path)) (tick k) else (-1, tick k))"

definition sys_close :: "int \<Rightarrow> kernel \<Rightarrow> kernel" where
  "sys_close fd k = tick (k\<lparr>k_open := filter (\<lambda>e. fst e \<noteq> fd) (k_open k),
     k_bad_close := (k_bad_close k \<or> fd \<notin> set (k_fds k))\<rparr>)"

definition sys_pipe :: "os \<Rightarrow> kernel \<Rightarrow> (int \<times> int) option \<times> kernel" where
  "sys_pipe os k =
     (if os_pipe os (k_tick k)
      then (let (r, k1) = alloc_fd (Pipe_read (k_tick k)) (tick k); (w, k2) = alloc_fd (Pipe_write (k_tick k)) k1 in (Some (r, w), k2))
      else (None, tick k))"

text \<open>\<open>program\<close> is what the child goes on to run: the path it executes and its environment.\<close>

definition sys_fork :: "os \<Rightarrow> string \<times> string list \<Rightarrow> kernel \<Rightarrow> int \<times> kernel" where
  "sys_fork os program k =
     (let pid = os_fork os (k_tick k); k1 = tick k
      in (pid, if 0 < pid
               then k1\<lparr>k_children := pid # k_children k1, k_spawned := program # k_spawned k1\<rparr> else k1))"

definition sys_kill :: "int \<Rightarrow> kernel \<Rightarrow> kernel" where
  "sys_kill pid k = tick (k\<lparr>k_killed := pid # k_killed k\<rparr>)"

definition sys_wait :: "os \<Rightarrow> int \<Rightarrow> kernel \<Rightarrow> wait_result \<times> kernel" where
  "sys_wait os pid k =
     (let r = os_wait os (k_tick k) pid; k1 = tick k
      in (r, if r = Wait_fail then k1 else k1\<lparr>k_children := remove1 pid (k_children k1)\<rparr>))"

text \<open>\<open>dup2\<close>: the second descriptor is closed if it was open and then refers to what the first does.\<close>

definition sys_dup2 :: "int \<Rightarrow> int \<Rightarrow> kernel \<Rightarrow> bool \<times> kernel" where
  "sys_dup2 fd fd' k =
     (case map_of (k_open k) fd of
        None \<Rightarrow> (False, tick k)
      | Some d \<Rightarrow> (True, tick (k\<lparr>k_open := (fd', d) # filter (\<lambda>e. fst e \<noteq> fd') (k_open k)\<rparr>)))"

text \<open>
  A transfer never moves more than was asked for. Writing to a peer that is gone fails with
  \<open>EPIPE\<close> and raises SIGPIPE, which nothing in the program blocks or handles: \<open>k_sigpipe\<close> says that
  the process has been sent it.
\<close>

definition sys_write :: "os \<Rightarrow> int \<Rightarrow> string \<Rightarrow> kernel \<Rightarrow> io_write \<times> kernel" where
  "sys_write os fd data k =
     (case os_write os (k_tick k) fd of
        Wrote n \<Rightarrow> (Wrote (min n (length data)), tick (k\<lparr>k_sent := k_sent k @ [(fd, take n data)]\<rparr>))
      | Write_fail e \<Rightarrow> (Write_fail e, tick (k\<lparr>k_sigpipe := (k_sigpipe k \<or> e = EPIPE)\<rparr>)))"

definition sys_read :: "os \<Rightarrow> int \<Rightarrow> nat \<Rightarrow> kernel \<Rightarrow> io_read \<times> kernel" where
  "sys_read os fd count k =
     (case os_read os (k_tick k) fd of
        Got s \<Rightarrow> (Got (take count s), tick (k\<lparr>k_received := k_received k @ [(fd, take count s)]\<rparr>))
      | Read_fail e \<Rightarrow> (Read_fail e, tick k))"

definition sys_select :: "os \<Rightarrow> int \<Rightarrow> kernel \<Rightarrow> select_result \<times> kernel" where
  "sys_select os fd k = (os_select os (k_tick k) fd, tick k)"

text \<open>
  \<open>sendfile\<close> copies from the file behind \<open>in_fd\<close>, at \<open>offset\<close>, at most \<open>count\<close> bytes and none past
  the end of the file.
\<close>

definition file_bytes :: "os \<Rightarrow> int \<Rightarrow> kernel \<Rightarrow> string" where
  "file_bytes os fd k =
     (case map_of (k_open k) fd of
        Some (Regular path) \<Rightarrow> (case os_content os (k_tick k) path of Some s \<Rightarrow> s | None \<Rightarrow> [])
      | _ \<Rightarrow> [])"

definition sys_sendfile :: "os \<Rightarrow> int \<Rightarrow> int \<Rightarrow> int \<Rightarrow> int \<Rightarrow> kernel \<Rightarrow> io_write \<times> kernel" where
  "sys_sendfile os out_fd in_fd offset count k =
     (case os_sendfile os (k_tick k) out_fd of
        Wrote n \<Rightarrow>
          (let data = take (min n (nat count)) (drop (nat offset) (file_bytes os in_fd k))
           in (Wrote (length data), tick (k\<lparr>k_sent := k_sent k @ [(out_fd, data)]\<rparr>)))
      | Write_fail e \<Rightarrow> (Write_fail e, tick (k\<lparr>k_sigpipe := (k_sigpipe k \<or> e = EPIPE)\<rparr>)))"

definition write_log :: "string \<Rightarrow> kernel \<Rightarrow> kernel" where
  "write_log entry k = k\<lparr>k_log := k_log k @ [entry]\<rparr>"

text \<open>\<open>accept\<close> delivers a connected socket and the address of the peer.\<close>

definition sys_accept :: "os \<Rightarrow> int \<Rightarrow> kernel \<Rightarrow> (int \<times> string) option \<times> kernel" where
  "sys_accept os listen_fd k =
     (case os_accept os (k_tick k) listen_fd of
        None \<Rightarrow> (None, tick k)
      | Some addr \<Rightarrow> let (fd, k1) = alloc_fd Socket (tick k) in (Some (fd, addr), k1))"

definition sys_poll :: "os \<Rightarrow> kernel \<Rightarrow> poll_event list \<times> kernel" where
  "sys_poll os k = (os_poll os (k_tick k), tick k)"

text \<open>The bytes a peer has been sent on a descriptor, and those read from it.\<close>

definition sent_to :: "int \<Rightarrow> kernel \<Rightarrow> string" where
  "sent_to fd k = concat (map snd (filter (\<lambda>e. fst e = fd) (k_sent k)))"

definition received_from :: "int \<Rightarrow> kernel \<Rightarrow> string" where
  "received_from fd k = concat (map snd (filter (\<lambda>e. fst e = fd) (k_received k)))"

definition kernel_ok :: "kernel \<Rightarrow> bool" where
  "kernel_ok k \<longleftrightarrow> distinct (k_fds k) \<and> (\<forall>fd \<in> set (k_fds k). 0 \<le> fd) \<and> \<not> k_bad_close k"

text \<open>An environment for concrete runs: nothing exists, nothing fails, nothing is transferred.\<close>

definition idle_os :: os where
  "idle_os = \<lparr>os_time = \<lambda>_. 0, os_localtime = \<lambda>_. (1970, 1, 1, 0, 0),
     os_stat = \<lambda>_ _. None, os_open = \<lambda>_ _. True,
     os_content = \<lambda>_ _. None, os_listdir = \<lambda>_ _. None, os_pipe = \<lambda>_. True, os_fork = \<lambda>_. 1,
     os_write = \<lambda>_ _. Wrote 65536, os_read = \<lambda>_ _. Got [], os_select = \<lambda>_ _. Ready,
     os_sendfile = \<lambda>_ _. Wrote 65536, os_wait = \<lambda>_ _. Exited 0,
     os_accept = \<lambda>_ _. None, os_poll = \<lambda>_. [], os_errno = \<lambda>_. EOTHER, os_garbage = 0\<rparr>"

definition init_kernel :: kernel where
  "init_kernel = \<lparr>k_tick = 0, k_open = [(0, Regular ''stdin''), (1, Regular ''stdout''), (2, Regular ''stderr'')],
     k_bad_close = False, k_sent = [], k_received = [], k_sigpipe = False, k_children = [], k_spawned = [], k_killed = [], k_log = []\<rparr>"

lemma init_kernel_ok: "kernel_ok init_kernel"
  by (simp add: kernel_ok_def init_kernel_def)

section \<open>Descriptors\<close>

lemma fresh_fd: "fresh_fd fds \<notin> set fds" "0 \<le> fresh_fd fds"
proof -
  let ?c = "filter (\<lambda>i. i \<notin> set fds) (map int [0..<Suc (length fds)])"
  have "?c \<noteq> []"
  proof
    assume "?c = []"
    then have "set (map int [0..<Suc (length fds)]) \<subseteq> set fds"
      by (auto simp: filter_empty_conv simp del: upt_Suc)
    then have "card (set (map int [0..<Suc (length fds)])) \<le> length fds"
      by (meson List.finite_set card_length card_mono le_trans)
    moreover have "card (set (map int [0..<Suc (length fds)])) = Suc (length fds)"
      by (subst distinct_card) (simp_all add: distinct_map del: upt_Suc)
    ultimately show False by simp
  qed
  then have "fresh_fd fds \<in> set ?c" unfolding fresh_fd_def by (rule hd_in_set)
  then show "fresh_fd fds \<notin> set fds" "0 \<le> fresh_fd fds" by (auto simp del: upt_Suc)
qed

text \<open>
  \<open>leaves k k' fds\<close>: a computation that started in \<open>k\<close> and ended in \<open>k'\<close> has closed exactly what it
  opened, except for the descriptors \<open>fds\<close>, which it hands to its caller.
\<close>

definition leaves :: "kernel \<Rightarrow> kernel \<Rightarrow> int list \<Rightarrow> bool" where
  "leaves k k' fds \<longleftrightarrow> kernel_ok k' \<and> distinct fds \<and> set fds \<inter> set (k_fds k) = {}
     \<and> set (k_fds k') = set (k_fds k) \<union> set fds"

lemma leaves_refl [simp]: "kernel_ok k \<Longrightarrow> leaves k k []"
  by (simp add: leaves_def)

lemma leaves_ok: "leaves k k' fds \<Longrightarrow> kernel_ok k'"
  by (simp add: leaves_def)

lemma leaves_trans:
  "leaves k k1 as \<Longrightarrow> leaves k1 k2 bs \<Longrightarrow> leaves k k2 (as @ bs)"
  by (auto simp: leaves_def)

lemma leaves_same_fds: "k_open k1 = k_open k \<Longrightarrow> k_bad_close k1 = k_bad_close k \<Longrightarrow> leaves k1 k2 fds = leaves k k2 fds"
  by (simp add: leaves_def)

lemma leaves_same_fds_right:
  "k_open k2 = k_open k1 \<Longrightarrow> k_bad_close k2 = k_bad_close k1 \<Longrightarrow> leaves k k2 fds = leaves k k1 fds"
  by (simp add: leaves_def kernel_ok_def)

lemma alloc_fd_leaves: "kernel_ok k \<Longrightarrow> alloc_fd d k = (fd, k') \<Longrightarrow> 0 \<le> fd \<and> leaves k k' [fd]"
  using fresh_fd [of "k_fds k"]
  by (auto simp: alloc_fd_def leaves_def kernel_ok_def Let_def simp del: set_map)

lemma sys_close_leaves:
  assumes "leaves k k1 fds" "fd \<in> set fds"
  shows "leaves k (sys_close fd k1) (remove1 fd fds)"
proof -
  have fds: "k_fds (sys_close fd k1) = filter (\<lambda>x. x \<noteq> fd) (k_fds k1)"
    by (simp add: sys_close_def tick_def filter_map o_def)
  have "k_bad_close (sys_close fd k1) \<longleftrightarrow> k_bad_close k1 \<or> fd \<notin> set (k_fds k1)"
    by (simp add: sys_close_def tick_def)
  then show ?thesis
    using assms unfolding leaves_def kernel_ok_def fds by (auto simp del: set_map)
qed

lemma tick_simps [simp]:
  "k_open (tick k) = k_open k" "k_bad_close (tick k) = k_bad_close k" "k_sent (tick k) = k_sent k"
  "k_tick (tick k) = Suc (k_tick k)" "k_children (tick k) = k_children k" "k_log (tick k) = k_log k"
  "k_spawned (tick k) = k_spawned k" "k_sigpipe (tick k) = k_sigpipe k" "k_killed (tick k) = k_killed k"
  "k_received (tick k) = k_received k"
  by (simp_all add: tick_def)

lemma kernel_ok_tick [simp]: "kernel_ok (tick k) = kernel_ok k"
  by (simp add: kernel_ok_def)

lemma leaves_tick [simp]: "leaves (tick k) k' fds = leaves k k' fds" "leaves k (tick k') fds = leaves k k' fds"
  by (simp_all add: leaves_def)

section \<open>The contract of a request handler\<close>

text \<open>
  A handler may end with an uncaught exception or not return at all (\<open>None\<close>). When it does answer,
  the only descriptors it has left open are those the answer owns. The client of a handler
  disposes of every answer; \<open>dispose\<close> closes what the answer owns. Running any number of requests
  one after the other then leaves the descriptors of the process as they were.
\<close>

locale fd_handler =
  fixes run :: "'q \<Rightarrow> kernel \<Rightarrow> ((cxx_exn + 'r) \<times> kernel) option"
    and owned :: "'r \<Rightarrow> int list"
  assumes run_leaves: "kernel_ok k \<Longrightarrow> run q k = Some (Inr r, k') \<Longrightarrow> leaves k k' (owned r)"

locale fd_client = fd_handler run owned
  for run :: "'q \<Rightarrow> kernel \<Rightarrow> ((cxx_exn + 'r) \<times> kernel) option"
    and owned :: "'r \<Rightarrow> int list" +
  fixes dispose :: "'r \<Rightarrow> kernel \<Rightarrow> kernel option"
  assumes dispose_closes: "leaves k0 k (owned r) \<Longrightarrow> dispose r k = Some k' \<Longrightarrow> leaves k0 k' []"
begin

lemma run_dispose:
  assumes "kernel_ok k" "run q k = Some (Inr r, k1)" "dispose r k1 = Some k2"
  shows "leaves k k2 []"
  using assms run_leaves dispose_closes by blast

fun serve :: "'q list \<Rightarrow> kernel \<Rightarrow> kernel option" where
  "serve [] k = Some k"
| "serve (q # qs) k =
     (case run q k of
        Some (Inr r, k1) \<Rightarrow> (case dispose r k1 of Some k2 \<Rightarrow> serve qs k2 | None \<Rightarrow> None)
      | _ \<Rightarrow> None)"

lemma serve_leaves: "kernel_ok k \<Longrightarrow> serve qs k = Some k' \<Longrightarrow> leaves k k' []"
proof (induction qs arbitrary: k)
  case (Cons q qs)
  from Cons.prems(2) obtain r k1 k2 where
    step: "run q k = Some (Inr r, k1)" "dispose r k1 = Some k2" "serve qs k2 = Some k'"
    by (auto split: option.splits prod.splits sum.splits)
  then have l: "leaves k k2 []" using Cons.prems(1) run_dispose by blast
  from leaves_trans [OF l Cons.IH [OF leaves_ok [OF l] step(3)]] show ?case by simp
qed simp

end

end
