(* ===== verification/Base64.thy ===== *)
theory Base64
  imports Handler_Utils
begin

text \<open>
  \<open>base64_char_value\<close> and \<open>decode_base64\<close> of \<open>http/core/request_handler_utils.cpp\<close>. The decoder
  shifts every sextet into an \<open>int\<close> that it never masks, so from the sixth character on the
  shift overflows; the model keeps the 32 bits of that variable and lets them wrap, as the
  compilers the Makefile names do. The lemmas show that the bits which fall off never reach the
  output, and that the decoder inverts the encoding of RFC 4648.
\<close>

section \<open>The decoder\<close>

definition base64_char_value :: "char \<Rightarrow> int" where
  "base64_char_value ch =
     (let c = (of_char ch :: int) in
      if 65 \<le> c \<and> c \<le> 90 then c - 65
      else if 97 \<le> c \<and> c \<le> 122 then c - 97 + 26
      else if 48 \<le> c \<and> c \<le> 57 then c - 48 + 52
      else if c = 43 then 62
      else if c = 47 then 63
      else - 1)"

text \<open>\<open>value\<close> is the C++ variable of that name; \<open>bits\<close> counts its pending low bits.\<close>

unbundle bit_operations_syntax

fun decode_loop :: "string \<Rightarrow> nat \<Rightarrow> 32 word \<Rightarrow> string \<Rightarrow> string" where
  "decode_loop [] bits val out = out"
| "decode_loop (c # cs) bits val out =
     (if is_space c \<or> c = CHR ''='' then decode_loop cs bits val out
      else
        let v = base64_char_value c
        in if v < 0 then []
           else
             let val' = push_bit 6 val OR word_of_int v; bits' = bits + 6
             in if 8 \<le> bits'
                then decode_loop cs (bits' - 8) val'
                       (out @ [char_of (uint (signed_drop_bit (bits' - 8) val' AND 0xff))])
                else decode_loop cs bits' val' out)"

definition decode_base64 :: "string \<Rightarrow> string" where
  "decode_base64 s = decode_loop s 0 0 []"

section \<open>The encoding of RFC 4648\<close>

definition base64_alphabet :: string where
  "base64_alphabet = ''ABCDEFGHIJKLMNOPQRSTUVWXYZabcdefghijklmnopqrstuvwxyz0123456789+/''"

definition enc_char :: "nat \<Rightarrow> char" where
  "enc_char v = base64_alphabet ! v"

fun base64_encode :: "string \<Rightarrow> string" where
  "base64_encode [] = []"
| "base64_encode [a] =
     (let x = of_char a in [enc_char (x div 4), enc_char (x mod 4 * 16), CHR ''='', CHR ''=''])"
| "base64_encode [a, b] =
     (let x = of_char a; y = of_char b
      in [enc_char (x div 4), enc_char (x mod 4 * 16 + y div 16), enc_char (y mod 16 * 4), CHR ''=''])"
| "base64_encode (a # b # c # rest) =
     (let x = of_char a; y = of_char b; z = of_char c
      in enc_char (x div 4) # enc_char (x mod 4 * 16 + y div 16)
         # enc_char (y mod 16 * 4 + z div 64) # enc_char (z mod 64) # base64_encode rest)"

lemma enc_char_value: "v < 64 \<Longrightarrow> base64_char_value (enc_char v) = int v
    \<and> \<not> is_space (enc_char v) \<and> enc_char v \<noteq> CHR ''=''"
proof -
  have "\<forall>v \<in> set [0..<64]. base64_char_value (enc_char v) = int v
    \<and> \<not> is_space (enc_char v) \<and> enc_char v \<noteq> CHR ''=''"
    by code_simp
  moreover assume "v < 64"
  ultimately show ?thesis by simp
qed

lemma uint_step:
  fixes val :: "32 word"
  assumes "v < 64"
  shows "uint (push_bit 6 val OR of_nat v) = (uint val * 64 + int v) mod 2 ^ 32"
proof -
  have low: "take_bit 6 (int v) = int v" using assms by (simp add: take_bit_eq_mod)
  have "\<not> bit (int v) n" if "6 \<le> n" for n
    using that by (subst low [symmetric]) (simp add: bit_take_bit_iff)
  then have "push_bit 6 val AND word_of_int (int v) = 0"
    by (intro bit_word_eqI) (auto simp: bit_simps not_le)
  then have "push_bit 6 val OR of_nat v = push_bit 6 val + of_nat v"
    by (intro disjunctive_add_eq_or [symmetric]) simp
  also have "\<dots> = word_of_int (uint val * 64 + int v)"
    by (simp add: push_bit_eq_mult mult.commute)
  finally show ?thesis by (simp only: uint_word_of_int) simp
qed

lemma out_byte:
  fixes val :: "32 word"
  assumes "k \<le> 8"
  shows "char_of (uint (signed_drop_bit k val AND 0xff)) = (char_of (uint val div 2 ^ k) :: char)"
proof -
  have ff: "(0xff :: 32 word) = mask 8" by (simp add: mask_eq_decr_exp)
  have "bit (uint (signed_drop_bit k val AND 0xff)) n = bit (uint val div 2 ^ k) n" if "n < 8" for n
    using assms that unfolding ff drop_bit_eq_div [symmetric]
    by (auto simp: bit_simps)
  then show ?thesis by (simp add: char_of_def)
qed

lemma char_of_div_mod:
  fixes x :: int
  assumes "k + 8 \<le> n"
  shows "(char_of (x mod 2 ^ n div 2 ^ k) :: char) = char_of (x div 2 ^ k)"
proof -
  have "bit (x mod 2 ^ n div 2 ^ k) i = bit (x div 2 ^ k) i" if "i < 8" for i
    unfolding drop_bit_eq_div [symmetric] take_bit_eq_mod [symmetric]
    using assms that by (auto simp: bit_simps)
  then show ?thesis by (simp add: char_of_def)
qed

section \<open>The decoder against an unbounded accumulator\<close>

text \<open>
  The same loop over a mathematical integer, with no width at all. \<open>None\<close> is a character outside
  the alphabet.
\<close>

fun decode_spec :: "string \<Rightarrow> nat \<Rightarrow> int \<Rightarrow> string option" where
  "decode_spec [] bits x = Some []"
| "decode_spec (c # cs) bits x =
     (if is_space c \<or> c = CHR ''='' then decode_spec cs bits x
      else if base64_char_value c < 0 then None
      else
        let x' = x * 64 + base64_char_value c
        in if bits < 2 then decode_spec cs (bits + 6) x'
           else map_option ((#) (char_of (x' div 2 ^ (bits - 2)))) (decode_spec cs (bits - 2) x'))"

lemma base64_char_value_range: "base64_char_value c < 64"
  using nat_of_char_less_256 [of c] by (auto simp: base64_char_value_def Let_def)

lemma decode_loop_spec:
  assumes "uint val = x mod 2 ^ 32" "bits < 8"
  shows "decode_loop s bits val out = (case decode_spec s bits x of None \<Rightarrow> [] | Some t \<Rightarrow> out @ t)"
  using assms
proof (induction s bits val out arbitrary: x rule: decode_loop.induct)
  case (1 bits val out)
  then show ?case by simp
next
  case (2 c cs bits val out)
  show ?case
  proof (cases "is_space c \<or> c = CHR ''='' \<or> base64_char_value c < 0")
    case True
    with 2 show ?thesis by auto
  next
    case False
    define v where "v = nat (base64_char_value c)"
    have v: "base64_char_value c = int v" "v < 64"
      using False base64_char_value_range [of c] by (auto simp: v_def)
    let ?val = "push_bit 6 val OR of_nat v" and ?x = "x * 64 + int v"
    have val: "uint ?val = ?x mod 2 ^ 32"
      using uint_step [OF v(2), of val] "2.prems"(1) by (metis mod_add_left_eq mod_mult_left_eq)
    have "char_of (uint (signed_drop_bit (bits + 6 - 8) ?val AND 0xff)) = (char_of (?x div 2 ^ (bits - 2)) :: char)"
      if "2 \<le> bits"
    proof -
      have "bits + 6 - 8 \<le> 8" using "2.prems"(2) by simp
      then have "char_of (uint (signed_drop_bit (bits + 6 - 8) ?val AND 0xff))
          = (char_of (?x mod 2 ^ 32 div 2 ^ (bits + 6 - 8)) :: char)"
        unfolding val [symmetric] by (rule out_byte)
      also have "\<dots> = char_of (?x div 2 ^ (bits + 6 - 8))"
        using "2.prems"(2) by (intro char_of_div_mod) simp
      finally show ?thesis using that by simp
    qed
    then show ?thesis
      using False v val 2 by (auto simp: Let_def split: option.split)
  qed
qed

lemma decode_base64_spec:
  "decode_base64 s = (case decode_spec s 0 0 of None \<Rightarrow> [] | Some t \<Rightarrow> t)"
  unfolding decode_base64_def by (subst decode_loop_spec [of 0 0]) (auto split: option.split)

text \<open>
  The unmasked 32-bit accumulator of \<open>decode_base64\<close>, which overflows on every input of more
  than five sextets, computes what the same loop over unbounded integers computes: the decoded
  bytes never depend on the bits that fall off. An input with a character outside the alphabet
  decodes to the empty string.
\<close>

theorem decode_base64_refines_spec:
  "decode_base64 s = (case decode_spec s 0 0 of None \<Rightarrow> [] | Some t \<Rightarrow> t)"
  by (rule decode_base64_spec)

section \<open>Decoding undoes encoding\<close>

lemma decode_spec_enc_char:
  "v < 64 \<Longrightarrow> decode_spec (enc_char v # cs) bits x =
     (if bits < 2 then decode_spec cs (bits + 6) (x * 64 + int v)
      else map_option ((#) (char_of ((x * 64 + int v) div 2 ^ (bits - 2))))
             (decode_spec cs (bits - 2) (x * 64 + int v)))"
  using enc_char_value [of v] by (simp add: Let_def)

lemma decode_spec_sextet:
  assumes "v < 64"
  shows "decode_spec (enc_char v # cs) 0 x = decode_spec cs 6 (x * 64 + int v)"
    "decode_spec (enc_char v # cs) 6 x =
       map_option ((#) (char_of ((x * 64 + int v) div 16))) (decode_spec cs 4 (x * 64 + int v))"
    "decode_spec (enc_char v # cs) 4 x =
       map_option ((#) (char_of ((x * 64 + int v) div 4))) (decode_spec cs 2 (x * 64 + int v))"
    "decode_spec (enc_char v # cs) 2 x =
       map_option ((#) (char_of (x * 64 + int v))) (decode_spec cs 0 (x * 64 + int v))"
  using assms by (simp_all add: decode_spec_enc_char del: decode_spec.simps(2))

lemma char_of_low_byte [simp]: "char_of (x * 256 + int (of_char c)) = c"
proof -
  have "char_of ((x * 256 + int (of_char c)) mod 256) = (char_of (x * 256 + int (of_char c)) :: char)"
    by (rule char_of_mod_256)
  moreover have "(x * 256 + int (of_char c)) mod 256 = int (of_char c)"
    using nat_of_char_less_256 [of c] by simp
  ultimately show ?thesis by simp
qed

text \<open>The three bytes of a group, read off the accumulator after two, three and four sextets.\<close>

lemma group_bytes:
  fixes a b c :: nat and x :: int
  defines "x2 \<equiv> (x * 64 + int (a div 4)) * 64 + int (a mod 4 * 16 + b div 16)"
  defines "x3 \<equiv> x2 * 64 + int (b mod 16 * 4 + c div 64)"
  assumes "b < 256" "c < 256"
  shows "x2 div 16 = x * 256 + int a"
    "x3 div 4 = (x * 256 + int a) * 256 + int b"
    "x3 * 64 + int (c mod 64) = ((x * 256 + int a) * 256 + int b) * 256 + int c"
proof -
  have a: "int a = 4 * int (a div 4) + int (a mod 4)"
    by (metis mult_div_mod_eq of_nat_add of_nat_mult of_nat_numeral)
  have b: "int b = 16 * int (b div 16) + int (b mod 16)"
    by (metis mult_div_mod_eq of_nat_add of_nat_mult of_nat_numeral)
  have c: "int c = 64 * int (c div 64) + int (c mod 64)"
    by (metis mult_div_mod_eq of_nat_add of_nat_mult of_nat_numeral)
  have x2: "x2 = 16 * (x * 256 + int a) + int (b div 16)"
    using a by (simp add: x2_def)
  have x3: "x3 = 4 * ((x * 256 + int a) * 256 + int b) + int (c div 64)"
    using b by (simp add: x3_def x2)
  show "x2 div 16 = x * 256 + int a"
    using assms(3) by (intro int_div_pos_eq [OF x2]) auto
  show "x3 div 4 = (x * 256 + int a) * 256 + int b"
    using assms(4) by (intro int_div_pos_eq [OF x3]) auto
  show "x3 * 64 + int (c mod 64) = ((x * 256 + int a) * 256 + int b) * 256 + int c"
    using c by (simp add: x3)
qed

lemma sextet_bounds:
  fixes m n :: nat
  assumes "m < 256" "n < 256"
  shows "m div 4 < 64" "m mod 4 * 16 < 64" "m mod 16 * 4 < 64" "m mod 64 < 64"
    "m mod 4 * 16 + n div 16 < 64" "m mod 16 * 4 + n div 64 < 64"
  using assms by linarith+

lemmas char_sextets = sextet_bounds [OF nat_of_char_less_256 nat_of_char_less_256]

lemma decode_padding: "decode_spec (CHR ''='' # cs) bits x = decode_spec cs bits x"
  by simp

lemmas decode_group = base64_encode.simps Let_def decode_spec_sextet char_sextets decode_padding
  decode_spec.simps(1) option.map char_of_low_byte

lemma decode_spec_encode: "decode_spec (base64_encode bs) 0 x = Some bs"
proof (induction bs arbitrary: x rule: base64_encode.induct)
  case 1
  then show ?case by simp
next
  case (2 a)
  have "((x * 64 + int (of_char a div 4)) * 64 + int (of_char a mod 4 * 16)) div 16 = x * 256 + int (of_char a)"
    using group_bytes(1) [of 0 0 x "of_char a"] by (simp only: div_0 add_0_right zero_less_numeral simp_thms)
  then show ?case
    by (simp only: decode_group)
next
  case (3 a b)
  let ?x2 = "(x * 64 + int (of_char a div 4)) * 64 + int (of_char a mod 4 * 16 + of_char b div 16)"
  have "?x2 div 16 = x * 256 + int (of_char a)"
    by (rule group_bytes(1) [of "of_char b" 0]) simp_all
  moreover have "(?x2 * 64 + int (of_char b mod 16 * 4)) div 4 = (x * 256 + int (of_char a)) * 256 + int (of_char b)"
    using group_bytes(2) [of "of_char b" 0 x "of_char a"]
    by (simp only: div_0 add_0_right zero_less_numeral nat_of_char_less_256 simp_thms)
  ultimately show ?case
    by (simp only: decode_group)
next
  case (4 a b c rest)
  show ?case
    by (simp only: decode_group "4.IH" group_bytes [of "of_char b" "of_char c" x "of_char a",
          OF nat_of_char_less_256 nat_of_char_less_256])
qed

lemma decode_base64_encode [simp]: "decode_base64 (base64_encode bs) = bs"
  by (simp add: decode_base64_spec decode_spec_encode)

lemma base64_encode_no_space: "c \<in> set (base64_encode bs) \<Longrightarrow> \<not> is_space c"
proof (induction bs rule: base64_encode.induct)
  case (2 a)
  then show ?case using enc_char_value char_sextets by (auto simp: Let_def is_space_def)
next
  case (3 a b)
  then show ?case using enc_char_value char_sextets by (auto simp: Let_def is_space_def)
next
  case (4 a b c rest)
  then show ?case using enc_char_value char_sextets by (auto simp: Let_def)
qed simp

lemma base64_encode_Nil_iff [simp]: "base64_encode bs = [] \<longleftrightarrow> bs = []"
  by (cases bs rule: base64_encode.cases) (simp_all add: Let_def)

text \<open>
  C32: \<open>decode_base64\<close> inverts the standard Base64 encoding for byte strings of every length, with
  the 32-bit accumulator the code uses and with its treatment of padding.
\<close>

theorem decode_base64_roundtrip: "decode_base64 (base64_encode bs) = bs"
  by (rule decode_base64_encode)

end
