(* ===== verification/Auth_Handler.thy ===== *)
theory Auth_Handler
  imports Kernel Base64 Http_Message
begin

text \<open>
  HTTP basic authentication against \<open>.htaccess\<close> files: \<open>parse_htaccess\<close> of
  \<open>http/core/request_handler_utils.cpp\<close> and \<open>http/handlers/auth_handler.cpp\<close>. The content of a
  file is parsed by \<open>htaccess_lines\<close>; the file itself is read through the kernel.
\<close>

section \<open>Definitions\<close>

datatype auth_result = Auth_Ok | Missing_Auth | Invalid_Auth

record htaccess_auth =
  ha_user_b64 :: string
  ha_password_b64 :: string
  ha_auth_type_basic :: bool

definition empty_htaccess :: htaccess_auth where
  "empty_htaccess = \<lparr>ha_user_b64 = [], ha_password_b64 = [], ha_auth_type_basic = False\<rparr>"

definition blank :: "char \<Rightarrow> bool" where
  "blank c \<longleftrightarrow> c = CHR '' '' \<or> c = TAB"

definition htaccess_line :: "string \<Rightarrow> htaccess_auth \<Rightarrow> htaccess_auth" where
  "htaccess_line line0 auth =
     (let line = rev (dropWhile (\<lambda>c. c = CR \<or> c = LF) (rev line0));
          rest = dropWhile blank line
      in if rest = [] \<or> hd rest = CHR ''#'' then auth
         else if take 9 rest = ''AuthType ''
         then (if take 5 (dropWhile blank (drop 9 rest)) = ''Basic''
               then auth\<lparr>ha_auth_type_basic := True\<rparr> else auth)
         else if take 5 rest = ''User '' then auth\<lparr>ha_user_b64 := trim [CHR '' '', TAB] (drop 5 rest)\<rparr>
         else if take 9 rest = ''Password ''
         then auth\<lparr>ha_password_b64 := trim [CHR '' '', TAB] (drop 9 rest)\<rparr>
         else auth)"

definition htaccess_lines :: "string \<Rightarrow> htaccess_auth" where
  "htaccess_lines content = foldl (\<lambda>auth line. htaccess_line line auth) empty_htaccess (getlines LF content)"

definition htaccess_of_file :: "string option \<Rightarrow> htaccess_auth option" where
  "htaccess_of_file file =
     (case file of
        None \<Rightarrow> None
      | Some content \<Rightarrow>
          let auth = htaccess_lines content
          in if \<not> ha_auth_type_basic auth \<or> ha_user_b64 auth = [] then None else Some auth)"

definition parse_htaccess :: "os \<Rightarrow> string \<Rightarrow> kernel \<Rightarrow> htaccess_auth option \<times> kernel" where
  "parse_htaccess os file_path k =
     (let (file, k') = sys_slurp os file_path k in (htaccess_of_file file, k'))"

text \<open>The decision of \<open>check_htaccess_and_auth\<close> once the file has been read.\<close>

definition check_credentials :: "htaccess_auth \<Rightarrow> http_request \<Rightarrow> auth_result" where
  "check_credentials htaccess request =
     (let auth_header = get_header (rq_headers request) ''authorization''
      in if auth_header = [] then Missing_Auth
         else if \<not> starts_with auth_header ''basic '' then Missing_Auth
         else
           let credentials = decode_base64 (drop 6 auth_header)
           in if credentials = [] then Missing_Auth
              else (case find_char CHR '':'' credentials of
                      None \<Rightarrow> Invalid_Auth
                    | Some colon_pos \<Rightarrow>
                        let client_user = substr credentials 0 colon_pos;
                            client_password = drop (colon_pos + 1) credentials;
                            expected_user = decode_base64 (ha_user_b64 htaccess);
                            expected_password = decode_base64 (ha_password_b64 htaccess)
                        in if client_user \<noteq> expected_user \<or> client_password \<noteq> expected_password
                           then Invalid_Auth else Auth_Ok))"

definition check_htaccess_and_auth :: "os \<Rightarrow> string \<Rightarrow> http_request \<Rightarrow> kernel \<Rightarrow> auth_result \<times> kernel" where
  "check_htaccess_and_auth os dir_path request k =
     (let (htaccess, k') = parse_htaccess os (trim_trailing_slash dir_path @ ''/.htaccess'') k
      in (case htaccess of None \<Rightarrow> Auth_Ok | Some auth \<Rightarrow> check_credentials auth request, k'))"

section \<open>What the credentials check decides\<close>

lemma check_credentials_Ok_iff:
  "check_credentials auth request = Auth_Ok \<longleftrightarrow>
     (\<exists>user. CHR '':'' \<notin> set user \<and> user = decode_base64 (ha_user_b64 auth)
        \<and> starts_with (get_header (rq_headers request) ''authorization'') ''basic ''
        \<and> decode_base64 (drop 6 (get_header (rq_headers request) ''authorization''))
            = user @ CHR '':'' # decode_base64 (ha_password_b64 auth))" (is "?l \<longleftrightarrow> ?r")
proof -
  let ?h = "get_header (rq_headers request) ''authorization''"
  let ?c = "decode_base64 (drop 6 ?h)"
  show ?thesis
  proof (cases "starts_with ?h ''basic '' \<and> ?c \<noteq> []")
    case False
    then show ?thesis by (auto simp: check_credentials_def Let_def)
  next
    case True
    then have h: "?h \<noteq> []" by (auto simp: str_simps)
    show ?thesis
    proof (cases "find_char CHR '':'' ?c")
      case None
      then have "CHR '':'' \<notin> set ?c" by (simp add: find_char_None_iff)
      with True h None show ?thesis by (auto simp: check_credentials_def Let_def)
    next
      case (Some i)
      have l: "?l \<longleftrightarrow> take i ?c = decode_base64 (ha_user_b64 auth) \<and> drop (Suc i) ?c = decode_base64 (ha_password_b64 auth)"
        using True h Some by (simp add: check_credentials_def Let_def substr_def)
      show ?thesis
      proof
        assume ?l
        with l find_char_SomeD [OF Some] True show ?r by metis
      next
        assume ?r
        then obtain u where u: "CHR '':'' \<notin> set u" "u = decode_base64 (ha_user_b64 auth)"
          "?c = u @ CHR '':'' # decode_base64 (ha_password_b64 auth)" by blast
        with Some find_char_prefix [OF u(1)] have "i = length u" by simp
        with u l show ?l by simp
      qed
    qed
  qed
qed

section \<open>Written files\<close>

definition render_htaccess :: "string \<Rightarrow> string \<Rightarrow> string list" where
  "render_htaccess user password =
     [''AuthType Basic'', ''User '' @ base64_encode user, ''Password '' @ base64_encode password]"

definition htaccess_file :: "string list \<Rightarrow> string" where
  "htaccess_file ls = concat (map (\<lambda>l. l @ [LF]) ls)"

definition basic_header :: "string \<Rightarrow> string \<Rightarrow> string" where
  "basic_header user password = ''Basic '' @ base64_encode (user @ CHR '':'' # password)"

lemma no_space_ends:
  assumes "\<forall>c \<in> set v. \<not> is_space c"
  shows "trim [CHR '' '', TAB] v = v" "dropWhile (\<lambda>c. c = CR \<or> c = LF) (rev v) = rev v"
    "CHR 0x0A \<notin> set v"
proof -
  have ws: "c \<noteq> CHR '' ''" "c \<noteq> TAB" "c \<noteq> CR" "c \<noteq> LF" if "c \<in> set v" for c
    using assms that by (auto simp: is_space_def)
  have "trimmed [CHR '' '', TAB] v"
    using ws hd_in_set [of v] last_in_set [of v] by (auto simp: trimmed_def)
  then show "trim [CHR '' '', TAB] v = v" by (rule trim_id)
  show "dropWhile (\<lambda>c. c = CR \<or> c = LF) (rev v) = rev v"
    using ws hd_in_set [of "rev v"] by (auto simp: dropWhile_eq_self_iff)
  show "CHR 0x0A \<notin> set v" using ws by blast
qed

lemma htaccess_line_field:
  assumes "\<forall>c \<in> set v. \<not> is_space c" "v \<noteq> []"
  shows "htaccess_line (''User '' @ v) auth = auth\<lparr>ha_user_b64 := v\<rparr>"
    "htaccess_line (''Password '' @ v) auth = auth\<lparr>ha_password_b64 := v\<rparr>"
proof -
  have ends: "dropWhile (\<lambda>c. c = CR \<or> c = LF) (rev (w @ v)) = rev (w @ v)" for w
  proof (cases "rev v")
    case (Cons c cs)
    then have "c \<in> set v" by (metis list.set_intros(1) set_rev)
    with assms(1) have "c \<noteq> CR" "c \<noteq> LF" by (auto simp: is_space_def)
    with Cons show ?thesis by simp
  qed (use assms(2) in simp)
  show "htaccess_line (''User '' @ v) auth = auth\<lparr>ha_user_b64 := v\<rparr>"
    "htaccess_line (''Password '' @ v) auth = auth\<lparr>ha_password_b64 := v\<rparr>"
    using assms(2) by (simp_all only: htaccess_line_def ends Let_def rev_rev_ident)
      (simp_all add: blank_def no_space_ends(1) [OF assms(1)])
qed

lemma htaccess_line_empty_password:
  "htaccess_line ''Password '' auth = auth\<lparr>ha_password_b64 := []\<rparr>"
  by (simp add: htaccess_line_def blank_def)

lemma htaccess_file_parsed:
  assumes "user \<noteq> []"
  shows "htaccess_of_file (Some (htaccess_file (render_htaccess user password)))
    = Some \<lparr>ha_user_b64 = base64_encode user, ha_password_b64 = base64_encode password,
        ha_auth_type_basic = True\<rparr>"
proof -
  let ?u = "base64_encode user" and ?p = "base64_encode password"
  have no_space: "\<forall>c \<in> set ?u. \<not> is_space c" "\<forall>c \<in> set ?p. \<not> is_space c"
    using base64_encode_no_space by blast+
  have "list_all (\<lambda>l. LF \<notin> set l) (render_htaccess user password)"
    using no_space_ends(3) [OF no_space(1)] no_space_ends(3) [OF no_space(2)]
    by (simp add: render_htaccess_def)
  from getlines_concat [OF this, of "[]"]
  have lines: "getlines LF (htaccess_file (render_htaccess user password)) = render_htaccess user password"
    by (simp add: htaccess_file_def)
  have auth: "htaccess_line ''AuthType Basic'' a = a\<lparr>ha_auth_type_basic := True\<rparr>" for a
    by (simp add: htaccess_line_def blank_def)
  have "htaccess_line (''Password '' @ ?p) a = a\<lparr>ha_password_b64 := ?p\<rparr>" for a
    using htaccess_line_field(2) [OF no_space(2)] htaccess_line_empty_password by (cases "?p = []") auto
  with auth htaccess_line_field(1) [OF no_space(1)] assms show ?thesis
    by (simp add: htaccess_of_file_def htaccess_lines_def lines Let_def)
      (simp add: render_htaccess_def empty_htaccess_def)
qed



end
