(* ===== verification/Http_Date.thy ===== *)
theory Http_Date
  imports Handler_Utils "HOL-Library.Monad_Syntax"
begin

text \<open>
  HTTP dates: \<open>parse_http_date\<close> and \<open>format_http_date\<close> of \<open>http/core/request_handler_utils.cpp\<close>,
  with the C library calls they are made of. \<open>gmtime\<close> and \<open>timegm\<close> use that the Gregorian calendar
  repeats every 400 years (146097 days); \<open>strftime\<close> and \<open>strptime\<close> are given for the one format
  the program uses, \<open>%a, %d %b %Y %H:%M:%S GMT\<close>, in the "C" locale and as glibc scans it (names
  regardless of case, full or abbreviated; numbers of bounded width after optional blanks).
\<close>

section \<open>The calendar\<close>

record tm =
  tm_sec :: nat
  tm_min :: nat
  tm_hour :: nat
  tm_mday :: nat
  tm_mon :: nat
  tm_year :: int
  tm_wday :: nat

definition leap :: "int \<Rightarrow> bool" where
  "leap y \<longleftrightarrow> y mod 4 = 0 \<and> (y mod 100 \<noteq> 0 \<or> y mod 400 = 0)"

definition year_days :: "int \<Rightarrow> nat" where
  "year_days y = (if leap y then 366 else 365)"

definition month_days :: "int \<Rightarrow> nat list" where
  "month_days y = [31, if leap y then 29 else 28, 31, 30, 31, 30, 31, 31, 30, 31, 30, 31]"

definition cycle :: "nat list" where
  "cycle = map (\<lambda>i. year_days (1970 + int i)) [0..<400]"

fun split_off :: "nat list \<Rightarrow> nat \<Rightarrow> nat \<times> nat" where
  "split_off [] d = (0, d)"
| "split_off (n # ns) d = (if d < n then (0, d) else (let (k, r) = split_off ns (d - n) in (Suc k, r)))"

definition gmtime :: "int \<Rightarrow> tm option" where
  "gmtime t =
     (let days = t div 86400; secs = nat (t mod 86400);
          (i, yday) = split_off cycle (nat (days mod 146097));
          year = 1970 + 400 * (days div 146097) + int i;
          (mon, d) = split_off (month_days year) yday
      in if year - 1900 < - (2 ^ 31) \<or> 2 ^ 31 \<le> year - 1900 then None
         else Some \<lparr>tm_sec = secs mod 60, tm_min = secs div 60 mod 60, tm_hour = secs div 3600,
                tm_mday = d + 1, tm_mon = mon, tm_year = year - 1900, tm_wday = nat ((days + 4) mod 7)\<rparr>)"

definition timegm :: "tm \<Rightarrow> int" where
  "timegm tm =
     (let y = tm_year tm + 1900;
          days = 146097 * ((y - 1970) div 400) + int (sum_list (take (nat ((y - 1970) mod 400)) cycle))
                 + int (sum_list (take (tm_mon tm) (month_days y))) + int (tm_mday tm) - 1
      in days * 86400 + int (tm_hour tm * 3600 + tm_min tm * 60 + tm_sec tm))"

section \<open>Formatting and scanning\<close>

definition day_names :: "(string \<times> string) list" where
  "day_names = [(''Sunday'', ''Sun''), (''Monday'', ''Mon''), (''Tuesday'', ''Tue''),
     (''Wednesday'', ''Wed''), (''Thursday'', ''Thu''), (''Friday'', ''Fri''), (''Saturday'', ''Sat'')]"

definition month_names :: "(string \<times> string) list" where
  "month_names = [(''January'', ''Jan''), (''February'', ''Feb''), (''March'', ''Mar''), (''April'', ''Apr''),
     (''May'', ''May''), (''June'', ''Jun''), (''July'', ''Jul''), (''August'', ''Aug''),
     (''September'', ''Sep''), (''October'', ''Oct''), (''November'', ''Nov''), (''December'', ''Dec'')]"

definition pad2 :: "nat \<Rightarrow> string" where
  "pad2 n = (if n < 10 then CHR ''0'' # dec_nat n else dec_nat n)"

definition strftime_http :: "tm \<Rightarrow> string" where
  "strftime_http tm =
     snd (day_names ! tm_wday tm) @ '', '' @ pad2 (tm_mday tm) @ '' '' @ snd (month_names ! tm_mon tm) @ '' ''
     @ dec_int (tm_year tm + 1900) @ '' '' @ pad2 (tm_hour tm) @ '':'' @ pad2 (tm_min tm) @ '':''
     @ pad2 (tm_sec tm) @ '' GMT''"

definition format_http_date :: "int \<Rightarrow> string" where
  "format_http_date t = (case gmtime t of None \<Rightarrow> [] | Some gm \<Rightarrow> strftime_http gm)"

fun match_name :: "(string \<times> string) list \<Rightarrow> nat \<Rightarrow> string \<Rightarrow> (nat \<times> string) option" where
  "match_name [] i s = None"
| "match_name ((long, short) # names) i s =
     (if starts_with s long then Some (i, drop (length long) s)
      else if starts_with s short then Some (i, drop (length short) s)
      else match_name names (Suc i) s)"

fun more_digits :: "nat \<Rightarrow> nat \<Rightarrow> nat \<Rightarrow> string \<Rightarrow> nat \<times> string" where
  "more_digits (Suc n) hi v (c # cs) =
     (if v * 10 \<le> hi \<and> is_digit c then more_digits n hi (v * 10 + digit_val c) cs else (v, c # cs))"
| "more_digits _ hi v s = (v, s)"

definition get_number :: "nat \<Rightarrow> nat \<Rightarrow> nat \<Rightarrow> string \<Rightarrow> (nat \<times> string) option" where
  "get_number lo hi n s =
     (case dropWhile (\<lambda>c. c = CHR '' '') s of
        [] \<Rightarrow> None
      | c # cs \<Rightarrow>
          if is_digit c
          then (let (v, rest) = more_digits (n - 1) hi (digit_val c) cs
                in if lo \<le> v \<and> v \<le> hi then Some (v, rest) else None)
          else None)"

definition skip_space :: "string \<Rightarrow> string" where
  "skip_space s = dropWhile is_space s"

definition literal :: "string \<Rightarrow> string \<Rightarrow> string option" where
  "literal pat s = (if prefix pat s then Some (drop (length pat) s) else None)"

definition strptime_http :: "string \<Rightarrow> tm option" where
  "strptime_http s = do {
     (wday, s) \<leftarrow> match_name day_names 0 s;
     s \<leftarrow> literal '','' s;
     (mday, s) \<leftarrow> get_number 1 31 2 (skip_space s);
     (mon, s) \<leftarrow> match_name month_names 0 (skip_space s);
     (year, s) \<leftarrow> get_number 0 9999 4 (skip_space s);
     (hour, s) \<leftarrow> get_number 0 23 2 (skip_space s);
     s \<leftarrow> literal '':'' s;
     (mins, s) \<leftarrow> get_number 0 59 2 s;
     s \<leftarrow> literal '':'' s;
     (sec, s) \<leftarrow> get_number 0 61 2 s;
     s \<leftarrow> literal ''GMT'' (skip_space s);
     Some \<lparr>tm_sec = sec, tm_min = mins, tm_hour = hour, tm_mday = mday, tm_mon = mon,
       tm_year = int year - 1900, tm_wday = wday\<rparr>
   }"

definition parse_http_date :: "string \<Rightarrow> bool \<times> int" where
  "parse_http_date s =
     (if s = [] then (False, 0)
      else (case strptime_http s of None \<Rightarrow> (False, 0) | Some tm \<Rightarrow> (True, timegm tm)))"

section \<open>The calendar is inverted\<close>

lemma split_off_bound:
  "d < sum_list ns \<Longrightarrow> split_off ns d = (k, r) \<Longrightarrow>
   k < length ns \<and> r < ns ! k \<and> d = sum_list (take k ns) + r"
proof (induction ns d arbitrary: k r rule: split_off.induct)
  case (2 n ns d)
  show ?case
  proof (cases "d < n")
    case False
    obtain k' r' where kr: "split_off ns (d - n) = (k', r')" by fastforce
    with False "2.prems" have "k = Suc k'" "r = r'" by simp_all
    moreover have "d - n < sum_list ns" using "2.prems"(1) False by simp
    note "2.IH" [OF False this kr]
    ultimately have "k < length (n # ns)" "r < (n # ns) ! k" "d = n + sum_list (take k' ns) + r'"
      using False by (simp_all, linarith)
    with \<open>k = Suc k'\<close> \<open>r = r'\<close> show ?thesis by simp
  qed (use "2.prems" in simp)
qed simp

lemma sum_every_fourth: "(\<Sum>i<4 * n. if (i + 2) mod 4 = 0 then 366 else 365) = (1461 * n :: nat)"
proof (induction n)
  case (Suc n)
  have four: "4 * Suc n = Suc (Suc (Suc (Suc (4 * n))))" by simp
  have "(4 * n + 2) mod 4 = 2" "(Suc (4 * n) + 2) mod 4 = 3" "(Suc (Suc (4 * n)) + 2) mod 4 = 0"
    "(Suc (Suc (Suc (4 * n))) + 2) mod 4 = 1" by presburger+
  with Suc show ?case unfolding four sum.lessThan_Suc by simp
qed simp

lemma sum_cycle: "sum_list cycle = 146097"
proof -
  let ?x = "\<lambda>i :: nat. if i \<in> {130, 230, 330} then 1 else 0 :: nat"
  have skipped: "year_days (1970 + int i) + ?x i = (if (i + 2) mod 4 = 0 then 366 else 365)" if "i < 400" for i
  proof -
    have "(1970 + int i) mod 4 = 0 \<longleftrightarrow> (i + 2) mod 4 = 0" by presburger
    moreover have "(1970 + int i) mod 100 = 0 \<and> (1970 + int i) mod 400 \<noteq> 0 \<longleftrightarrow> i \<in> {130, 230, 330}"
    proof
      assume h: "(1970 + int i) mod 100 = 0 \<and> (1970 + int i) mod 400 \<noteq> 0"
      then obtain q where q: "1970 + int i = 100 * q" by auto
      then have "19 < q" "q < 24" using that by linarith+
      then have "q = 20 \<or> q = 21 \<or> q = 22 \<or> q = 23" by linarith
      then show "i \<in> {130, 230, 330}" using h q by auto
    qed auto
    moreover have "(i + 2) mod 4 = 0" if "i \<in> {130, 230, 330}" using that by auto
    ultimately show ?thesis by (auto simp: year_days_def leap_def)
  qed
  have "sum_list cycle + (\<Sum>i<400. ?x i) = (\<Sum>i<400. year_days (1970 + int i) + ?x i)"
    by (simp add: cycle_def interv_sum_list_conv_sum_set_nat sum.distrib atLeast0LessThan)
  also have "\<dots> = (\<Sum>i<4 * (100 :: nat). if (i + 2) mod 4 = 0 then 366 else 365)"
    using skipped by (intro sum.cong) auto
  also have "\<dots> = 146100" by (simp only: sum_every_fourth)
  also have "(\<Sum>i<400. ?x i) = (\<Sum>i \<in> {130, 230, 330 :: nat}. 1)"
    by (rule sum.mono_neutral_cong_right) auto
  finally show ?thesis by simp
qed

lemma length_cycle [simp]: "length cycle = 400"
  by (simp add: cycle_def)

lemma split_off_upt:
  "i < n \<Longrightarrow> split_off (map f [i..<n]) d =
    (if d < f i then (0, d) else (let (k, r) = split_off (map f [Suc i..<n]) (d - f i) in (Suc k, r)))"
  by (simp add: upt_rec)

lemma leap_period: "leap (y + 400 * e) \<longleftrightarrow> leap y"
  using mod_mult_self2 [of y 4 "100 * e"] mod_mult_self2 [of y 100 "4 * e"] mod_mult_self2 [of y 400 e]
  by (simp add: leap_def)

lemma nth_cycle: "i < 400 \<Longrightarrow> cycle ! i = year_days (1970 + int i + 400 * e)"
  by (simp add: cycle_def year_days_def leap_period)

lemma sum_month_days: "sum_list (month_days y) = year_days y"
  by (simp add: month_days_def year_days_def)

lemma gmtime_fields:
  assumes "gmtime t = Some tm"
  shows "timegm tm = t" "tm_wday tm < 7" "tm_mon tm < 12" "1 \<le> tm_mday tm \<and> tm_mday tm \<le> 31"
    "tm_hour tm < 24" "tm_min tm < 60" "tm_sec tm < 60"
proof -
  define days where "days = t div 86400"
  define secs where "secs = nat (t mod 86400)"
  obtain i yday where y: "split_off cycle (nat (days mod 146097)) = (i, yday)" by fastforce
  define year where "year = 1970 + 400 * (days div 146097) + int i"
  obtain mon d where m: "split_off (month_days year) yday = (mon, d)" by fastforce
  have tm: "tm = \<lparr>tm_sec = secs mod 60, tm_min = secs div 60 mod 60, tm_hour = secs div 3600,
      tm_mday = d + 1, tm_mon = mon, tm_year = year - 1900, tm_wday = nat ((days + 4) mod 7)\<rparr>"
    using assms unfolding gmtime_def
    by (simp add: Let_def days_def [symmetric] secs_def [symmetric] y year_def [symmetric] m split: if_splits)
  have s: "secs < 86400" by (simp add: secs_def nat_less_iff)
  have "nat (days mod 146097) < sum_list cycle" by (simp add: sum_cycle nat_less_iff)
  from split_off_bound [OF this y]
  have Y: "i < length cycle" "yday < cycle ! i" "nat (days mod 146097) = sum_list (take i cycle) + yday"
    by simp_all
  have "year_days year = cycle ! i"
    using nth_cycle [of i "days div 146097"] Y(1) by (simp add: year_def algebra_simps)
  with Y(2) have "yday < sum_list (month_days year)" by (simp add: sum_month_days)
  from split_off_bound [OF this m]
  have M: "mon < length (month_days year)" "d < month_days year ! mon"
      "yday = sum_list (take mon (month_days year)) + d"
    by simp_all
  have "(year - 1970) div 400 = days div 146097" "nat ((year - 1970) mod 400) = i"
    using Y(1) by (simp_all add: year_def)
  then have "timegm tm = (146097 * (days div 146097) + int (sum_list (take i cycle) + (sum_list (take mon (month_days year)) + d))) * 86400
      + int (secs div 3600 * 3600 + secs div 60 mod 60 * 60 + secs mod 60)"
    by (simp add: timegm_def tm Let_def)
  also have "sum_list (take i cycle) + (sum_list (take mon (month_days year)) + d) = nat (days mod 146097)"
    using Y(3) M(3) by simp
  also have "secs div 3600 * 3600 + secs div 60 mod 60 * 60 + secs mod 60 = secs"
  proof -
    have "secs div 3600 = secs div 60 div 60" by (simp add: div_mult2_eq [symmetric])
    moreover have "secs div 60 div 60 * 60 + secs div 60 mod 60 = secs div 60" "secs div 60 * 60 + secs mod 60 = secs"
      by (rule div_mult_mod_eq)+
    ultimately show ?thesis by linarith
  qed
  also have "(146097 * (days div 146097) + int (nat (days mod 146097))) * 86400 + int secs = t"
    by (simp add: days_def secs_def)
  finally show "timegm tm = t" .
  have "month_days year ! mon \<le> 31"
  proof -
    have "\<forall>n \<in> set (month_days year). n \<le> 31" by (simp add: month_days_def)
    with M(1) show ?thesis using nth_mem by blast
  qed
  with M(2) show "1 \<le> tm_mday tm \<and> tm_mday tm \<le> 31" by (simp add: tm)
  show "tm_mon tm < 12" using M(1) by (simp add: tm month_days_def)
  show "tm_hour tm < 24" using s by (simp add: tm div_less_iff_less_mult)
  show "tm_wday tm < 7" "tm_min tm < 60" "tm_sec tm < 60" by (simp_all add: tm nat_less_iff)
qed

section \<open>Scanning inverts formatting\<close>

lemma pad2_eq: "n < 100 \<Longrightarrow> pad2 n = [digit_char (n div 10), digit_char (n mod 10)]"
proof (cases "n < 10")
  case True
  moreover have "digit_char 0 = CHR ''0''" by code_simp
  ultimately show ?thesis by (simp add: pad2_def radix.simps [of 10 n])
next
  case False
  assume "n < 100"
  then have "n div 10 < 10" by linarith
  with False show ?thesis by (simp add: pad2_def radix.simps [of 10 n] radix.simps [of 10 "n div 10"])
qed

lemma digit_char_not_blank: "d < 10 \<Longrightarrow> digit_char d \<noteq> CHR '' ''"
  using digit_char_digit [of d] by (auto simp: is_digit_def)

lemma get_number_pad2:
  "lo \<le> n \<Longrightarrow> n \<le> hi \<Longrightarrow> n < 100 \<Longrightarrow> get_number lo hi 2 (pad2 n @ rest) = Some (n, rest)"
  by (simp add: pad2_eq get_number_def digit_char_not_blank numeral_2_eq_2 le_trans [OF div_times_less_eq_dividend])

lemma get_number_year:
  assumes "1000 \<le> n" "n \<le> 9999"
  shows "get_number 0 9999 4 (dec_nat n @ rest) = Some (n, rest)"
proof -
  define x where "x = n div 10"
  define y where "y = x div 10"
  define z where "z = y div 10"
  have split: "x * 10 + n mod 10 = n" "y * 10 + x mod 10 = x" "z * 10 + y mod 10 = y"
    unfolding x_def y_def z_def by simp_all
  then have size: "z < 10" "\<not> n < 10" "\<not> x < 10" "\<not> y < 10" using assms by linarith+
  have ds: "dec_nat n = [digit_char z, digit_char (y mod 10), digit_char (x mod 10), digit_char (n mod 10)]"
    using size by (simp add: radix.simps [of 10 n] radix.simps [of 10 x] radix.simps [of 10 y]
        radix.simps [of 10 z] x_def [symmetric] y_def [symmetric] z_def [symmetric])
  have "z * 10 \<le> 9999" "y * 10 \<le> 9999" "x * 10 \<le> 9999" using split assms by linarith+
  then show ?thesis
    using assms size split by (simp add: ds get_number_def digit_char_not_blank numeral_3_eq_3)
qed

lemma match_name_day:
  assumes "i < 7"
  shows "match_name day_names 0 (snd (day_names ! i) @ CHR '','' # rest) = Some (i, CHR '','' # rest)"
proof -
  have "i = 0 \<or> i = 1 \<or> i = 2 \<or> i = 3 \<or> i = 4 \<or> i = 5 \<or> i = 6" using assms by linarith
  moreover have "lower_char CHR '','' = CHR '',''" by code_simp
  ultimately show ?thesis by (elim disjE) (simp_all add: day_names_def str_simps)
qed

lemma match_name_month:
  assumes "i < 12"
  shows "match_name month_names 0 (snd (month_names ! i) @ CHR '' '' # rest) = Some (i, CHR '' '' # rest)"
proof -
  have "i = 0 \<or> i = 1 \<or> i = 2 \<or> i = 3 \<or> i = 4 \<or> i = 5 \<or> i = 6 \<or> i = 7 \<or> i = 8 \<or> i = 9 \<or> i = 10 \<or> i = 11"
    using assms by presburger
  moreover have "lower_char CHR '' '' = CHR '' ''" by code_simp
  ultimately show ?thesis by (elim disjE) (simp_all add: month_names_def str_simps)
qed

lemma skip_space_simps [str_simps]:
  "skip_space (CHR '' '' # s) = skip_space s"
  "is_digit c \<Longrightarrow> skip_space (c # s) = c # s"
  by (simp_all add: skip_space_def is_digit_not_space) (simp add: is_space_def)

lemma skip_space_pad2 [str_simps]: "n < 100 \<Longrightarrow> skip_space (pad2 n @ s) = pad2 n @ s"
  by (simp add: pad2_eq str_simps)

lemma skip_space_dec_nat [str_simps]: "skip_space (dec_nat n @ s) = dec_nat n @ s"
  by (rule dec_nat_head [of n]) (simp add: str_simps)

lemma skip_space_month [str_simps]:
  assumes "i < 12"
  shows "skip_space (snd (month_names ! i) @ s) = snd (month_names ! i) @ s"
proof -
  have "i = 0 \<or> i = 1 \<or> i = 2 \<or> i = 3 \<or> i = 4 \<or> i = 5 \<or> i = 6 \<or> i = 7 \<or> i = 8 \<or> i = 9 \<or> i = 10 \<or> i = 11"
    using assms by presburger
  then show ?thesis by (elim disjE) (simp_all add: month_names_def skip_space_def is_space_def)
qed

lemma skip_space_GMT [str_simps]: "skip_space ''GMT'' = ''GMT''"
  by (simp add: skip_space_def is_space_def)

lemma strptime_strftime:
  assumes "tm_wday tm < 7" "tm_mon tm < 12" "1 \<le> tm_mday tm \<and> tm_mday tm \<le> 31"
    "tm_hour tm < 24" "tm_min tm < 60" "tm_sec tm < 60" "1000 \<le> tm_year tm + 1900" "tm_year tm + 1900 \<le> 9999"
  shows "strptime_http (strftime_http tm) = Some tm"
proof -
  define y where "y = nat (tm_year tm + 1900)"
  have y: "dec_int (tm_year tm + 1900) = dec_nat y" "1000 \<le> y" "y \<le> 9999" "tm_year tm = int y - 1900"
    using assms by (simp_all add: dec_int_def y_def)
  show ?thesis
    using assms(1-6) y(2,3)
    by (simp add: strptime_http_def strftime_http_def y(1) match_name_day match_name_month literal_def
        get_number_pad2 get_number_year str_simps) (simp add: y(4) [symmetric])
qed

lemma parse_format_date:
  assumes "gmtime t = Some tm" "1000 \<le> tm_year tm + 1900" "tm_year tm + 1900 \<le> 9999"
  shows "parse_http_date (format_http_date t) = (True, t)"
proof -
  note f = gmtime_fields [OF assms(1)]
  have "strftime_http tm \<noteq> []" by (simp add: strftime_http_def)
  with assms(1) strptime_strftime [OF f(2-7) assms(2,3)] f(1) show ?thesis
    by (simp add: parse_http_date_def format_http_date_def)
qed

lemma gmtime_sample: "gmtime 68214896 = Some \<lparr>tm_sec = 56, tm_min = 34, tm_hour = 12, tm_mday = 29, tm_mon = 1,
    tm_year = 72, tm_wday = 2\<rparr>"
proof -
  have days: "year_days 1970 = 365" "year_days 1971 = 365" "year_days 1972 = 366" by code_simp+
  have years: "split_off cycle 789 = (2, 59)"
    using split_off_upt [of 0 400 "\<lambda>i. year_days (1970 + int i)" 789]
      split_off_upt [of 1 400 "\<lambda>i. year_days (1970 + int i)" 424]
      split_off_upt [of "Suc (Suc 0)" 400 "\<lambda>i. year_days (1970 + int i)" 59]
    unfolding cycle_def by (simp del: upt_rec_numeral upt_Suc add: days)
  then show ?thesis by (simp add: gmtime_def leap_def month_days_def)
qed

text \<open>
  A date the server has formatted is read back to the same second: \<open>parse_http_date\<close> inverts
  \<open>format_http_date\<close> for every time whose year has four digits, leap years and the exceptions of
  the Gregorian calendar included.
\<close>

theorem http_date_roundtrip:
  assumes "gmtime t = Some tm" "1000 \<le> tm_year tm + 1900" "tm_year tm + 1900 \<le> 9999"
  shows "parse_http_date (format_http_date t) = (True, t)"
  using assms by (rule parse_format_date)

theorem http_date_roundtrip_witness:
  "format_http_date 68214896 = ''Tue, 29 Feb 1972 12:34:56 GMT''
   \<and> parse_http_date (format_http_date 68214896) = (True, 68214896)"
proof -
  note gm = gmtime_sample
  have "strftime_http \<lparr>tm_sec = 56, tm_min = 34, tm_hour = 12, tm_mday = 29, tm_mon = 1,
      tm_year = 72, tm_wday = 2\<rparr> = ''Tue, 29 Feb 1972 12:34:56 GMT''"
    by code_simp
  with gm have "format_http_date 68214896 = ''Tue, 29 Feb 1972 12:34:56 GMT''"
    by (simp add: format_http_date_def)
  moreover have "parse_http_date (format_http_date 68214896) = (True, 68214896)"
    by (rule http_date_roundtrip [OF gm]) simp_all
  ultimately show ?thesis by blast
qed

end
