(* ===== verification/Static_File.thy ===== *)
theory Static_File
  imports Kernel Http_Date Http_Message
begin

text \<open>
  \<open>http/handlers/static_file_handler.cpp\<close>: conditional requests, content negotiation, byte ranges
  and whole files. \<open>size_t\<close> is \<open>64 word\<close>; \<open>std::stoull\<close> may throw, which nothing catches, so the
  handler returns either an exception or a response. A body is not read here: the response carries
  an open descriptor with an offset and a size.
\<close>

section \<open>Ranges\<close>

record range_spec =
  rg_valid :: bool
  rg_start :: "64 word"
  rg_end :: "64 word"

definition bad_range :: range_spec where
  "bad_range = \<lparr>rg_valid = False, rg_start = 0, rg_end = 0\<rparr>"

definition check_range :: "64 word \<Rightarrow> 64 word \<Rightarrow> 64 word \<Rightarrow> range_spec" where
  "check_range start end file_size =
     (if start > end \<or> end \<ge> file_size then bad_range
      else \<lparr>rg_valid = True, rg_start = start, rg_end = end\<rparr>)"

definition parse_range :: "string \<Rightarrow> 64 word \<Rightarrow> cxx_exn + range_spec" where
  "parse_range header file_size =
     (if take 6 header \<noteq> ''bytes='' then Inr bad_range
      else
        let spec = drop 6 header
        in case find_char CHR ''-'' spec of
             None \<Rightarrow> Inr bad_range
           | Some dash \<Rightarrow>
               let start_str = substr spec 0 dash; end_str = drop (dash + 1) spec;
                   last_byte = (if file_size > 0 then file_size - 1 else 0)
               in if start_str = [] \<and> end_str = [] then Inr bad_range
                  else if start_str = []
                  then (case stoull end_str of
                          Inl e \<Rightarrow> Inl e
                        | Inr suffix_len \<Rightarrow>
                            Inr (check_range (if suffix_len \<ge> file_size then 0 else file_size - suffix_len)
                                   last_byte file_size))
                  else (case stoull start_str of
                          Inl e \<Rightarrow> Inl e
                        | Inr start \<Rightarrow>
                            if end_str \<noteq> []
                            then (case stoull end_str of
                                    Inl e \<Rightarrow> Inl e
                                  | Inr end \<Rightarrow> Inr (check_range start end file_size))
                            else Inr (check_range start last_byte file_size)))"

section \<open>Entity tags and content negotiation\<close>

definition generate_etag :: "stat_buf \<Rightarrow> string" where
  "generate_etag st =
     CHR 0x22 # hex_nat (unat (st_ino st)) @ ''-'' @ hex_nat (nat (st_size st mod 2 ^ 64)) @ ''-''
     @ hex_nat (nat (st_mtime st mod 2 ^ 64)) @ [CHR 0x22]"

definition accept_type :: "string \<Rightarrow> string \<Rightarrow> bool" where
  "accept_type content_type type \<longleftrightarrow>
     type = ''*/*'' \<or> type = content_type
     \<or> (length type \<ge> 2 \<and> last type = CHR ''*'' \<and> type ! (length type - 2) = CHR ''/''
        \<and> length content_type \<ge> length type - 1
        \<and> take (length type - 1) content_type = take (length type - 1) type)"

fun accept_tokens :: "string \<Rightarrow> string list \<Rightarrow> bool" where
  "accept_tokens content_type [] = False"
| "accept_tokens content_type (token # tokens) =
     (let base = (case find_char CHR '';'' token of Some semicolon \<Rightarrow> substr token 0 semicolon | None \<Rightarrow> token);
          type = trim [CHR '' '', TAB] base
      in if type = [] then accept_tokens content_type tokens
         else if accept_type content_type type then True
         else accept_tokens content_type tokens)"

definition check_accept :: "http_request \<Rightarrow> string \<Rightarrow> bool" where
  "check_accept request content_type =
     (let accept = get_header (rq_headers request) ''accept''
      in if accept = [] then True else accept_tokens content_type (getlines CHR '','' accept))"

section \<open>The handler\<close>

definition not_modified :: "string \<Rightarrow> int \<Rightarrow> http_response" where
  "not_modified etag now =
     set_header ''ETag'' etag (set_header ''Server'' ''Server/1.0''
       (set_header ''Date'' (format_http_date now) (mk_response St_NotModified)))"

definition file_headers :: "string \<Rightarrow> string \<Rightarrow> int \<Rightarrow> int \<Rightarrow> http_response \<Rightarrow> http_response" where
  "file_headers content_type etag mtime now resp =
     set_header ''Cache-Control'' ''max-age=3600'' (set_header ''ETag'' etag
       (set_header ''Last-Modified'' (format_http_date mtime) (set_header ''Content-Type'' content_type
         (set_header ''Server'' ''Server/1.0'' (set_header ''Date'' (format_http_date now) resp)))))"

definition size_word :: "int \<Rightarrow> 64 word" where
  "size_word n = word_of_int n"

definition range_response :: "int \<Rightarrow> range_spec \<Rightarrow> int \<Rightarrow> http_response \<Rightarrow> http_response" where
  "range_response file_fd rg fsize resp =
     (let len = rg_end rg - rg_start rg + 1
      in (set_header ''Content-Length'' (dec_nat (unat len))
           (set_header ''Content-Range''
             (''bytes '' @ dec_nat (unat (rg_start rg)) @ ''-'' @ dec_nat (unat (rg_end rg))
              @ ''/'' @ dec_int fsize) resp))
         \<lparr>rs_body_fd := file_fd, rs_body_fd_offset := sint (rg_start rg), rs_body_fd_size := sint len\<rparr>)"

definition range_not_satisfiable :: "int \<Rightarrow> http_response" where
  "range_not_satisfiable fsize =
     set_header ''Content-Range'' (''bytes */'' @ dec_int fsize) (mk_response St_RangeNotSatisfiable)"

definition whole_response :: "int \<Rightarrow> int \<Rightarrow> http_response \<Rightarrow> http_response" where
  "whole_response file_fd fsize resp =
     (set_header ''Content-Length'' (dec_int fsize) resp)
       \<lparr>rs_body_fd := file_fd, rs_body_fd_offset := 0, rs_body_fd_size := fsize\<rparr>"

definition send_file :: "os \<Rightarrow> string \<Rightarrow> http_request \<Rightarrow> stat_buf \<Rightarrow> kernel \<Rightarrow> (cxx_exn + http_response) \<times> kernel" where
  "send_file os path request st k =
     (let headers = file_headers (content_type_from_suffix path) (generate_etag st) (st_mtime st);
          (file_fd, k1) = sys_open os path k;
          range_header = get_header (rq_headers request) ''range''
      in if file_fd < 0 then (Inr (mk_response St_InternalServerError), k1)
         else if range_header \<noteq> []
         then (case parse_range range_header (size_word (st_size st)) of
                 Inl e \<Rightarrow> (Inl e, k1)
               | Inr rg \<Rightarrow>
                   if \<not> rg_valid rg
                   then (Inr (range_not_satisfiable (st_size st)), sys_close file_fd k1)
                   else (let (now, k2) = sys_time os k1
                         in (Inr (range_response file_fd rg (st_size st)
                               (headers now (mk_response St_PartialContent))), k2)))
         else (let (now, k2) = sys_time os k1
               in (Inr (whole_response file_fd (st_size st) (headers now (mk_response St_Ok))), k2)))"

definition after_conditionals :: "os \<Rightarrow> string \<Rightarrow> http_request \<Rightarrow> stat_buf \<Rightarrow> kernel \<Rightarrow> (cxx_exn + http_response) \<times> kernel" where
  "after_conditionals os path request st k =
     (if \<not> check_accept request (content_type_from_suffix path)
      then (Inr (mk_response St_NotAcceptable), k)
      else send_file os path request st k)"

definition serve_static_file :: "os \<Rightarrow> string \<Rightarrow> http_request \<Rightarrow> kernel \<Rightarrow> (cxx_exn + http_response) \<times> kernel" where
  "serve_static_file os path request k =
     (case sys_stat os path k of
        (None, k1) \<Rightarrow> (Inr (mk_response St_NotFound), k1)
      | (Some st, k1) \<Rightarrow>
          if \<not> S_ISREG st then (Inr (mk_response St_NotFound), k1)
          else
            let etag = generate_etag st;
                if_none_match = get_header (rq_headers request) ''if-none-match'';
                if_modified = get_header (rq_headers request) ''if-modified-since''
            in if if_none_match \<noteq> [] \<and> if_none_match = etag
               then (let (now, k2) = sys_time os k1 in (Inr (not_modified etag now), k2))
               else
                 let (parsed_ok, if_modified_time) = parse_http_date if_modified
                 in if if_modified \<noteq> [] \<and> parsed_ok
                    then (let (current_time, k2) = sys_time os k1
                          in if if_modified_time \<le> current_time \<and> st_mtime st \<le> if_modified_time
                             then (Inr (not_modified etag current_time), k2)
                             else after_conditionals os path request st k2)
                    else after_conditionals os path request st k1)"

section \<open>Byte ranges are exact\<close>

lemma of_nat_word_order:
  fixes a b :: nat
  assumes "a < 2 ^ 64" "b < 2 ^ 64"
  shows "(of_nat a :: 64 word) \<le> of_nat b \<longleftrightarrow> a \<le> b" "(of_nat a :: 64 word) < of_nat b \<longleftrightarrow> a < b"
    "(of_nat a :: 64 word) = of_nat b \<longleftrightarrow> a = b"
  using assms by (simp_all add: word_of_nat_less_eq_iff word_of_nat_less_iff word_of_nat_eq_iff take_bit_nat_eq_self)

lemma of_nat_word_diff:
  "(b :: nat) \<le> a \<Longrightarrow> (of_nat a :: 64 word) - of_nat b = of_nat (a - b)"
  by (simp add: of_nat_diff)

lemma dash_not_digit: "CHR ''-'' \<notin> set (dec_nat n)"
proof
  assume "CHR ''-'' \<in> set (dec_nat n)"
  then have "is_digit CHR ''-''" by (rule dec_nat_digits)
  then show False by (simp add: is_digit_def)
qed

lemma parse_range_split:
  assumes "CHR ''-'' \<notin> set a"
  shows "parse_range (''bytes='' @ a @ CHR ''-'' # b) fsize =
    (let last_byte = (if fsize > 0 then fsize - 1 else 0)
     in if a = [] \<and> b = [] then Inr bad_range
        else if a = []
        then (case stoull b of Inl e \<Rightarrow> Inl e
              | Inr n \<Rightarrow> Inr (check_range (if n \<ge> fsize then 0 else fsize - n) last_byte fsize))
        else (case stoull a of Inl e \<Rightarrow> Inl e
              | Inr st \<Rightarrow>
                  if b \<noteq> [] then (case stoull b of Inl e \<Rightarrow> Inl e | Inr en \<Rightarrow> Inr (check_range st en fsize))
                  else Inr (check_range st last_byte fsize)))"
  using assms by (simp add: parse_range_def find_char_prefix substr_def)

definition byte_range :: "nat \<Rightarrow> nat \<Rightarrow> range_spec" where
  "byte_range a b = \<lparr>rg_valid = True, rg_start = of_nat a, rg_end = of_nat b\<rparr>"

lemma parse_range_fields:
  assumes "a < 2 ^ 64" "b < 2 ^ 64" "fsize < 2 ^ 64"
  shows parse_range_both: "parse_range (''bytes='' @ dec_nat a @ ''-'' @ dec_nat b) (of_nat fsize)
      = Inr (if a \<le> b \<and> b < fsize then byte_range a b else bad_range)"
    and parse_range_open: "parse_range (''bytes='' @ dec_nat a @ ''-'') (of_nat fsize)
      = Inr (if a < fsize then byte_range a (fsize - 1) else bad_range)"
    and parse_range_suffix: "parse_range (''bytes=-'' @ dec_nat a) (of_nat fsize)
      = Inr (if 0 < a \<and> 0 < fsize then byte_range (fsize - a) (fsize - 1) else bad_range)"
proof -
  have last_byte: "(if (of_nat fsize :: 64 word) > 0 then of_nat fsize - 1 else 0) = (of_nat (fsize - 1) :: 64 word)"
    using of_nat_word_order(2) [of 0 fsize] assms by (cases "fsize = 0") (simp_all add: of_nat_diff)
  have parse: "stoull (dec_nat a) = Inr (of_nat a)" "stoull (dec_nat b) = Inr (of_nat b)"
    using assms(1,2) by (simp_all only: stoull_dec_nat)
  have check: "check_range (of_nat x) (of_nat y) (of_nat fsize)
      = (if x \<le> y \<and> y < fsize then byte_range x y else bad_range)" if "x < 2 ^ 64" "y < 2 ^ 64" for x y
    using of_nat_word_order [of y x] of_nat_word_order [of fsize y] that assms(3)
    by (simp add: check_range_def byte_range_def not_less not_le)
  have suffix: "(if (of_nat a :: 64 word) \<ge> of_nat fsize then 0 else of_nat fsize - of_nat a) = (of_nat (fsize - a) :: 64 word)"
    using of_nat_word_order(1) [of fsize a] assms by (simp add: of_nat_diff)
  show "parse_range (''bytes='' @ dec_nat a @ ''-'' @ dec_nat b) (of_nat fsize)
      = Inr (if a \<le> b \<and> b < fsize then byte_range a b else bad_range)"
    using parse_range_split [OF dash_not_digit, of a "dec_nat b" "of_nat fsize"] parse check [OF assms(1,2)]
    by simp
  show "parse_range (''bytes='' @ dec_nat a @ ''-'') (of_nat fsize)
      = Inr (if a < fsize then byte_range a (fsize - 1) else bad_range)"
    using parse_range_split [OF dash_not_digit, of a "[]" "of_nat fsize"] parse check [of a "fsize - 1"] assms
    by (auto simp: last_byte Let_def simp del: of_nat_diff)
  show "parse_range (''bytes=-'' @ dec_nat a) (of_nat fsize)
      = Inr (if 0 < a \<and> 0 < fsize then byte_range (fsize - a) (fsize - 1) else bad_range)"
    using parse_range_split [of "[]" "dec_nat a" "of_nat fsize"] parse check [of "fsize - a" "fsize - 1"] assms
    by (auto simp: last_byte suffix Let_def simp del: of_nat_diff)
qed

text \<open>
  The three forms of a byte range, on a file of \<open>fsize\<close> bytes: \<open>bytes=a-b\<close> selects the bytes
  \<open>a\<close> to \<open>b\<close>, \<open>bytes=a-\<close> those from \<open>a\<close> on, \<open>bytes=-n\<close> the last \<open>n\<close> (all of them when the file is
  shorter), and anything that does not lie inside the file is refused. No value below \<open>2\<^sup>64\<close> wraps.
\<close>

theorem parse_range_forms:
  assumes "a < 2 ^ 64" "b < 2 ^ 64" "fsize < 2 ^ 64"
  shows "parse_range (''bytes='' @ dec_nat a @ ''-'' @ dec_nat b) (of_nat fsize)
      = Inr (if a \<le> b \<and> b < fsize then byte_range a b else bad_range)
    \<and> parse_range (''bytes='' @ dec_nat a @ ''-'') (of_nat fsize)
      = Inr (if a < fsize then byte_range a (fsize - 1) else bad_range)
    \<and> parse_range (''bytes=-'' @ dec_nat a) (of_nat fsize)
      = Inr (if 0 < a \<and> 0 < fsize then byte_range (fsize - a) (fsize - 1) else bad_range)"
  using parse_range_fields [OF assms] by blast

theorem parse_range_forms_witness:
  "parse_range ''bytes=2-5'' 10 = Inr \<lparr>rg_valid = True, rg_start = 2, rg_end = 5\<rparr>
   \<and> parse_range ''bytes=-3'' 10 = Inr \<lparr>rg_valid = True, rg_start = 7, rg_end = 9\<rparr>"
proof -
  have d: "dec_nat 2 = ''2''" "dec_nat 5 = ''5''" "dec_nat 3 = ''3''" by code_simp+
  show ?thesis
    using parse_range_forms [of 2 5 10] parse_range_forms [of 3 5 10] by (simp add: d byte_range_def)
qed

section \<open>The body stays inside the file\<close>

definition owned_fd :: "http_response \<Rightarrow> int list" where
  "owned_fd r = (if 0 \<le> rs_body_fd r then [rs_body_fd r] else [])"

definition body_in_file :: "stat_buf \<Rightarrow> http_response \<Rightarrow> bool" where
  "body_in_file st r \<longleftrightarrow>
     0 \<le> rs_body_fd_offset r \<and> 0 \<le> rs_body_fd_size r
     \<and> rs_body_fd_offset r + rs_body_fd_size r \<le> st_size st \<and> rs_body r = []
     \<and> header_get (rs_headers r) ''Content-Length'' = Some (dec_int (rs_body_fd_size r))
     \<and> (rs_status_code r = St_Ok \<and> rs_body_fd_size r = st_size st
        \<or> rs_status_code r = St_PartialContent \<and> 0 < rs_body_fd_size r
          \<and> header_get (rs_headers r) ''Content-Range''
              = Some (''bytes '' @ dec_int (rs_body_fd_offset r) @ ''-''
                  @ dec_int (rs_body_fd_offset r + rs_body_fd_size r - 1) @ ''/'' @ dec_int (st_size st)))"

lemma check_range_valid:
  "rg_valid (check_range a b n) \<Longrightarrow>
   rg_start (check_range a b n) \<le> rg_end (check_range a b n) \<and> rg_end (check_range a b n) < n"
  by (auto simp: check_range_def bad_range_def split: if_splits)

lemma bad_range_invalid [simp]: "\<not> rg_valid bad_range"
  by (simp add: bad_range_def)

lemma parse_range_valid:
  assumes "parse_range h n = Inr rg" "rg_valid rg"
  shows "rg_start rg \<le> rg_end rg" "rg_end rg < n"
proof -
  from assms obtain a b where "rg = check_range a b n"
    by (auto simp: parse_range_def Let_def split: if_splits option.splits sum.splits)
  with assms(2) show "rg_start rg \<le> rg_end rg" "rg_end rg < n"
    using check_range_valid by blast+
qed

lemma sint_small: "uint (w :: 64 word) < 2 ^ 63 \<Longrightarrow> sint w = uint w"
proof -
  have "- (2 ^ 63) \<le> uint w" by (rule order_trans [OF _ uint_ge_0]) simp
  moreover assume "uint w < 2 ^ 63"
  ultimately have "signed_take_bit 63 (uint w) = uint w" by (rule signed_take_bit_int_eq_self)
  then show ?thesis by (simp add: sint_uint)
qed

lemma dec_nat_unat: "dec_nat (unat (w :: 64 word)) = dec_int (uint w)"
  by (simp add: dec_int_def)

lemma range_response_body:
  assumes "rg_start rg \<le> rg_end rg" "rg_end rg < size_word (st_size st)" "0 \<le> st_size st" "st_size st < 2 ^ 63"
    "rs_body r = []" "rs_status_code r = St_PartialContent"
  shows "body_in_file st (range_response fd rg (st_size st) r)"
proof -
  define a b where "a = uint (rg_start rg)" and "b = uint (rg_end rg)"
  have "uint (size_word (st_size st)) = st_size st"
    using assms(3,4) by (simp add: size_word_def uint_word_of_int)
  then have ab: "0 \<le> a" "a \<le> b" "b < st_size st"
    using assms(1,2) by (simp_all add: word_le_def word_less_def a_def b_def)
  have "uint (rg_end rg - rg_start rg + 1) = b - a + 1"
  proof -
    have "rg_end rg - rg_start rg + 1 = word_of_int (b - a + 1)" by (simp add: a_def b_def)
    then show ?thesis using ab assms(4) by (simp only: uint_word_of_int) simp
  qed
  then have len: "sint (rg_end rg - rg_start rg + 1) = b - a + 1"
    "dec_nat (unat (rg_end rg - rg_start rg + 1)) = dec_int (b - a + 1)"
    using sint_small [of "rg_end rg - rg_start rg + 1"] ab assms(4) by (simp_all add: dec_nat_unat)
  have pos: "sint (rg_start rg) = a" "dec_nat (unat (rg_start rg)) = dec_int a" "dec_nat (unat (rg_end rg)) = dec_int b"
    using sint_small [of "rg_start rg"] ab assms(4) by (simp_all add: a_def b_def dec_nat_unat)
  show ?thesis
    using ab assms(5,6) by (simp add: body_in_file_def range_response_def len pos Let_def)
qed

lemma file_headers_simps [simp]:
  "rs_body (file_headers ct e m n r) = rs_body r" "rs_body_fd (file_headers ct e m n r) = rs_body_fd r"
  "rs_status_code (file_headers ct e m n r) = rs_status_code r"
  by (simp_all add: file_headers_def)

lemma not_modified_simps [simp]:
  "rs_body_fd (not_modified e n) = -1" "rs_status_code (not_modified e n) = St_NotModified"
  by (simp_all add: not_modified_def)

lemma range_not_satisfiable_simps [simp]:
  "rs_body_fd (range_not_satisfiable n) = -1" "rs_status_code (range_not_satisfiable n) = St_RangeNotSatisfiable"
  by (simp_all add: range_not_satisfiable_def)

lemma response_fd_simps [simp]:
  "rs_body_fd (range_response fd rg n r) = fd" "rs_body_fd (whole_response fd n r) = fd"
  "rs_status_code (range_response fd rg n r) = rs_status_code r"
  "rs_status_code (whole_response fd n r) = rs_status_code r"
  by (simp_all add: range_response_def whole_response_def Let_def)

lemma send_file_body:
  assumes "send_file os path request st k = (Inr r, k')" "0 \<le> rs_body_fd r" "0 \<le> st_size st" "st_size st < 2 ^ 63"
  shows "body_in_file st r"
proof -
  obtain fd k1 where o: "sys_open os path k = (fd, k1)" by fastforce
  let ?h = "get_header (rq_headers request) ''range''"
  have fd: "0 \<le> fd" using assms(1,2) by (auto simp: send_file_def o Let_def split: if_splits)
  show ?thesis
  proof (cases "?h = []")
    case True
    then show ?thesis
      using assms fd by (auto simp: send_file_def o sys_time_def body_in_file_def whole_response_def Let_def)
  next
    case False
    show ?thesis
    proof (cases "parse_range ?h (size_word (st_size st))")
      case (Inr rg)
      then have v: "rg_valid rg" using assms(1,2) False fd by (auto simp: send_file_def o Let_def split: if_splits)
      from assms(1) fd False Inr v show ?thesis
        using range_response_body [OF parse_range_valid [OF Inr v] assms(3,4)]
        by (auto simp: send_file_def o sys_time_def Let_def)
    qed (use assms(1) False fd in \<open>auto simp: send_file_def o Let_def\<close>)
  qed
qed

lemma serve_static_file_cases:
  assumes "serve_static_file os path request k = (res, k')"
  obtains (not_found) "res = Inr (mk_response St_NotFound)" "k' = tick k"
  | (cached) st now where "os_stat os (k_tick k) (c_str path) = Some st" "S_ISREG st"
      "res = Inr (not_modified (generate_etag st) now)" "k' = tick (tick k)"
      "get_header (rq_headers request) ''if-none-match'' = generate_etag st
       \<or> (\<exists>t. parse_http_date (get_header (rq_headers request) ''if-modified-since'') = (True, t) \<and> st_mtime st \<le> t)"
  | (refused) "res = Inr (mk_response St_NotAcceptable)" "k_open k' = k_open k" "k_bad_close k' = k_bad_close k"
  | (sent) st k1 where "os_stat os (k_tick k) (c_str path) = Some st" "S_ISREG st"
      "send_file os path request st k1 = (res, k')" "k_open k1 = k_open k" "k_bad_close k1 = k_bad_close k"
proof (cases "os_stat os (k_tick k) (c_str path)")
  case None
  with assms show thesis by (intro not_found) (simp_all add: serve_static_file_def sys_stat_def)
next
  case (Some st)
  have rest: thesis
    if "after_conditionals os path request st k1 = (res, k')" "k_open k1 = k_open k" "k_bad_close k1 = k_bad_close k"
      "S_ISREG st" for k1
    using that Some refused sent by (auto simp: after_conditionals_def split: if_splits)
  let ?inm = "get_header (rq_headers request) ''if-none-match''"
  let ?ims = "get_header (rq_headers request) ''if-modified-since''"
  obtain ok t where d: "parse_http_date ?ims = (ok, t)" by fastforce
  show thesis
  proof (cases "S_ISREG st")
    case False
    with assms Some show thesis by (intro not_found) (simp_all add: serve_static_file_def sys_stat_def)
  next
    case True
    consider "?inm \<noteq> [] \<and> ?inm = generate_etag st"
      | "\<not> (?inm \<noteq> [] \<and> ?inm = generate_etag st)" "?ims \<noteq> [] \<and> ok"
      | "\<not> (?inm \<noteq> [] \<and> ?inm = generate_etag st)" "\<not> (?ims \<noteq> [] \<and> ok)" by blast
    then show thesis
    proof cases
      case 1
      then have "serve_static_file os path request k
          = (Inr (not_modified (generate_etag st) (os_time os (Suc (k_tick k)))), tick (tick k))"
        using Some True by (auto simp: serve_static_file_def sys_stat_def sys_time_def Let_def)
      with assms 1 Some True show thesis by (intro cached) auto
    next
      case 2
      show thesis
      proof (cases "t \<le> os_time os (Suc (k_tick k)) \<and> st_mtime st \<le> t")
        case now: True
        then have "serve_static_file os path request k
            = (Inr (not_modified (generate_etag st) (os_time os (Suc (k_tick k)))), tick (tick k))"
          using 2 d Some True by (auto simp: serve_static_file_def sys_stat_def sys_time_def Let_def)
        with assms 2 d now Some True show thesis by (intro cached) auto
      next
        case False
        with assms 2 d Some True show thesis
          by (intro rest [of "tick (tick k)"]) (auto simp: serve_static_file_def sys_stat_def sys_time_def Let_def)
      qed
    next
      case 3
      with assms d Some True show thesis
        by (intro rest [of "tick k"]) (auto simp: serve_static_file_def sys_stat_def Let_def)
    qed
  qed
qed

text \<open>
  C19: whatever the request asks for, a response that carries a file descriptor describes bytes that
  lie inside the file as it was found (never before its start nor past its end), announces exactly
  their number in Content-Length, and is either the whole file with status 200 or a non-empty part
  with status 206 and the matching Content-Range.
\<close>

theorem static_body_in_file:
  assumes "serve_static_file os path request k = (Inr r, k')" "0 \<le> rs_body_fd r"
    and "os_stat os (k_tick k) (c_str path) = Some st" "0 \<le> st_size st" "st_size st < 2 ^ 63"
  shows "body_in_file st r"
  using assms(1)
proof (cases rule: serve_static_file_cases)
  case (sent st' k1)
  with assms show ?thesis by (auto intro: send_file_body)
qed (use assms(2) in auto)


text \<open>A file for concrete runs: 100 bytes, last modified on 29 February 1972.\<close>

definition sample_stat :: stat_buf where
  "sample_stat = \<lparr>st_mode = 0x81A4, st_ino = 1, st_size = 100, st_mtime = 68214896\<rparr>"

definition sample_os :: os where
  "sample_os = idle_os\<lparr>os_stat := \<lambda>_ _. Some sample_stat, os_time := \<lambda>_. 68214900\<rparr>"

lemma sample_file [simp]:
  "os_stat sample_os n path = Some sample_stat" "S_ISREG sample_stat" "os_open sample_os n path"
  "st_size sample_stat = 100" "st_mtime sample_stat = 68214896" "os_time sample_os n = 68214900"
  by (simp_all add: sample_os_def sample_stat_def S_ISREG_def idle_os_def)

lemma sample_open: "sys_open sample_os path (tick init_kernel)
    = (3, (tick (tick init_kernel))\<lparr>k_open := (3, Regular (c_str path)) # k_open init_kernel\<rparr>)"
proof -
  have "fresh_fd [0, 1, 2] = 3" by code_simp
  then show ?thesis by (simp add: sys_open_def alloc_fd_def init_kernel_def)
qed

theorem static_body_in_file_witness:
  "\<exists>r k'. serve_static_file sample_os ''/srv/a.txt'' (empty_request\<lparr>rq_headers := [(''range'', ''bytes=10-'')]\<rparr>)
       init_kernel = (Inr r, k') \<and> rs_body_fd r = 3 \<and> body_in_file sample_stat r"
proof -
  have "dec_nat 10 = ''10''" by code_simp
  then have parse: "parse_range ''bytes=10-'' 100 = Inr (byte_range 10 99)"
    using parse_range_open [of 10 0 100] by simp
  define req where "req = empty_request\<lparr>rq_headers := [(''range'', ''bytes=10-'')]\<rparr>"
  have "get_header (rq_headers req) h = (if h = ''range'' then ''bytes=10-'' else [])" for h
    by (simp add: req_def get_header_def header_get_def)
  then obtain r k' where r: "serve_static_file sample_os ''/srv/a.txt'' req init_kernel = (Inr r, k')" "rs_body_fd r = 3"
    using parse
    by (simp add: serve_static_file_def sys_stat_def after_conditionals_def check_accept_def send_file_def
        parse_http_date_def sample_open size_word_def byte_range_def sys_time_def)
  moreover have "body_in_file sample_stat r"
    using r by (intro static_body_in_file [OF r(1)]) simp_all
  ultimately show ?thesis by (auto simp: req_def)
qed


section \<open>Descriptors\<close>

lemma sys_open_leaves:
  assumes "kernel_ok k" "sys_open os path k = (fd, k')"
  shows "if fd < 0 then leaves k k' [] else leaves k k' [fd]"
proof (cases "os_open os (k_tick k) (c_str path)")
  case True
  with assms(2) have "alloc_fd (Regular (c_str path)) (tick k) = (fd, k')" by (simp add: sys_open_def)
  from alloc_fd_leaves [OF _ this] assms(1) show ?thesis by simp
qed (use assms in \<open>auto simp: sys_open_def\<close>)

lemma send_file_leaves:
  assumes "kernel_ok k" "send_file os path request st k = (Inr r, k')"
  shows "leaves k k' (owned_fd r)"
proof -
  obtain fd k1 where o: "sys_open os path k = (fd, k1)" by fastforce
  note l = sys_open_leaves [OF assms(1) o]
  show ?thesis
  proof (cases "fd < 0")
    case True
    with l assms(2) o show ?thesis by (auto simp: send_file_def owned_fd_def)
  next
    case False
    with l have "leaves k (sys_close fd k1) []" using sys_close_leaves [of k k1 "[fd]" fd] by simp
    with False l assms(2) o show ?thesis
      by (auto simp: send_file_def Let_def sys_time_def owned_fd_def split: if_splits sum.splits)
  qed
qed

lemma serve_static_file_leaves:
  assumes "kernel_ok k" "serve_static_file os path request k = (Inr r, k')"
  shows "leaves k k' (owned_fd r)"
  using assms(2)
proof (cases rule: serve_static_file_cases)
  case (sent st k1)
  then have "kernel_ok k1" using assms(1) by (simp add: kernel_ok_def)
  from send_file_leaves [OF this sent(3)] sent show ?thesis by (simp add: leaves_def)
qed (use assms(1) in \<open>auto simp: owned_fd_def leaves_def kernel_ok_def\<close>)

interpretation static_file: fd_handler "\<lambda>(path, request) k. Some (serve_static_file os path request k)" owned_fd for os
  by unfold_locales (auto dest: serve_static_file_leaves)

text \<open>
  A malformed range escapes as an exception. A Range header whose last position is not a number
  makes \<open>std::stoull\<close> throw out of the handler after the file was opened: no response is produced,
  and the descriptor stays open.
\<close>

theorem malformed_range_throws:
  assumes "os_stat os (k_tick k) (c_str path) = Some st" "S_ISREG st" "os_open os (Suc (k_tick k)) (c_str path)"
    and "rq_headers request = [(''range'', ''bytes=0-x'')]" "kernel_ok k"
  shows "\<exists>fd k'. serve_static_file os path request k = (Inl Invalid_argument, k') \<and> leaves k k' [fd]"
proof -
  have no_header: "get_header (rq_headers request) ''if-none-match'' = []"
    "get_header (rq_headers request) ''if-modified-since'' = []"
    "get_header (rq_headers request) ''accept'' = []" "get_header (rq_headers request) ''range'' = ''bytes=0-x''"
    using assms(4) by (simp_all add: get_header_def header_get_def)
  have "scan_integer ''x'' = None" "dec_nat 0 = ''0''" by code_simp+
  then have "stoull ''x'' = Inl Invalid_argument" "stoull ''0'' = Inr 0"
    using stoull_dec_nat [of 0] by (simp_all add: stoull_def)
  then have "parse_range ''bytes=0-x'' n = Inl Invalid_argument" for n
    using parse_range_split [of "''0''" "''x''" n] by simp
  moreover obtain fd k1 where o: "sys_open os path (tick k) = (fd, k1)" by fastforce
  moreover have "0 \<le> fd"
    using o assms(3) fresh_fd(2) by (auto simp: sys_open_def alloc_fd_def Let_def)
  moreover have "leaves k k1 [fd]" using sys_open_leaves [OF _ o] \<open>0 \<le> fd\<close> assms(5) by auto
  ultimately have "send_file os path request st (tick k) = (Inl Invalid_argument, k1)"
    by (simp add: send_file_def no_header)
  then have "serve_static_file os path request k = (Inl Invalid_argument, k1)"
    using assms(1,2)
    by (simp add: serve_static_file_def sys_stat_def no_header after_conditionals_def check_accept_def
        split: prod.split)
  with \<open>leaves k k1 [fd]\<close> show ?thesis by blast
qed

theorem malformed_range_throws_witness:
  "\<exists>fd k'. serve_static_file sample_os ''/srv/a.txt'' (empty_request\<lparr>rq_headers := [(''range'', ''bytes=0-x'')]\<rparr>)
     init_kernel = (Inl Invalid_argument, k') \<and> leaves init_kernel k' [fd]"
  by (rule malformed_range_throws [of _ _ _ sample_stat]) (simp_all add: init_kernel_ok)

end
