(* ===== verification/Directory_Listing.thy ===== *)
theory Directory_Listing
  imports Static_File Path_Utils "HOL-Library.List_Lexorder" "HOL-Library.Multiset"
begin

text \<open>
  \<open>http/handlers/directory_handler.cpp\<close>: index files and generated listings. The comparator of the
  \<open>std::sort\<close> call is the order of the type \<open>entry_key\<close>; sizes are printed as \<open>%.1f\<close> prints the
  quotient by 1024 or \<open>1024\<^sup>2\<close> (exact below \<open>2\<^sup>53\<close> bytes, ties to even).
\<close>

section \<open>Entries and their order\<close>

record dir_entry =
  de_name :: string
  de_is_dir :: bool
  de_size :: int
  de_mtime :: int

datatype entry_key = Entry_Key (key_is_dir: bool) (key_name: string)

instantiation entry_key :: linorder
begin

definition less_entry_key :: "entry_key \<Rightarrow> entry_key \<Rightarrow> bool" where
  "less_entry_key a b =
     (if key_is_dir a \<noteq> key_is_dir b then key_is_dir a > key_is_dir b else key_name a < key_name b)"

definition less_eq_entry_key :: "entry_key \<Rightarrow> entry_key \<Rightarrow> bool" where
  "less_eq_entry_key a b \<longleftrightarrow> a = b \<or> a < b"

instance
  by standard (auto simp: less_entry_key_def less_eq_entry_key_def entry_key.expand split: if_splits)

end

definition order_key :: "dir_entry \<Rightarrow> entry_key" where
  "order_key e = Entry_Key (de_is_dir e) (de_name e)"

definition sort_entries :: "dir_entry list \<Rightarrow> dir_entry list" where
  "sort_entries es = sort_key order_key es"

section \<open>Rendering\<close>

definition round_div :: "nat \<Rightarrow> nat \<Rightarrow> nat" where
  "round_div n d =
     (let q = n div d; r = n mod d
      in if 2 * r < d then q else if d < 2 * r then q + 1 else if even q then q else q + 1)"

definition one_decimal :: "nat \<Rightarrow> nat \<Rightarrow> string" where
  "one_decimal n d = (let t = round_div (10 * n) d in dec_nat (t div 10) @ ''.'' @ dec_nat (t mod 10))"

definition format_size :: "int \<Rightarrow> string" where
  "format_size bytes =
     (if bytes < 1024 then dec_int bytes
      else if bytes < 1024 * 1024 then take 15 (one_decimal (nat bytes) 1024 @ ''K'')
      else take 15 (one_decimal (nat bytes) (1024 * 1024) @ ''M''))"

definition format_mtime :: "os \<Rightarrow> int \<Rightarrow> string" where
  "format_mtime os t =
     (let (year, mon, mday, hour, mins) = os_localtime os t
      in dec_int year @ ''-'' @ pad2 mon @ ''-'' @ pad2 mday @ '' '' @ pad2 hour @ '':'' @ pad2 mins)"

fun html_escape :: "string \<Rightarrow> string" where
  "html_escape [] = []"
| "html_escape (c # s) =
     (if c = CHR ''&'' then ''&amp;''
      else if c = CHR ''<'' then ''&lt;''
      else if c = CHR ''>'' then ''&gt;''
      else if c = CHR 0x22 then ''&quot;''
      else [c]) @ html_escape s"

definition listing_base :: "string \<Rightarrow> string" where
  "listing_base uri_path =
     (if uri_path = [] \<or> last uri_path \<noteq> CHR ''/'' then uri_path @ ''/'' else uri_path)"

definition listing_head :: "string \<Rightarrow> string" where
  "listing_head base =
     (let title = ''Index of '' @ html_escape base
      in ''<!DOCTYPE html>'' @ [LF] @ ''<html>'' @ [LF] @ ''<head>''
         @ ''<meta charset='' @ [CHR 0x22] @ ''utf-8'' @ [CHR 0x22] @ ''>''
         @ ''<title>'' @ title @ ''</title></head>'' @ [LF]
         @ ''<body>'' @ [LF] @ ''<h1>'' @ title @ ''</h1><hr>'' @ [LF] @ ''<pre>'' @ [LF]
         @ (if base \<noteq> ''/''
            then ''<a href='' @ [CHR 0x22] @ ''../'' @ [CHR 0x22] @ ''>../</a>'' @ [LF] else []))"

definition listing_line :: "os \<Rightarrow> dir_entry \<Rightarrow> string" where
  "listing_line os e =
     (let display = html_escape (de_name e) @ (if de_is_dir e then ''/'' else []);
          href = html_escape (de_name e) @ (if de_is_dir e then ''/'' else []);
          pad = (if length display < 40 then replicate (40 - length display) CHR '' '' else '' '')
      in ''<a href='' @ [CHR 0x22] @ href @ [CHR 0x22] @ ''>'' @ display @ ''</a>'' @ pad
         @ format_mtime os (de_mtime e) @ ''  ''
         @ (if de_is_dir e then ''-'' else format_size (de_size e)) @ [LF])"

definition listing_foot :: string where
  "listing_foot = ''</pre><hr>'' @ [LF] @ ''</body>'' @ [LF] @ ''</html>'' @ [LF]"

definition render_listing :: "os \<Rightarrow> string \<Rightarrow> dir_entry list \<Rightarrow> string" where
  "render_listing os uri_path es =
     listing_head (listing_base uri_path) @ concat (map (listing_line os) (sort_entries es)) @ listing_foot"

section \<open>Reading the directory\<close>

fun read_entries :: "os \<Rightarrow> string \<Rightarrow> string list \<Rightarrow> kernel \<Rightarrow> dir_entry list \<times> kernel" where
  "read_entries os dir_path [] k = ([], k)"
| "read_entries os dir_path (nm # nms) k =
     (if nm = ''.'' \<or> nm = ''..'' then read_entries os dir_path nms k
      else
        let (st, k1) = sys_stat os (dir_path @ ''/'' @ nm) k;
            e = (case st of
                   Some st \<Rightarrow> \<lparr>de_name = nm, de_is_dir = S_ISDIR st, de_size = st_size st, de_mtime = st_mtime st\<rparr>
                 | None \<Rightarrow> \<lparr>de_name = nm, de_is_dir = False, de_size = 0, de_mtime = 0\<rparr>);
            (es, k2) = read_entries os dir_path nms k1
        in (e # es, k2))"

definition build_listing :: "os \<Rightarrow> string \<Rightarrow> string \<Rightarrow> kernel \<Rightarrow> string \<times> kernel" where
  "build_listing os uri_path dir_path k =
     (case sys_listdir os dir_path k of
        (None, k1) \<Rightarrow> ([], k1)
      | (Some names, k1) \<Rightarrow>
          let (es, k2) = read_entries os dir_path names k1 in (render_listing os uri_path es, k2))"

definition index_candidates :: "string \<Rightarrow> http_request \<Rightarrow> string \<Rightarrow> string list" where
  "index_candidates dir_path request document_root =
     (let base = (if dir_path = [] \<or> last dir_path \<noteq> CHR ''/'' then dir_path @ ''/'' else dir_path);
          is_doc_root = (normalize_path (trim_trailing_slash dir_path)
                         = normalize_path (trim_trailing_slash document_root));
          mobile = (find_sub ''iPhone'' (get_header (rq_headers request) ''user-agent'') \<noteq> None)
      in if is_doc_root \<and> mobile then [base @ ''index_m.html'', base @ ''index.html'']
         else [base @ ''index.html''])"

fun first_index :: "os \<Rightarrow> string list \<Rightarrow> kernel \<Rightarrow> string option \<times> kernel" where
  "first_index os [] k = (None, k)"
| "first_index os (c # cs) k =
     (let (st, k1) = sys_stat os c k
      in if (case st of Some st \<Rightarrow> S_ISREG st | None \<Rightarrow> False) then (Some c, k1) else first_index os cs k1)"

definition listing_response :: "string \<Rightarrow> http_response" where
  "listing_response body =
     (if body = [] then mk_response St_Forbidden
      else (set_header ''Content-Length'' (dec_nat (length body))
             (set_header ''Content-Type'' ''text/html; charset=utf-8'' (mk_response St_Ok)))
             \<lparr>rs_body := body\<rparr>)"

definition serve_directory_index ::
  "os \<Rightarrow> string \<Rightarrow> http_request \<Rightarrow> string \<Rightarrow> kernel \<Rightarrow> (cxx_exn + http_response) \<times> kernel" where
  "serve_directory_index os dir_path request document_root k =
     (case first_index os (index_candidates dir_path request document_root) k of
        (Some candidate, k1) \<Rightarrow> serve_static_file os candidate request k1
      | (None, k1) \<Rightarrow>
          let uri_path = (case find_char CHR ''?'' (rq_uri request) of
                            None \<Rightarrow> rq_uri request | Some q \<Rightarrow> substr (rq_uri request) 0 q);
              (body, k2) = build_listing os uri_path dir_path k1
          in (Inr (listing_response body), k2))"

section \<open>Listings cannot be injected into\<close>

fun html_unescape :: "string \<Rightarrow> string" where
  "html_unescape [] = []"
| "html_unescape (c # s) =
     (if prefix ''&amp;'' (c # s) then CHR ''&'' # html_unescape (drop 4 s)
      else if prefix ''&lt;'' (c # s) then CHR ''<'' # html_unescape (drop 3 s)
      else if prefix ''&gt;'' (c # s) then CHR ''>'' # html_unescape (drop 3 s)
      else if prefix ''&quot;'' (c # s) then CHR 0x22 # html_unescape (drop 5 s)
      else c # html_unescape s)"

definition is_markup :: "char \<Rightarrow> bool" where
  "is_markup c \<longleftrightarrow> c = CHR ''<'' \<or> c = CHR ''>'' \<or> c = CHR 0x22"

lemma html_escape_markup [simp]: "filter is_markup (html_escape s) = []"
  by (induction s rule: html_escape.induct) (auto simp: is_markup_def)

text \<open>
  \<open>html_escape\<close> loses nothing and leaves no markup: its result contains no angle bracket and no
  double quote, and a browser that resolves the character references shows the original bytes.
\<close>

theorem html_escape_faithful:
  "html_unescape (html_escape s) = s
   \<and> list_all (\<lambda>c. c \<noteq> CHR ''<'' \<and> c \<noteq> CHR ''>'' \<and> c \<noteq> CHR 0x22) (html_escape s)"
proof
  show "html_unescape (html_escape s) = s"
    by (induction s rule: html_escape.induct) (auto simp del: html_unescape.simps simp: html_unescape.simps(1,2))
  show "list_all (\<lambda>c. c \<noteq> CHR ''<'' \<and> c \<noteq> CHR ''>'' \<and> c \<noteq> CHR 0x22) (html_escape s)"
    by (induction s rule: html_escape.induct) auto
qed

lemma digits_no_markup [simp]: "filter is_markup (dec_nat n) = []"
proof -
  have "\<not> is_markup c" if "is_digit c" for c using that by (auto simp: is_markup_def is_digit_def)
  then show ?thesis by (auto simp: filter_empty_conv dest: dec_nat_digits)
qed

lemma number_no_markup [simp]:
  "filter is_markup (dec_int i) = []" "filter is_markup (pad2 n) = []" "filter is_markup (one_decimal n d) = []"
  by (simp_all add: dec_int_def pad2_def one_decimal_def Let_def) (simp_all add: is_markup_def)

lemma take_no_markup: "filter is_markup s = [] \<Longrightarrow> filter is_markup (take n s) = []"
  by (auto simp: filter_empty_conv dest: in_set_takeD)

lemma format_no_markup [simp]:
  "filter is_markup (format_size b) = []" "filter is_markup (format_mtime os t) = []"
proof -
  have "filter is_markup (one_decimal n d @ [c]) = []" if "\<not> is_markup c" for n d c using that by simp
  then show "filter is_markup (format_size b) = []"
    by (auto simp: format_size_def is_markup_def intro!: take_no_markup)
  show "filter is_markup (format_mtime os t) = []"
    by (simp add: format_mtime_def split: prod.split) (simp add: is_markup_def)
qed

text \<open>
  No file name can inject markup into a listing: the angle brackets and double quotes of the
  page, in order, depend only on the number of entries (and on whether there is a link to the
  parent), not on the names, their sizes or dates, or the request path.
\<close>

theorem listing_markup_fixed:
  assumes "length es = length es'" "listing_base uri = ''/'' \<longleftrightarrow> listing_base uri' = ''/''"
  shows "filter is_markup (render_listing os uri es) = filter is_markup (render_listing os uri' es')"
proof -
  have line: "filter is_markup (listing_line os e)
      = ''<'' @ [CHR 0x22, CHR 0x22] @ ''><>''" for e
    by (simp add: listing_line_def Let_def) (simp add: is_markup_def)
  have len: "length (sort_entries es) = length es" for es by (simp add: sort_entries_def)
  have lines: "concat (map (\<lambda>e. filter is_markup (listing_line os e)) (sort_entries es))
      = concat (replicate (length es) (''<'' @ [CHR 0x22, CHR 0x22] @ ''><>''))" for es
    by (simp only: line map_replicate_const len)
  have head: "filter is_markup (listing_head b) = filter is_markup (listing_head b')"
    if "b = ''/'' \<longleftrightarrow> b' = ''/''" for b b'
    using that by (simp add: listing_head_def Let_def)
  show ?thesis
    using assms(1) by (simp add: render_listing_def head [OF assms(2)] filter_concat comp_def lines)
qed

theorem listing_markup_fixed_witness:
  "filter is_markup (render_listing idle_os ''/d'' [\<lparr>de_name = ''<script>'', de_is_dir = False, de_size = 1, de_mtime = 0\<rparr>])
   = filter is_markup (render_listing idle_os ''/d'' [\<lparr>de_name = ''a'', de_is_dir = True, de_size = 2, de_mtime = 5\<rparr>])"
  by (rule listing_markup_fixed) simp_all

section \<open>Listings are complete and ordered\<close>

lemma read_entries_names:
  "map de_name (fst (read_entries os dir names k)) = filter (\<lambda>nm. nm \<noteq> ''.'' \<and> nm \<noteq> ''..'') names"
  by (induction os dir names k rule: read_entries.induct)
    (auto simp: Let_def split: prod.splits option.splits)

lemma read_entries_kernel:
  "read_entries os dir names k = (es, k') \<Longrightarrow> k_open k' = k_open k \<and> k_bad_close k' = k_bad_close k"
  by (induction os dir names k arbitrary: es rule: read_entries.induct)
    (auto simp: Let_def sys_stat_def split: prod.splits if_splits)

lemma sort_entries_sorted: "sorted (map order_key (sort_entries es))"
  by (simp add: sort_entries_def)

lemma distinct_map_sort: "distinct (map f es) \<Longrightarrow> distinct (map f (sort_entries es))"
  by (metis mset_map mset_eq_imp_distinct_iff mset_sort sort_entries_def)



section \<open>Descriptors\<close>

lemma first_index_kernel:
  "first_index os cs k = (r, k') \<Longrightarrow> k_open k' = k_open k \<and> k_bad_close k' = k_bad_close k"
  by (induction os cs k rule: first_index.induct) (auto simp: Let_def sys_stat_def split: if_splits prod.splits)

lemma build_listing_kernel:
  "build_listing os uri dir k = (b, k') \<Longrightarrow> k_open k' = k_open k \<and> k_bad_close k' = k_bad_close k"
  by (auto simp: build_listing_def sys_listdir_def split: prod.splits option.splits dest!: read_entries_kernel)

lemma kernel_ok_same: "k_open k' = k_open k \<Longrightarrow> k_bad_close k' = k_bad_close k \<Longrightarrow> kernel_ok k' = kernel_ok k"
  by (simp add: kernel_ok_def)

lemma owned_fd_listing [simp]: "owned_fd (listing_response b) = []"
  by (simp add: listing_response_def owned_fd_def)

lemma serve_directory_index_leaves:
  assumes "kernel_ok k" "serve_directory_index os dir request root k = (Inr r, k')"
  shows "leaves k k' (owned_fd r)"
proof -
  obtain c k1 where i: "first_index os (index_candidates dir request root) k = (c, k1)" by fastforce
  note k1 = first_index_kernel [OF i]
  then have ok: "kernel_ok k1" using assms(1) kernel_ok_same by blast
  show ?thesis
  proof (cases c)
    case None
    with i assms(2) obtain uri body where b: "build_listing os uri dir k1 = (body, k')" "r = listing_response body"
      by (auto simp: serve_directory_index_def Let_def split: prod.splits)
    from build_listing_kernel [OF b(1)] k1 have "leaves k k' []"
      using leaves_same_fds_right [of k' k k] assms(1) by simp
    with b(2) show ?thesis by simp
  next
    case (Some p)
    with i assms(2) have "serve_static_file os p request k1 = (Inr r, k')" by (simp add: serve_directory_index_def)
    from serve_static_file_leaves [OF ok this] show ?thesis using leaves_same_fds k1 by blast
  qed
qed

interpretation directory: fd_handler
  "\<lambda>(dir, request, root) k. Some (serve_directory_index os dir request root k)" owned_fd for os
  by unfold_locales (auto dest: serve_directory_index_leaves)

end
