(* ===== verification/Cgi_Handler.thy ===== *)
theory Cgi_Handler
  imports Static_File Config_File
begin

text \<open>
  \<open>http/handlers/cgi_handler.cpp\<close>: the environment of a script, the pipes, the child, the transfer
  loops with their \<open>EINTR\<close> retries and the \<open>select\<close> deadline, and the translation of the script's
  output into a response. The two loops may run for ever (a script that never stops writing, a pipe
  that never accepts a byte): they are \<open>partial_function (option)\<close>, and \<open>None\<close> is not returning.
\<close>

section \<open>Environment\<close>

definition build_cgi_environment :: "config \<Rightarrow> http_request \<Rightarrow> virtual_host option \<Rightarrow> string option \<Rightarrow> string list" where
  "build_cgi_environment cfg request vhost client_remote_addr =
     (let env0 = header_set ''SERVER_PORT'' (dec_int (cf_listen_port cfg))
            (header_set ''SERVER_PROTOCOL'' ''HTTP/1.1''
              (header_set ''QUERY_STRING'' (snd (split_uri (rq_uri request)))
                (header_set ''REQUEST_METHOD'' (rq_method_str request) [])));
          env1 = (case vhost of Some vh \<Rightarrow> header_set ''SERVER_NAME'' (vh_server_name vh) env0 | None \<Rightarrow> env0);
          env2 = (if rq_method_str request = ''POST''
                  then
                    let env = header_set ''CONTENT_LENGTH'' (dec_nat (length (rq_buffer request))) env1;
                        content_type = get_header (rq_headers request) ''content-type''
                    in if content_type \<noteq> [] then header_set ''CONTENT_TYPE'' content_type env else env
                  else header_set ''CONTENT_TYPE'' [] (header_set ''CONTENT_LENGTH'' ''0'' env1));
          addr = (case client_remote_addr of Some a \<Rightarrow> a | None \<Rightarrow> []);
          env3 = header_set ''REMOTE_HOST'' addr (header_set ''REMOTE_ADDR'' addr env2)
      in map (\<lambda>(key, v). key @ ''='' @ v) env3)"

section \<open>Pipes and the child\<close>

definition setup_cgi_pipes :: "os \<Rightarrow> kernel \<Rightarrow> ((int \<times> int) \<times> (int \<times> int)) option \<times> kernel" where
  "setup_cgi_pipes os k =
     (case sys_pipe os k of
        (None, k1) \<Rightarrow> (None, k1)
      | (Some stdin_pipe, k1) \<Rightarrow>
          (case sys_pipe os k1 of
             (None, k2) \<Rightarrow> (None, sys_close (snd stdin_pipe) (sys_close (fst stdin_pipe) k2))
           | (Some stdout_pipe, k2) \<Rightarrow> (Some (stdin_pipe, stdout_pipe), k2)))"

text \<open>What the child process does: it ends, or becomes the script with a descriptor table and an environment.\<close>

datatype child_action = Child_exit int | Child_exec string "string list" "string list" kernel

definition cgi_child :: "string \<Rightarrow> string list \<Rightarrow> int \<times> int \<Rightarrow> int \<times> int \<Rightarrow> kernel \<Rightarrow> child_action" where
  "cgi_child resolved_path env stdin_pipe stdout_pipe k =
     (let k1 = sys_close (fst stdout_pipe) (sys_close (snd stdin_pipe) k)
      in case sys_dup2 (fst stdin_pipe) 0 k1 of
           (False, _) \<Rightarrow> Child_exit 1
         | (True, k2) \<Rightarrow>
             (case sys_dup2 (snd stdout_pipe) 1 k2 of
                (False, _) \<Rightarrow> Child_exit 1
              | (True, k3) \<Rightarrow>
                  let k4 = sys_close (snd stdout_pipe) (sys_close (fst stdin_pipe) k3)
                  in Child_exec (c_str resolved_path) [c_str resolved_path] env k4))"

section \<open>Transfers\<close>

partial_function (option) write_post_body_to_child ::
  "os \<Rightarrow> int \<Rightarrow> string \<Rightarrow> int \<Rightarrow> kernel \<Rightarrow> (bool \<times> kernel) option" where
  "write_post_body_to_child os stdin_fd body pid k =
     (if body = [] then Some (True, k)
      else (case sys_write os stdin_fd body k of
              (Wrote n, k1) \<Rightarrow> write_post_body_to_child os stdin_fd (drop n body) pid k1
            | (Write_fail e, k1) \<Rightarrow>
                if e = EINTR then write_post_body_to_child os stdin_fd body pid k1
                else Some (False, snd (sys_wait os pid (sys_close stdin_fd k1)))))"

definition kill_child :: "os \<Rightarrow> int \<Rightarrow> kernel \<Rightarrow> kernel" where
  "kill_child os pid k = snd (sys_wait os pid (sys_kill pid k))"

partial_function (option) read_child_output ::
  "os \<Rightarrow> int \<Rightarrow> int \<Rightarrow> string \<Rightarrow> kernel \<Rightarrow> ((bool \<times> string) \<times> kernel) option" where
  "read_child_output os stdout_fd pid cgi_output k =
     (case sys_select os stdout_fd k of
        (Timed_out, k1) \<Rightarrow> Some ((False, []), kill_child os pid k1)
      | (Select_fail e, k1) \<Rightarrow>
          if e = EINTR then read_child_output os stdout_fd pid cgi_output k1
          else Some ((False, []), kill_child os pid k1)
      | (Ready, k1) \<Rightarrow>
          (case sys_read os stdout_fd 4096 k1 of
             (Got s, k2) \<Rightarrow>
               if s = [] then Some ((True, cgi_output), k2)
               else read_child_output os stdout_fd pid (cgi_output @ s) k2
           | (Read_fail e, k2) \<Rightarrow>
               if e = EINTR then read_child_output os stdout_fd pid cgi_output k2
               else Some ((False, []), kill_child os pid k2)))"

definition wait_for_child :: "os \<Rightarrow> int \<Rightarrow> kernel \<Rightarrow> (bool \<times> int) \<times> kernel" where
  "wait_for_child os pid k =
     (case sys_wait os pid k of
        (Wait_fail, k1) \<Rightarrow> ((False, 0), k1)
      | (Exited code, k1) \<Rightarrow> ((code = 0, code), k1)
      | (Signalled s, k1) \<Rightarrow> ((False, 0), k1))"

section \<open>The output of the script\<close>

text \<open>
  \<open>status >> code\<close> followed by \<open>std::getline\<close>: nothing but white space leaves \<open>code\<close>
  uninitialised, no digits make it 0, and a value that does not fit becomes the nearest bound;
  in the last three cases the stream has failed and no message is read.
\<close>

definition scan_status :: "int \<Rightarrow> string \<Rightarrow> int \<times> string" where
  "scan_status garbage s =
     (let r = dropWhile is_space s; (neg, r') = strip_sign r; ds = takeWhile is_digit r';
          i = (if neg then - int (digits_value ds) else int (digits_value ds))
      in if r = [] then (garbage, [])
         else if ds = [] then (0, [])
         else if i < - (2 ^ 31) then (- (2 ^ 31), [])
         else if 2 ^ 31 \<le> i then (2 ^ 31 - 1, [])
         else (i, trim '' '' (drop (length ds) r')))"

definition cgi_header_line :: "int \<Rightarrow> string \<Rightarrow> http_response \<Rightarrow> http_response" where
  "cgi_header_line garbage line0 response =
     (let line = (if line0 \<noteq> [] \<and> last line0 = CR then butlast line0 else line0)
      in if line = [] then response
         else if prefix ''Status: '' line
         then (let (code, message) = scan_status garbage (drop 8 line)
               in response\<lparr>rs_status_code := cast_status code, rs_status_message := message\<rparr>)
         else
           let (name, v) = parse_header_line line False
           in if name = [] then response
              else if name = ''Connection'' \<or> name = ''Transfer-Encoding'' \<or> name = ''Content-Length'' then response
              else set_header name v response)"

definition cgi_separator :: "string \<Rightarrow> (nat \<times> nat) option" where
  "cgi_separator cgi_output =
     (case find_sub (crlf @ crlf) cgi_output of
        Some bl_pos \<Rightarrow> Some (bl_pos, 4)
      | None \<Rightarrow> (case find_sub [LF, LF] cgi_output of Some bl_pos \<Rightarrow> Some (bl_pos, 2) | None \<Rightarrow> None))"

definition parse_cgi_output :: "int \<Rightarrow> string \<Rightarrow> http_response" where
  "parse_cgi_output garbage cgi_output =
     (case cgi_separator cgi_output of
        None \<Rightarrow> mk_response St_InternalServerError
      | Some (bl_pos, sep_length) \<Rightarrow>
          let response0 = (mk_response St_Ok)\<lparr>rs_status_message := ''OK''\<rparr>;
              response = foldl (\<lambda>r line. cgi_header_line garbage line r) response0
                           (getlines LF (substr cgi_output 0 bl_pos))
          in set_header ''Transfer-Encoding'' ''chunked''
               (response\<lparr>rs_body := drop (bl_pos + sep_length) cgi_output\<rparr>))"

section \<open>The handler\<close>

definition cgi_finish :: "os \<Rightarrow> int \<Rightarrow> int \<Rightarrow> kernel \<Rightarrow> (http_response \<times> kernel) option" where
  "cgi_finish os pid stdout_fd k =
     (case read_child_output os stdout_fd pid [] k of
        None \<Rightarrow> None
      | Some ((read_success, cgi_output), k1) \<Rightarrow>
          let k2 = sys_close stdout_fd k1
          in if \<not> read_success then Some (mk_response St_GatewayTimeout, k2)
             else
               let ((wait_success, exit_code), k3) = wait_for_child os pid k2
               in Some (if \<not> wait_success then mk_response St_BadGateway
                        else parse_cgi_output (os_garbage os) cgi_output, k3))"

definition cgi_parent :: "os \<Rightarrow> http_request \<Rightarrow> int \<Rightarrow> int \<times> int \<Rightarrow> int \<times> int \<Rightarrow> kernel \<Rightarrow> (http_response \<times> kernel) option" where
  "cgi_parent os request pid stdin_pipe stdout_pipe k =
     (let k1 = sys_close (snd stdout_pipe) (sys_close (fst stdin_pipe) k)
      in if rq_method_str request = ''POST''
         then (case write_post_body_to_child os (snd stdin_pipe) (rq_buffer request) pid k1 of
                 None \<Rightarrow> None
               | Some (False, k2) \<Rightarrow> Some (mk_response St_InternalServerError, sys_close (fst stdout_pipe) k2)
               | Some (True, k2) \<Rightarrow> cgi_finish os pid (fst stdout_pipe) (sys_close (snd stdin_pipe) k2))
         else cgi_finish os pid (fst stdout_pipe) (sys_close (snd stdin_pipe) k1))"

text \<open>
  \<open>fork\<close> returns 0 in the child, which continues as \<open>cgi_child\<close> and never comes back to the caller.
\<close>

definition run_cgi ::
  "os \<Rightarrow> config \<Rightarrow> string \<Rightarrow> http_request \<Rightarrow> virtual_host option \<Rightarrow> string option \<Rightarrow> kernel
   \<Rightarrow> (http_response \<times> kernel) option" where
  "run_cgi os cfg resolved_path request vhost client_remote_addr k =
     (let env = build_cgi_environment cfg request vhost client_remote_addr
      in case setup_cgi_pipes os k of
           (None, k1) \<Rightarrow> Some (mk_response St_InternalServerError, k1)
         | (Some (stdin_pipe, stdout_pipe), k1) \<Rightarrow>
             let (pid, k2) = sys_fork os (c_str resolved_path, env) k1
             in if pid < 0
                then Some (mk_response St_InternalServerError,
                       sys_close (snd stdout_pipe) (sys_close (fst stdout_pipe)
                         (sys_close (snd stdin_pipe) (sys_close (fst stdin_pipe) k2))))
                else if pid = 0 then None
                else cgi_parent os request pid stdin_pipe stdout_pipe k2)"

section \<open>Framing of script output\<close>

lemma scan_status_no_LF: "LF \<notin> set s \<Longrightarrow> LF \<notin> set (snd (scan_status g s))"
proof -
  assume s: "LF \<notin> set s"
  let ?r = "dropWhile is_space s"
  have "set (snd (strip_sign t)) \<subseteq> set t" for t
    by (cases t) (auto simp: strip_sign_def)
  then have "set (snd (strip_sign ?r)) \<subseteq> set s"
    using set_dropWhileD by (metis subset_code(1))
  then have "LF \<notin> set (trim '' '' (drop n (snd (strip_sign ?r))))" for n
    using s set_trim in_set_dropD by fast
  then show ?thesis by (auto simp: scan_status_def Let_def split: prod.split)
qed

lemma set_header_set: "set (header_set k v h) \<subseteq> insert (k, v) (set h)"
  unfolding header_set_def by (induction h) auto

lemma lf_free_set_header:
  "lf_free r \<Longrightarrow> LF \<notin> set k \<Longrightarrow> LF \<notin> set v \<Longrightarrow> lf_free (set_header k v r)"
  using set_header_set [of k v "rs_headers r"] by (fastforce simp: lf_free_def list_all_iff)

lemma cgi_header_line_lf_free:
  assumes "lf_free r" "LF \<notin> set line0"
  shows "lf_free (cgi_header_line g line0 r)"
proof -
  define line where "line = (if line0 \<noteq> [] \<and> last line0 = CR then butlast line0 else line0)"
  have line: "LF \<notin> set line" using assms(2) by (auto simp: line_def dest: in_set_butlastD)
  obtain n v where nv: "parse_header_line line False = (n, v)" by fastforce
  have "LF \<notin> set n \<and> LF \<notin> set v" if "n \<noteq> []"
    using parse_header_line_parts [OF nv that] line by (metis subsetD)
  moreover have "LF \<notin> set (snd (scan_status g (drop 8 line)))"
    using line by (intro scan_status_no_LF) (auto dest: in_set_dropD)
  ultimately show ?thesis
    using assms(1) unfolding cgi_header_line_def line_def [symmetric]
    by (auto simp: nv Let_def intro: lf_free_set_header split: prod.split) (auto simp: lf_free_def)
qed

lemma cgi_header_lines_lf_free:
  "lf_free r \<Longrightarrow> list_all (\<lambda>l. LF \<notin> set l) ls \<Longrightarrow> lf_free (foldl (\<lambda>r line. cgi_header_line g line r) r ls)"
  by (induction ls arbitrary: r) (auto intro: cgi_header_line_lf_free)

lemma parse_cgi_output_lf_free: "lf_free (parse_cgi_output g out)"
proof (cases "cgi_separator out")
  case None
  then show ?thesis by (simp add: parse_cgi_output_def lf_free_def)
next
  case (Some sep)
  have "list_all (\<lambda>l. LF \<notin> set l) (getlines LF s)" for s
    using getlines_no_delim by (auto simp: list_all_iff)
  then have "lf_free (foldl (\<lambda>r line. cgi_header_line g line r) ((mk_response St_Ok)\<lparr>rs_status_message := ''OK''\<rparr>)
      (getlines LF (substr out 0 (fst sep))))"
    by (intro cgi_header_lines_lf_free) (simp add: lf_free_def)
  then have "lf_free ((foldl (\<lambda>r line. cgi_header_line g line r) ((mk_response St_Ok)\<lparr>rs_status_message := ''OK''\<rparr>)
      (getlines LF (substr out 0 (fst sep))))\<lparr>rs_body := b\<rparr>)" for b
    by (simp add: lf_free_def)
  with Some show ?thesis
    by (cases sep) (simp add: parse_cgi_output_def Let_def lf_free_set_header)
qed

lemma cgi_header_line_fd: "rs_body_fd (cgi_header_line g l r) = rs_body_fd r"
  by (simp add: cgi_header_line_def Let_def split: prod.split)

lemma parse_cgi_output_fd: "rs_body_fd (parse_cgi_output g out) = -1"
proof -
  have "rs_body_fd (foldl (\<lambda>r line. cgi_header_line g line r) r ls) = rs_body_fd r" for r ls
    by (induction ls arbitrary: r) (simp_all add: cgi_header_line_fd)
  then show ?thesis
    by (simp add: parse_cgi_output_def Let_def split: option.split prod.split)
qed

text \<open>The headers that say how a body is framed are the server's own.\<close>

lemma cgi_header_line_framing:
  "header_get (rs_headers r) ''Content-Length'' = None \<Longrightarrow>
   header_get (rs_headers (cgi_header_line g l r)) ''Content-Length'' = None"
  by (auto simp: cgi_header_line_def Let_def split: prod.split)

lemma cgi_header_lines_framing:
  "header_get (rs_headers r) ''Content-Length'' = None \<Longrightarrow>
   header_get (rs_headers (foldl (\<lambda>r line. cgi_header_line g line r) r ls)) ''Content-Length'' = None"
  by (induction ls arbitrary: r) (simp_all add: cgi_header_line_framing)


section \<open>Descriptors and children\<close>

text \<open>The children are accounted for as long as \<open>waitpid\<close> does its work.\<close>

definition waits :: "os \<Rightarrow> bool" where
  "waits os \<longleftrightarrow> (\<forall>n pid. os_wait os n pid \<noteq> Wait_fail)"

lemma sys_pipe_leaves:
  assumes "kernel_ok k" "sys_pipe os k = (Some (r, w), k')"
  shows "leaves k k' [w, r]" "k_children k' = k_children k"
proof -
  obtain r' k1 where a: "alloc_fd (Pipe_read (k_tick k)) (tick k) = (r', k1)" by fastforce
  obtain w' k2 where b: "alloc_fd (Pipe_write (k_tick k)) k1 = (w', k2)" by fastforce
  have e: "r' = r" "w' = w" "k2 = k'"
    using assms(2) a b by (auto simp: sys_pipe_def split: if_splits)
  have l1: "leaves k k1 [r]" using alloc_fd_leaves [OF _ a] assms(1) e by simp
  then have "leaves k1 k' [w]" using alloc_fd_leaves [OF leaves_ok b] e by blast
  from leaves_trans [OF l1 this] show "leaves k k' [w, r]" by (auto simp: leaves_def)
  show "k_children k' = k_children k" using a b e by (auto simp: alloc_fd_def Let_def)
qed

lemma sys_pipe_none: "sys_pipe os k = (None, k') \<Longrightarrow> k' = tick k"
  by (auto simp: sys_pipe_def split: if_splits prod.splits)

lemma sys_close_children [simp]: "k_children (sys_close fd k) = k_children k"
  by (simp add: sys_close_def)

lemma setup_cgi_pipes_none:
  assumes "kernel_ok k" "setup_cgi_pipes os k = (None, k')"
  shows "leaves k k' [] \<and> k_children k' = k_children k"
proof (cases "sys_pipe os k")
  case (Pair p k1)
  show ?thesis
  proof (cases p)
    case None
    with Pair assms show ?thesis by (auto simp: setup_cgi_pipes_def dest!: sys_pipe_none)
  next
    case (Some rw)
    then obtain r w where rw: "p = Some (r, w)" by (cases rw) auto
    note l = sys_pipe_leaves [OF assms(1) Pair [unfolded rw]]
    from assms(2) Pair rw obtain k2 where k2: "sys_pipe os k1 = (None, k2)" "k' = sys_close w (sys_close r k2)"
      by (auto simp: setup_cgi_pipes_def split: prod.splits option.splits)
    have "leaves k (sys_close r k2) (remove1 r [w, r])"
      using l(1) sys_pipe_none [OF k2(1)] by (intro sys_close_leaves) auto
    moreover have "remove1 r [w, r] = [w]" using l(1) by (auto simp: leaves_def)
    ultimately have "leaves k (sys_close w (sys_close r k2)) (remove1 w [w])"
      by (intro sys_close_leaves) auto
    then show ?thesis using k2 sys_pipe_none [OF k2(1)] l(2) by simp
  qed
qed

lemma setup_cgi_pipes_some:
  assumes "kernel_ok k" "setup_cgi_pipes os k = (Some ((ir, iw), (pr, pw)), k')"
  shows "leaves k k' [pw, pr, iw, ir] \<and> k_children k' = k_children k"
proof -
  from assms(2) obtain k1 where k1: "sys_pipe os k = (Some (ir, iw), k1)" "sys_pipe os k1 = (Some (pr, pw), k')"
    by (auto simp: setup_cgi_pipes_def split: prod.splits option.splits)
  note l1 = sys_pipe_leaves [OF assms(1) k1(1)]
  note l2 = sys_pipe_leaves [OF leaves_ok [OF l1(1)] k1(2)]
  from leaves_trans [OF l1(1) l2(1)] have "leaves k k' [pw, pr, iw, ir]"
    by (auto simp: leaves_def)
  with l1(2) l2(2) show ?thesis by simp
qed

text \<open>What the two loops do to descriptors and children, when they return.\<close>

lemma sys_wait_effect:
  assumes "waits os" "sys_wait os pid k = (r, k')"
  shows "k_open k' = k_open k" "k_bad_close k' = k_bad_close k" "k_children k' = remove1 pid (k_children k)"
    "r \<noteq> Wait_fail"
  using assms by (auto simp: sys_wait_def waits_def Let_def split: if_splits)

lemma kill_child_effect:
  assumes "waits os"
  shows "k_open (kill_child os pid k) = k_open k" "k_bad_close (kill_child os pid k) = k_bad_close k"
    "k_children (kill_child os pid k) = remove1 pid (k_children k)"
  using assms by (auto simp: kill_child_def sys_kill_def sys_wait_def waits_def Let_def)

definition same_fds :: "kernel \<Rightarrow> kernel \<Rightarrow> bool" where
  "same_fds k k' \<longleftrightarrow> k_open k' = k_open k \<and> k_bad_close k' = k_bad_close k"

lemma same_fds_calls:
  "sys_write os fd s k = (r, k') \<Longrightarrow> same_fds k k' \<and> k_children k' = k_children k \<and> k_tick k' = Suc (k_tick k)"
  "sys_read os fd n k = (r', k') \<Longrightarrow> same_fds k k' \<and> k_children k' = k_children k \<and> k_tick k' = Suc (k_tick k)"
  "sys_select os fd k = (r'', k') \<Longrightarrow> same_fds k k' \<and> k_children k' = k_children k \<and> k_tick k' = Suc (k_tick k)"
  by (auto simp: sys_write_def sys_read_def sys_select_def same_fds_def split: io_write.splits io_read.splits)

lemma same_fds_leaves: "same_fds k k' \<Longrightarrow> leaves k0 k' fds = leaves k0 k fds"
  unfolding same_fds_def by (rule leaves_same_fds_right) auto

definition write_effect :: "int \<Rightarrow> int \<Rightarrow> kernel \<Rightarrow> bool \<times> kernel \<Rightarrow> bool" where
  "write_effect fd pid k res \<longleftrightarrow>
     (if fst res then same_fds k (snd res) \<and> k_children (snd res) = k_children k
      else same_fds (sys_close fd k) (snd res) \<and> k_children (snd res) = remove1 pid (k_children k))"

lemma write_effect_step:
  "same_fds k k1 \<Longrightarrow> k_children k1 = k_children k \<Longrightarrow> write_effect fd pid k1 res \<Longrightarrow> write_effect fd pid k res"
  by (simp add: write_effect_def same_fds_def sys_close_def split: if_splits)

lemma write_post_body_effect:
  assumes w: "waits os" and ret: "write_post_body_to_child os fd body pid k = Some res"
  shows "write_effect fd pid k res"
proof (rule mp [OF write_post_body_to_child.raw_induct
    [where P = "\<lambda>o' f b p k res. waits o' \<longrightarrow> write_effect f p k res", OF _ ret] w], rule impI)
  fix f os fd' b p k' res'
  assume IH: "\<And>o' fd b p k res. f o' fd b p k = Some res \<Longrightarrow> waits o' \<longrightarrow> write_effect fd p k res"
    and eq: "(if b = [] then Some (True, k')
      else (case sys_write os fd' b k' of
              (Wrote n, k1) \<Rightarrow> f os fd' (drop n b) p k1
            | (Write_fail e, k1) \<Rightarrow>
                if e = EINTR then f os fd' b p k1
                else Some (False, snd (sys_wait os p (sys_close fd' k1))))) = Some res'"
    and w: "waits os"
  obtain r k1 where wr: "sys_write os fd' b k' = (r, k1)" by fastforce
  note s = same_fds_calls(1) [OF wr]
  show "write_effect fd' p k' res'"
  proof (cases "b = []")
    case True
    with eq show ?thesis by (auto simp: write_effect_def same_fds_def)
  next
    case False
    show ?thesis
    proof (cases "\<exists>e. r = Write_fail e \<and> e \<noteq> EINTR")
      case True
      obtain q k2 where q: "sys_wait os p (sys_close fd' k1) = (q, k2)" by fastforce
      with True False eq wr have "res' = (False, k2)" by auto
      with sys_wait_effect [OF w q] s show ?thesis by (auto simp: write_effect_def same_fds_def sys_close_def)
    next
      case retry: False
      then obtain b' where "f os fd' b' p k1 = Some res'"
        using False eq wr by (cases r) (auto split: if_splits)
      with IH w s write_effect_step show ?thesis by blast
    qed
  qed
qed

definition read_effect :: "int \<Rightarrow> kernel \<Rightarrow> (bool \<times> string) \<times> kernel \<Rightarrow> bool" where
  "read_effect pid k res \<longleftrightarrow> same_fds k (snd res)
     \<and> k_children (snd res) = (if fst (fst res) then k_children k else remove1 pid (k_children k))"

lemma read_effect_step:
  "same_fds k k1 \<Longrightarrow> k_children k1 = k_children k \<Longrightarrow> read_effect pid k1 res \<Longrightarrow> read_effect pid k res"
  by (simp add: read_effect_def same_fds_def)

lemma read_effect_kill:
  assumes "waits os" "same_fds k k1" "k_children k1 = k_children k"
  shows "read_effect pid k ((False, []), kill_child os pid k1)"
  using assms kill_child_effect [OF assms(1), of pid k1] by (simp add: read_effect_def same_fds_def)

lemma same_fds_trans: "same_fds k k1 \<Longrightarrow> same_fds k1 k2 \<Longrightarrow> same_fds k k2"
  by (simp add: same_fds_def)

lemma read_child_output_effect:
  assumes w: "waits os" and ret: "read_child_output os fd pid acc k = Some res"
  shows "read_effect pid k res"
proof (rule mp [OF read_child_output.raw_induct
    [where P = "\<lambda>o' f p a k res. waits o' \<longrightarrow> read_effect p k res", OF _ ret] w], rule impI)
  fix f os fd' p a k' res'
  assume IH: "\<And>o' fd p a k res. f o' fd p a k = Some res \<Longrightarrow> waits o' \<longrightarrow> read_effect p k res"
    and eq: "(case sys_select os fd' k' of
        (Ready, k1) \<Rightarrow>
          (case sys_read os fd' 4096 k1 of
             (Got s, k2) \<Rightarrow> if s = [] then Some ((True, a), k2) else f os fd' p (a @ s) k2
           | (Read_fail e, k2) \<Rightarrow>
               if e = EINTR then f os fd' p a k2 else Some ((False, []), kill_child os p k2))
      | (Timed_out, k1) \<Rightarrow> Some ((False, []), kill_child os p k1)
      | (Select_fail e, k1) \<Rightarrow>
          if e = EINTR then f os fd' p a k1 else Some ((False, []), kill_child os p k1)) = Some res'"
    and w: "waits os"
  obtain r k1 where se: "sys_select os fd' k' = (r, k1)" by fastforce
  obtain q k2 where re: "sys_read os fd' 4096 k1 = (q, k2)" by fastforce
  note s1 = same_fds_calls(3) [OF se]
  have s2: "same_fds k' k2" "k_children k2 = k_children k'"
    using s1 same_fds_calls(2) [OF re] same_fds_trans by (blast, simp)
  note kill = read_effect_kill [OF w]
  show "read_effect p k' res'"
  proof (cases r)
    case Ready
    show ?thesis
    proof (cases q)
      case (Got s)
      show ?thesis
      proof (cases "s = []")
        case True
        with eq se re Ready Got s2 show ?thesis by (auto simp: read_effect_def)
      next
        case False
        with eq se re Ready Got have "f os fd' p (a @ s) k2 = Some res'" by simp
        with IH w s2 read_effect_step show ?thesis by blast
      qed
    next
      case (Read_fail e)
      show ?thesis
      proof (cases "e = EINTR")
        case True
        with eq se re Ready Read_fail have "f os fd' p a k2 = Some res'" by simp
        with IH w s2 read_effect_step show ?thesis by blast
      next
        case False
        with eq se re Ready Read_fail kill [OF s2] show ?thesis by auto
      qed
    qed
  next
    case Timed_out
    with eq se s1 kill show ?thesis by auto
  next
    case (Select_fail e)
    show ?thesis
    proof (cases "e = EINTR")
      case True
      with eq se Select_fail have "f os fd' p a k1 = Some res'" by simp
      with IH w s1 read_effect_step show ?thesis by blast
    next
      case False
      with eq se Select_fail s1 kill show ?thesis by auto
    qed
  qed
qed

lemma wait_for_child_effect:
  assumes "waits os" "wait_for_child os pid k = (r, k')"
  shows "same_fds k k'" "k_children k' = remove1 pid (k_children k)"
proof -
  obtain q k1 where q: "sys_wait os pid k = (q, k1)" by fastforce
  note e = sys_wait_effect [OF assms(1) q]
  with assms(2) q have "k' = k1" by (cases q) (auto simp: wait_for_child_def)
  with e show "same_fds k k'" "k_children k' = remove1 pid (k_children k)" by (simp_all add: same_fds_def)
qed

text \<open>
  \<open>accounts k0 k pid fds\<close>: since \<open>k0\<close>, the descriptors \<open>fds\<close> have been opened and the child \<open>pid\<close>
  started, and nothing else is left over.
\<close>

definition accounts :: "kernel \<Rightarrow> kernel \<Rightarrow> int \<Rightarrow> int list \<Rightarrow> bool" where
  "accounts k0 k pid fds \<longleftrightarrow> leaves k0 k fds \<and> k_children k = pid # k_children k0"

definition settled_up :: "kernel \<Rightarrow> kernel \<Rightarrow> bool" where
  "settled_up k0 k \<longleftrightarrow> leaves k0 k [] \<and> k_children k = k_children k0"

lemma accounts_close:
  "accounts k0 k pid fds \<Longrightarrow> fd \<in> set fds \<Longrightarrow> accounts k0 (sys_close fd k) pid (remove1 fd fds)"
  by (simp add: accounts_def sys_close_leaves)

lemma accounts_same: "accounts k0 k pid fds \<Longrightarrow> same_fds k k' \<Longrightarrow> k_children k' = k_children k \<Longrightarrow> accounts k0 k' pid fds"
  by (simp add: accounts_def same_fds_leaves)

lemma accounts_distinct: "accounts k0 k pid fds \<Longrightarrow> distinct fds"
  by (simp add: accounts_def leaves_def)

lemma settled_close:
  assumes "leaves k0 k [fd]" "k_children k = k_children k0"
  shows "settled_up k0 (sys_close fd k)"
  using sys_close_leaves [OF assms(1), of fd] assms(2) by (simp add: settled_up_def)

lemma cgi_finish_effect:
  assumes "waits os" "accounts k0 k pid [fd]" "cgi_finish os pid fd k = Some (r, k')"
  shows "settled_up k0 k' \<and> rs_body_fd r = -1"
proof -
  from assms(3) obtain ok out k1 where rd: "read_child_output os fd pid [] k = Some ((ok, out), k1)"
    by (auto simp: cgi_finish_def split: option.splits prod.splits)
  note e = read_child_output_effect [OF assms(1) rd]
  have l: "leaves k0 k1 [fd]"
    using e assms(2) same_fds_leaves [of k k1] by (simp add: read_effect_def accounts_def)
  show ?thesis
  proof (cases ok)
    case False
    with e assms(2) have "k_children k1 = k_children k0" by (simp add: read_effect_def accounts_def)
    from settled_close [OF l this] False assms(3) rd show ?thesis by (auto simp: cgi_finish_def)
  next
    case True
    obtain res k3 where wt: "wait_for_child os pid (sys_close fd k1) = (res, k3)" by fastforce
    have c: "accounts k0 k1 pid [fd]" using True e assms(2) l by (simp add: read_effect_def accounts_def)
    from accounts_close [OF c, of fd] have "accounts k0 (sys_close fd k1) pid []" by simp
    then have "settled_up k0 k3"
      using wait_for_child_effect [OF assms(1) wt] by (simp add: accounts_def settled_up_def same_fds_leaves)
    with True assms(3) rd wt show ?thesis
      by (auto simp: cgi_finish_def parse_cgi_output_fd split: prod.splits)
  qed
qed

lemma cgi_parent_effect:
  assumes "waits os" "accounts k0 k pid [pw, pr, iw, ir]" "cgi_parent os request pid (ir, iw) (pr, pw) k = Some (r, k')"
  shows "settled_up k0 k' \<and> rs_body_fd r = -1"
proof -
  define k1 where "k1 = sys_close pw (sys_close ir k)"
  have d: "distinct [pw, pr, iw, ir]" using accounts_distinct [OF assms(2)] .
  have c1: "accounts k0 k1 pid [pr, iw]"
    using accounts_close [OF accounts_close [OF assms(2), of ir], of pw] d by (auto simp: k1_def)
  have next_step: "settled_up k0 k' \<and> rs_body_fd r = -1"
    if "cgi_finish os pid pr (sys_close iw k2) = Some (r, k')" "accounts k0 k2 pid [pr, iw]" for k2
    using cgi_finish_effect [OF assms(1) _ that(1)] accounts_close [OF that(2), of iw] d by auto
  show ?thesis
  proof (cases "rq_method_str request = ''POST''")
    case False
    with assms(3) c1 next_step show ?thesis by (simp add: cgi_parent_def k1_def)
  next
    case True
    with assms(3) obtain ok k2 where
      wr: "write_post_body_to_child os iw (rq_buffer request) pid k1 = Some (ok, k2)"
      by (auto simp: cgi_parent_def k1_def split: option.splits prod.splits)
    note e = write_post_body_effect [OF assms(1) wr]
    show ?thesis
    proof (cases ok)
      case ok: True
      with e c1 have "accounts k0 k2 pid [pr, iw]" by (auto simp: write_effect_def intro: accounts_same)
      with ok True assms(3) wr next_step show ?thesis by (simp add: cgi_parent_def k1_def)
    next
      case False
      with e have "same_fds (sys_close iw k1) k2" "k_children k2 = remove1 pid (k_children k1)"
        by (simp_all add: write_effect_def)
      moreover have "accounts k0 (sys_close iw k1) pid [pr]" using accounts_close [OF c1, of iw] d by auto
      ultimately have "leaves k0 k2 [pr]" "k_children k2 = k_children k0"
        by (simp_all add: accounts_def same_fds_leaves)
      from settled_close [OF this] False True assms(3) wr show ?thesis by (auto simp: cgi_parent_def k1_def)
    qed
  qed
qed

lemma run_cgi_effect:
  assumes "waits os" "kernel_ok k" "run_cgi os cfg path request vh addr k = Some (r, k')"
  shows "settled_up k k' \<and> rs_body_fd r = -1"
proof -
  obtain p k1 where p: "setup_cgi_pipes os k = (p, k1)" by fastforce
  show ?thesis
  proof (cases p)
    case None
    with p assms(3) setup_cgi_pipes_none [OF assms(2)] show ?thesis
      by (auto simp: run_cgi_def settled_up_def)
  next
    case (Some q)
    obtain ir iw pr pw where q: "q = ((ir, iw), (pr, pw))" by (cases q) auto
    note l = setup_cgi_pipes_some [OF assms(2) p [unfolded Some q]]
    obtain pid k2 where f: "sys_fork os (c_str path, build_cgi_environment cfg request vh addr) k1 = (pid, k2)"
      by fastforce
    have s: "same_fds k1 k2" using f by (auto simp: sys_fork_def same_fds_def Let_def split: if_splits)
    then have l2: "leaves k k2 [pw, pr, iw, ir]" using l same_fds_leaves by blast
    have d: "distinct [pw, pr, iw, ir]" using l by (simp add: leaves_def)
    consider "pid < 0" | "pid = 0" | "0 < pid" by linarith
    then show ?thesis
    proof cases
      case 1
      then have ch: "k_children k2 = k_children k" using f l by (auto simp: sys_fork_def Let_def)
      have "leaves k (sys_close pw (sys_close pr (sys_close iw (sys_close ir k2)))) []"
        using sys_close_leaves [OF sys_close_leaves [OF sys_close_leaves [OF sys_close_leaves [OF l2, of ir], of iw], of pr], of pw] d
        by auto
      with 1 ch assms(3) p Some q f show ?thesis by (auto simp: run_cgi_def settled_up_def)
    next
      case 2
      with assms(3) p Some q f show ?thesis by (simp add: run_cgi_def)
    next
      case 3
      with f l l2 have "accounts k k2 pid [pw, pr, iw, ir]" by (auto simp: sys_fork_def Let_def accounts_def)
      from cgi_parent_effect [OF assms(1) this] 3 assms(3) p Some q f show ?thesis
        by (simp add: run_cgi_def)
    qed
  qed
qed

interpretation cgi: fd_handler
  "\<lambda>(path, request, vh, addr) k.
     if waits os then map_option (\<lambda>(r, k'). (Inr r, k')) (run_cgi os cfg path request vh addr k) else None"
  owned_fd for os cfg
  by unfold_locales
    (auto simp: owned_fd_def settled_up_def dest!: run_cgi_effect split: if_splits prod.splits)

text \<open>
  C27: a CGI request cleans up after itself on every path it returns by (a pipe or \<open>fork\<close> that
  fails, a script that closes its input, a time-out, a read error, a bad exit status, a good one):
  the descriptors are exactly those from before, none is closed twice, and the child has been waited
  for, so no zombie is left.
\<close>

theorem cgi_cleans_up:
  assumes "waits os" "kernel_ok k" "run_cgi os cfg path request vh addr k = Some (r, k')"
  shows "kernel_ok k' \<and> set (k_fds k') = set (k_fds k) \<and> k_children k' = k_children k \<and> rs_body_fd r = -1"
  using run_cgi_effect [OF assms] by (simp add: settled_up_def leaves_def)

section \<open>Termination\<close>

text \<open>
  From some time on the script is gone or its pipes are broken: calls are no longer interrupted,
  reading its output finds the end (or an error), and writing to it makes progress or fails.
\<close>

definition script_ends :: "os \<Rightarrow> nat \<Rightarrow> bool" where
  "script_ends os T \<longleftrightarrow> (\<forall>n \<ge> T. \<forall>fd.
     os_select os n fd \<noteq> Select_fail EINTR
     \<and> (os_read os n fd = Got [] \<or> (\<exists>e. os_read os n fd = Read_fail e \<and> e \<noteq> EINTR))
     \<and> os_write os n fd \<noteq> Wrote 0 \<and> os_write os n fd \<noteq> Write_fail EINTR)"

lemma script_ends_write:
  assumes "script_ends os T" "T \<le> n"
  shows "os_write os n fd \<noteq> Wrote 0" "os_write os n fd \<noteq> Write_fail EINTR"
  using assms by (auto simp: script_ends_def)

lemma write_returns:
  assumes "script_ends os T"
  shows "\<exists>res. write_post_body_to_child os fd body pid k = Some res"
proof (induction "T - k_tick k + length body" arbitrary: body k rule: less_induct)
  case less
  obtain r k1 where wr: "sys_write os fd body k = (r, k1)" by fastforce
  have t: "k_tick k1 = Suc (k_tick k)" using same_fds_calls(1) [OF wr] by simp
  have again: "\<exists>res. write_post_body_to_child os fd b pid k1 = Some res"
    if "length b \<le> length body" "k_tick k < T \<or> length b < length body" for b
    using that t by (intro less) auto
  show ?case
  proof (cases "body = []")
    case True
    then have "write_post_body_to_child os fd body pid k = Some (True, k)"
      by (simp add: write_post_body_to_child.simps)
    then show ?thesis by blast
  next
    case False
    show ?thesis
    proof (cases r)
      case (Wrote n)
      have "k_tick k < T \<or> n \<noteq> 0"
        using wr Wrote False script_ends_write [OF assms, of "k_tick k" fd]
        by (cases "T \<le> k_tick k") (auto simp: sys_write_def min_def split: io_write.splits if_splits)
      with again [of "drop n body"] False wr Wrote show ?thesis
        by (subst write_post_body_to_child.simps) auto
    next
      case (Write_fail e)
      have "k_tick k < T \<or> e \<noteq> EINTR"
        using wr Write_fail script_ends_write [OF assms, of "k_tick k" fd]
        by (cases "T \<le> k_tick k") (auto simp: sys_write_def split: io_write.splits)
      with again [of body] wr Write_fail False show ?thesis
        by (subst write_post_body_to_child.simps) auto
    qed
  qed
qed

lemma read_returns:
  assumes "script_ends os T"
  shows "\<exists>res. read_child_output os fd pid acc k = Some res"
proof (induction "T - k_tick k" arbitrary: acc k rule: less_induct)
  case less
  obtain r k1 where se: "sys_select os fd k = (r, k1)" by fastforce
  obtain q k2 where re: "sys_read os fd 4096 k1 = (q, k2)" by fastforce
  have t: "k_tick k1 = Suc (k_tick k)" "k_tick k2 = Suc (Suc (k_tick k))"
    using same_fds_calls(3) [OF se] same_fds_calls(2) [OF re] by simp_all
  have again: "\<exists>res. read_child_output os fd pid a k' = Some res"
    if "k_tick k < T" "k' = k1 \<or> k' = k2" for a k'
    using that t by (intro less) auto
  show ?case
  proof (cases "k_tick k < T")
    case True
    show ?thesis
      using again [OF True, of k1] again [OF True, of k2] se re
      by (subst read_child_output.simps) (auto split: select_result.split io_read.split)
  next
    case False
    then have late: "T \<le> k_tick k" "T \<le> k_tick k1" using t by simp_all
    then have "os_read os (k_tick k1) fd = Got [] \<or> (\<exists>e. os_read os (k_tick k1) fd = Read_fail e \<and> e \<noteq> EINTR)"
      "os_select os (k_tick k) fd \<noteq> Select_fail EINTR"
      using assms unfolding script_ends_def by blast+
    then have "r \<noteq> Select_fail EINTR" "q = Got [] \<or> (\<exists>e. q = Read_fail e \<and> e \<noteq> EINTR)"
      using se re by (auto simp: sys_select_def sys_read_def split: io_read.splits)
    then show ?thesis
      using se re by (subst read_child_output.simps) (auto split: select_result.split io_read.split)
  qed
qed

lemma run_cgi_terminates:
  assumes "script_ends os T" "\<And>n. os_fork os n \<noteq> 0"
  shows "\<exists>r k'. run_cgi os cfg path request vh addr k = Some (r, k')"
proof -
  have finish: "\<exists>r k'. cgi_finish os pid fd k = Some (r, k')" for pid fd k
  proof -
    obtain ok out k1 where "read_child_output os fd pid [] k = Some ((ok, out), k1)"
      using read_returns [OF assms(1), of fd pid "[]" k] by (metis prod.exhaust)
    then show ?thesis by (auto simp: cgi_finish_def Let_def split: prod.split)
  qed
  have parent: "\<exists>r k'. cgi_parent os request pid ip op k = Some (r, k')" for pid ip op k
  proof -
    obtain ok k2 where "write_post_body_to_child os (snd ip) (rq_buffer request) pid
        (sys_close (snd op) (sys_close (fst ip) k)) = Some (ok, k2)"
      using write_returns [OF assms(1)] by (metis prod.exhaust)
    with finish show ?thesis by (cases ok) (auto simp: cgi_parent_def Let_def)
  qed
  show ?thesis
    using parent assms(2) by (auto simp: run_cgi_def sys_fork_def Let_def split: prod.split option.split)
qed

text \<open>
  A CGI request is answered: when the script ends at some time, whatever it did before (however
  often calls were interrupted, however the transfers were cut up), \<open>run_cgi\<close> returns to the caller.
\<close>

theorem run_cgi_returns:
  assumes "script_ends os T" "\<And>n. os_fork os n \<noteq> 0"
  shows "\<exists>r k'. run_cgi os cfg path request vh addr k = Some (r, k')"
  using assms by (rule run_cgi_terminates)

lemma idle_script: "script_ends idle_os 0" "waits idle_os" "os_fork idle_os n \<noteq> 0"
  by (simp_all add: script_ends_def waits_def idle_os_def)

theorem run_cgi_returns_witness:
  "\<exists>r k'. run_cgi idle_os default_config ''/srv/a.cgi'' (empty_request\<lparr>rq_method_str := ''POST'', rq_buffer := ''x=1''\<rparr>)
     None None init_kernel = Some (r, k')"
  by (rule run_cgi_returns [OF idle_script(1)]) (rule idle_script(3))

theorem cgi_cleans_up_witness:
  "\<exists>r k'. run_cgi idle_os default_config ''/srv/a.cgi'' empty_request None None init_kernel = Some (r, k')
     \<and> set (k_fds k') = {0, 1, 2} \<and> k_children k' = []"
proof -
  obtain r k' where r: "run_cgi idle_os default_config ''/srv/a.cgi'' empty_request None None init_kernel = Some (r, k')"
    using run_cgi_terminates [OF idle_script(1,3)] by blast
  from cgi_cleans_up [OF idle_script(2) init_kernel_ok r] r show ?thesis
    by (auto simp: init_kernel_def)
qed

section \<open>The child\<close>

lemma map_of_filter_key: "map_of (filter (\<lambda>e. fst e \<noteq> a) xs) b = (if b = a then None else map_of xs b)"
  by (induction xs) auto

lemma map_of_close: "map_of (k_open (sys_close a k)) b = (if b = a then None else map_of (k_open k) b)"
  by (simp add: sys_close_def map_of_filter_key)

lemma sys_dup2_open:
  assumes "map_of (k_open k) fd = Some d" "sys_dup2 fd fd' k = (ok, k')"
  shows "ok" "map_of (k_open k') b = (if b = fd' then Some d else map_of (k_open k) b)"
  using assms by (auto simp: sys_dup2_def map_of_filter_key split: option.splits)

lemma sys_pipe_open:
  assumes "sys_pipe os k = (Some (r, w), k')"
  shows "map_of (k_open k') b = (if b = w then Some (Pipe_write (k_tick k))
      else if b = r then Some (Pipe_read (k_tick k)) else map_of (k_open k) b)"
    "r \<notin> set (k_fds k)" "w \<notin> set (k_fds k)" "w \<noteq> r" "k_tick k' = Suc (k_tick k)"
proof -
  obtain r' k1 where a: "alloc_fd (Pipe_read (k_tick k)) (tick k) = (r', k1)" by fastforce
  obtain w' k2 where b: "alloc_fd (Pipe_write (k_tick k)) k1 = (w', k2)" by fastforce
  have e: "r' = r" "w' = w" "k2 = k'"
    using assms a b by (auto simp: sys_pipe_def split: if_splits)
  show "r \<notin> set (k_fds k)" using a e fresh_fd(1) [of "k_fds k"] by (auto simp: alloc_fd_def Let_def simp del: set_map)
  have k1: "k_open k1 = (r, Pipe_read (k_tick k)) # k_open k" using a e by (auto simp: alloc_fd_def Let_def)
  have "w \<notin> set (k_fds k1)" using b e fresh_fd(1) [of "k_fds k1"] by (auto simp: alloc_fd_def Let_def simp del: set_map)
  then show "w \<notin> set (k_fds k)" "w \<noteq> r" using k1 by auto
  have "k_open k' = (w, Pipe_write (k_tick k)) # k_open k1" using b e by (auto simp: alloc_fd_def Let_def)
  then show "map_of (k_open k') b = (if b = w then Some (Pipe_write (k_tick k))
      else if b = r then Some (Pipe_read (k_tick k)) else map_of (k_open k) b)"
    using k1 by simp
  show "k_tick k' = Suc (k_tick k)" using a b e by (auto simp: alloc_fd_def Let_def)
qed

text \<open>
  The script runs with its standard input on the reading end of the first pipe and its standard
  output on the writing end of the second, with the environment built for the request, and with no
  other pipe end of this request. Every other descriptor of the server stays open in the script:
  none is marked close-on-exec, so client sockets and the pipes of concurrent requests leak into it.
\<close>

theorem cgi_child_descriptors:
  assumes "setup_cgi_pipes os k = (Some (stdin_pipe, stdout_pipe), k1)" "0 \<in> set (k_fds k)" "1 \<in> set (k_fds k)"
  shows "\<exists>k'. cgi_child path env stdin_pipe stdout_pipe k1 = Child_exec (c_str path) [c_str path] env k'
    \<and> map_of (k_open k') 0 = Some (Pipe_read (k_tick k))
    \<and> map_of (k_open k') 1 = Some (Pipe_write (Suc (k_tick k)))
    \<and> (\<forall>fd. fd \<noteq> 0 \<and> fd \<noteq> 1 \<longrightarrow> map_of (k_open k') fd = map_of (k_open k) fd)"
proof -
  obtain ir iw pr pw where p: "stdin_pipe = (ir, iw)" "stdout_pipe = (pr, pw)" by (cases stdin_pipe, cases stdout_pipe) auto
  obtain k0 where k0: "sys_pipe os k = (Some (ir, iw), k0)" "sys_pipe os k0 = (Some (pr, pw), k1)"
    using assms(1) p by (auto simp: setup_cgi_pipes_def split: prod.splits option.splits)
  note a = sys_pipe_open [OF k0(1)] and b = sys_pipe_open [OF k0(2)]
  have fds0: "x \<in> set (k_fds q) \<longleftrightarrow> map_of (k_open q) x \<noteq> None" for x q
    by (simp add: map_of_eq_None_iff)
  have new: "pr \<noteq> ir" "pr \<noteq> iw" "pw \<noteq> ir" "pw \<noteq> iw" "iw \<noteq> ir" "pw \<noteq> pr"
    using a b by (auto simp: fds0 simp del: set_map split: if_splits)
  have std: "x \<noteq> 0" "x \<noteq> 1" if "x \<in> {ir, iw, pr, pw}" for x
    using that a b assms(2,3) by (auto simp: fds0 simp del: set_map split: if_splits)
  define c1 where "c1 = sys_close pr (sys_close iw k1)"
  have c1: "map_of (k_open c1) x = (if x = pr \<or> x = iw then None else map_of (k_open k1) x)" for x
    by (simp add: c1_def map_of_close)
  have ir: "map_of (k_open c1) ir = Some (Pipe_read (k_tick k))" using a(1) b(1) new by (auto simp: c1)
  obtain ok2 c2 where d2: "sys_dup2 ir 0 c1 = (ok2, c2)" by fastforce
  note c2 = sys_dup2_open [OF ir d2]
  have pw: "map_of (k_open c2) pw = Some (Pipe_write (Suc (k_tick k)))"
    using a(5) b(1) new std c2(2) by (auto simp: c1)
  obtain ok3 c3 where d3: "sys_dup2 pw 1 c2 = (ok3, c3)" by fastforce
  note c3 = sys_dup2_open [OF pw d3]
  define c4 where "c4 = sys_close pw (sys_close ir c3)"
  have child: "cgi_child path env stdin_pipe stdout_pipe k1 = Child_exec (c_str path) [c_str path] env c4"
    using c2(1) c3(1) d2 d3 by (simp add: cgi_child_def p c1_def [symmetric] c4_def Let_def)
  have c4: "map_of (k_open c4) x = (if x = 1 then Some (Pipe_write (Suc (k_tick k)))
      else if x = 0 then Some (Pipe_read (k_tick k)) else map_of (k_open k) x)" for x
  proof (cases "x \<in> {ir, iw, pr, pw}")
    case True
    moreover have "map_of (k_open k) x = None"
      using True a b by (auto simp: fds0 simp del: set_map split: if_splits)
    ultimately show ?thesis
      using std [OF True] new by (auto simp: c4_def map_of_close c3(2) c2(2) c1)
  next
    case False
    then show ?thesis
      using std by (auto simp: c4_def map_of_close c3(2) c2(2) c1 a(1) b(1))
  qed
  show ?thesis using child c4 by auto
qed

theorem cgi_child_descriptors_witness:
  "\<exists>ip op k1 k'. setup_cgi_pipes idle_os init_kernel = (Some (ip, op), k1)
     \<and> cgi_child ''/srv/a.cgi'' [''A=1''] ip op k1 = Child_exec (c_str ''/srv/a.cgi'') [c_str ''/srv/a.cgi''] [''A=1''] k'
     \<and> map_of (k_open k') 0 = Some (Pipe_read 0) \<and> map_of (k_open k') 1 = Some (Pipe_write 1)
     \<and> map_of (k_open k') 2 = Some (Regular ''stderr'')"
proof -
  have "\<exists>q k1. setup_cgi_pipes idle_os init_kernel = (Some q, k1)"
    by (auto simp: setup_cgi_pipes_def sys_pipe_def alloc_fd_def idle_os_def Let_def)
  then obtain ip op k1 where p: "setup_cgi_pipes idle_os init_kernel = (Some (ip, op), k1)" by (metis prod.exhaust)
  with cgi_child_descriptors [OF p, of "''/srv/a.cgi''" "[''A=1'']"] show ?thesis
    by (fastforce simp: init_kernel_def)
qed

end
