(* ===== verification/Request_Pipeline.thy ===== *)
theory Request_Pipeline
  imports Vhost_Resolver Auth_Handler Directory_Listing Cgi_Handler
begin

text \<open>
  \<open>http/handlers/request_handler.cpp\<close> with \<open>http/core/phase_context.hpp\<close>: the phases every request
  goes through (find the virtual host, check access, produce content, log). A phase maps the
  context to the next one; \<open>px_st\<close> is \<open>ctx.st\<close> when \<open>ctx.stat_valid\<close> holds. The content phase may
  throw (a malformed Range header) or not return (a script that never ends).
\<close>

section \<open>The context\<close>

datatype phase = FindConfig | Access | Content | Log

record phase_context =
  px_request :: http_request
  px_accepting_new_connections :: bool
  px_client_remote_addr :: "string option"
  px_vhost :: "virtual_host option"
  px_path :: string
  px_query_string :: string
  px_resolved_path :: string
  px_under_root :: bool
  px_st :: "stat_buf option"
  px_dir_of_resource :: string
  px_response :: http_response
  px_response_ready :: bool
  px_current_phase :: phase

definition init_context :: "http_request \<Rightarrow> bool \<Rightarrow> string option \<Rightarrow> phase_context" where
  "init_context request accepting addr =
     \<lparr>px_request = request, px_accepting_new_connections = accepting, px_client_remote_addr = addr,
      px_vhost = None, px_path = [], px_query_string = [], px_resolved_path = [], px_under_root = False,
      px_st = None, px_dir_of_resource = [], px_response = mk_response St_Ok, px_response_ready = False,
      px_current_phase = FindConfig\<rparr>"

definition respond :: "http_response \<Rightarrow> phase_context \<Rightarrow> phase_context" where
  "respond r ctx = ctx\<lparr>px_response := r, px_response_ready := True\<rparr>"

section \<open>The phases\<close>

definition phase_find_config :: "config \<Rightarrow> phase_context \<Rightarrow> phase_context" where
  "phase_find_config cfg ctx =
     (case resolve_vhost cfg (px_request ctx) of
        None \<Rightarrow> respond (mk_response St_ServiceUnavailable) (ctx\<lparr>px_vhost := None\<rparr>)
      | Some vh \<Rightarrow>
          let (path, query) = split_uri (rq_uri (px_request ctx))
          in ctx\<lparr>px_vhost := Some vh,
                 px_path := (if path \<noteq> [] \<and> hd path \<noteq> CHR ''/'' then ''/'' @ path else path),
                 px_query_string := query\<rparr>)"

definition unauthorized :: http_response where
  "unauthorized =
     set_header ''Content-Length'' ''0''
       (set_header ''WWW-Authenticate'' (''Basic realm='' @ [CHR 0x22] @ ''Restricted Files'' @ [CHR 0x22])
         (mk_response St_InvalidCredentials))"

definition dir_of_resource :: "string \<Rightarrow> stat_buf \<Rightarrow> string" where
  "dir_of_resource resolved_path st =
     (if S_ISDIR st then resolved_path
      else (case rfind_char CHR ''/'' resolved_path of
              Some last_slash \<Rightarrow> substr resolved_path 0 last_slash
            | None \<Rightarrow> []))"

definition phase_access :: "os \<Rightarrow> phase_context \<Rightarrow> kernel \<Rightarrow> phase_context \<times> kernel" where
  "phase_access os ctx k =
     (if rq_method_str (px_request ctx) = ''GET'' \<and> px_path ctx = ''/load''
      then (respond (mk_response (if px_accepting_new_connections ctx then St_Ok else St_ServiceUnavailable)) ctx, k)
      else
        let (resolved, under) = resolve_path (the (px_vhost ctx)) (px_path ctx);
            ctx1 = ctx\<lparr>px_resolved_path := resolved, px_under_root := under\<rparr>
        in if \<not> under then (respond (mk_response St_Forbidden) ctx1, k)
           else (case sys_stat os resolved k of
                   (None, k1) \<Rightarrow> (respond (mk_response St_NotFound) ctx1, k1)
                 | (Some st, k1) \<Rightarrow>
                     let dir = dir_of_resource resolved st;
                         ctx2 = ctx1\<lparr>px_st := Some st, px_dir_of_resource := dir\<rparr>;
                         (auth, k2) = check_htaccess_and_auth os dir (px_request ctx) k1
                     in (if auth = Invalid_Auth \<or> auth = Missing_Auth then respond unauthorized ctx2 else ctx2, k2)))"

definition is_executable :: "os \<Rightarrow> string \<Rightarrow> kernel \<Rightarrow> bool \<times> kernel" where
  "is_executable os path k =
     (case sys_stat os path k of
        (None, k1) \<Rightarrow> (False, k1)
      | (Some st, k1) \<Rightarrow> (S_ISREG st \<and> any_exec_bit st, k1))"

text \<open>HEAD: the response of GET without its body; a descriptor it holds is closed.\<close>

definition strip_body :: "meth \<Rightarrow> http_response \<Rightarrow> kernel \<Rightarrow> http_response \<times> kernel" where
  "strip_body method r k =
     (if method \<noteq> HEAD then (r, k)
      else if 0 \<le> rs_body_fd r then (r\<lparr>rs_body_fd := -1, rs_body := []\<rparr>, sys_close (rs_body_fd r) k)
      else (r\<lparr>rs_body := []\<rparr>, k))"

definition finish_content ::
  "phase_context \<Rightarrow> (cxx_exn + http_response) \<times> kernel \<Rightarrow> (cxx_exn + phase_context) \<times> kernel" where
  "finish_content ctx result =
     (case result of
        (Inl e, k) \<Rightarrow> (Inl e, k)
      | (Inr r, k) \<Rightarrow>
          let (r', k') = strip_body (rq_method (px_request ctx)) r k in (Inr (respond r' ctx), k'))"

definition options_response :: "int \<Rightarrow> http_response" where
  "options_response now =
     set_header ''Date'' (format_http_date now)
       (set_header ''Allow'' ''GET, HEAD, POST, OPTIONS'' (mk_response St_NoContent))"

definition serve_resource :: "os \<Rightarrow> phase_context \<Rightarrow> kernel \<Rightarrow> (cxx_exn + phase_context) \<times> kernel" where
  "serve_resource os ctx k =
     (if rq_method (px_request ctx) = POST then (Inr (respond (mk_response St_MethodNotAllowed) ctx), k)
      else (case px_st ctx of
              None \<Rightarrow> (Inr (respond (mk_response St_NotFound) ctx), k)
            | Some st \<Rightarrow>
                if S_ISREG st
                then finish_content ctx (serve_static_file os (px_resolved_path ctx) (px_request ctx) k)
                else if S_ISDIR st
                then finish_content ctx (serve_directory_index os (px_resolved_path ctx) (px_request ctx)
                       (vh_document_root (the (px_vhost ctx))) k)
                else (Inr (respond (mk_response St_NotFound) ctx), k)))"

definition phase_content :: "os \<Rightarrow> config \<Rightarrow> phase_context \<Rightarrow> kernel \<Rightarrow> ((cxx_exn + phase_context) \<times> kernel) option" where
  "phase_content os cfg ctx k =
     (if px_response_ready ctx then Some (Inr ctx, k)
      else if rq_method (px_request ctx) = OPTIONS
      then (let (now, k1) = sys_time os k in Some (Inr (respond (options_response now) ctx), k1))
      else
        let (executable, k1) = (if (case px_st ctx of Some st \<Rightarrow> S_ISREG st | None \<Rightarrow> False)
                                then is_executable os (px_resolved_path ctx) k else (False, k))
        in if executable
           then (case run_cgi os cfg (px_resolved_path ctx) (px_request ctx) (px_vhost ctx)
                        (px_client_remote_addr ctx) k1 of
                   None \<Rightarrow> None
                 | Some (r, k2) \<Rightarrow> Some (Inr (respond r ctx), k2))
           else Some (serve_resource os ctx k1))"

section \<open>The log line\<close>

definition pad_left :: "nat \<Rightarrow> string \<Rightarrow> string" where
  "pad_left n s = replicate (n - length s) CHR ''0'' @ s"

definition log_timestamp :: "int \<Rightarrow> string" where
  "log_timestamp now =
     (case gmtime now of
        None \<Rightarrow> []
      | Some tm \<Rightarrow>
          take 31 (''['' @ pad2 (tm_mday tm) @ ''/'' @ snd (month_names ! tm_mon tm) @ ''/''
            @ pad_left 4 (dec_int (tm_year tm + 1900)) @ '':'' @ pad2 (tm_hour tm) @ '':'' @ pad2 (tm_min tm)
            @ '':'' @ pad2 (tm_sec tm) @ '' +0000]''))"

definition log_bytes :: "http_response \<Rightarrow> string" where
  "log_bytes r =
     (case header_get (rs_headers r) ''Content-Length'' of
        Some v \<Rightarrow> v
      | None \<Rightarrow> if 0 \<le> rs_body_fd r then dec_int (rs_body_fd_size r) else dec_nat (length (rs_body r)))"

definition log_entry :: "string option \<Rightarrow> http_request \<Rightarrow> http_response \<Rightarrow> int \<Rightarrow> string" where
  "log_entry addr request r now =
     (let client_ip = (case addr of Some a \<Rightarrow> if a \<noteq> [] then a else ''-'' | None \<Rightarrow> ''-'');
          request_line = rq_method_str request @ '' '' @ rq_uri request @ '' HTTP/1.1''
      in take 1023 (c_str client_ip @ '' - - '' @ log_timestamp now @ '' '' @ [CHR 0x22] @ c_str request_line
           @ [CHR 0x22] @ '' '' @ dec_int (status_int (rs_status_code r)) @ '' '' @ c_str (log_bytes r)))"

definition phase_log :: "os \<Rightarrow> phase_context \<Rightarrow> kernel \<Rightarrow> kernel" where
  "phase_log os ctx k =
     (let (now, k1) = sys_time os k
      in write_log (log_entry (px_client_remote_addr ctx) (px_request ctx) (px_response ctx) now) k1)"

section \<open>All phases\<close>

definition run_phases :: "os \<Rightarrow> config \<Rightarrow> phase_context \<Rightarrow> kernel \<Rightarrow> ((cxx_exn + phase_context) \<times> kernel) option" where
  "run_phases os cfg ctx0 k =
     (let ctx1 = phase_find_config cfg (ctx0\<lparr>px_current_phase := FindConfig\<rparr>)
      in if px_response_ready ctx1 then Some (Inr ctx1, phase_log os ctx1 k)
         else
           let (ctx2, k2) = phase_access os (ctx1\<lparr>px_current_phase := Access\<rparr>) k
           in if px_response_ready ctx2 then Some (Inr ctx2, phase_log os ctx2 k2)
              else (case phase_content os cfg (ctx2\<lparr>px_current_phase := Content\<rparr>) k2 of
                      None \<Rightarrow> None
                    | Some (Inl e, k3) \<Rightarrow> Some (Inl e, k3)
                    | Some (Inr ctx3, k3) \<Rightarrow>
                        let ctx4 = (if \<not> px_response_ready ctx3
                                    then respond (mk_response St_InternalServerError) ctx3 else ctx3);
                            ctx5 = ctx4\<lparr>px_current_phase := Log\<rparr>
                        in Some (Inr ctx5, phase_log os ctx5 k3)))"

definition handle ::
  "os \<Rightarrow> config \<Rightarrow> http_request \<Rightarrow> bool \<Rightarrow> string option \<Rightarrow> kernel \<Rightarrow> ((cxx_exn + http_response) \<times> kernel) option" where
  "handle os cfg request accepting addr k =
     (case run_phases os cfg (init_context request accepting addr) k of
        None \<Rightarrow> None
      | Some (Inl e, k') \<Rightarrow> Some (Inl e, k')
      | Some (Inr ctx, k') \<Rightarrow> Some (Inr (px_response ctx), k'))"

section \<open>The pipeline as one decision\<close>

text \<open>
  The same handler without phases or context: a chain of decisions, each answering or passing the
  request on. Every answer is logged once.
\<close>

definition request_path :: "http_request \<Rightarrow> string" where
  "request_path request =
     (let path = fst (split_uri (rq_uri request)) in if path \<noteq> [] \<and> hd path \<noteq> CHR ''/'' then ''/'' @ path else path)"

definition stripped :: "meth \<Rightarrow> (cxx_exn + http_response) \<times> kernel \<Rightarrow> (cxx_exn + http_response) \<times> kernel" where
  "stripped method result =
     (case result of (Inl e, k) \<Rightarrow> (Inl e, k)
      | (Inr r, k) \<Rightarrow> let (r', k') = strip_body method r k in (Inr r', k'))"

definition serve_found ::
  "os \<Rightarrow> config \<Rightarrow> http_request \<Rightarrow> string option \<Rightarrow> virtual_host \<Rightarrow> string \<Rightarrow> stat_buf \<Rightarrow> kernel
   \<Rightarrow> ((cxx_exn + http_response) \<times> kernel) option" where
  "serve_found os cfg request addr vh p st k =
     (let (executable, k1) = (if S_ISREG st then is_executable os p k else (False, k))
      in if executable
         then map_option (\<lambda>(r, k'). (Inr r, k')) (run_cgi os cfg p request (Some vh) addr k1)
         else if rq_method request = POST then Some (Inr (mk_response St_MethodNotAllowed), k1)
         else if S_ISREG st then Some (stripped (rq_method request) (serve_static_file os p request k1))
         else if S_ISDIR st
         then Some (stripped (rq_method request) (serve_directory_index os p request (vh_document_root vh) k1))
         else Some (Inr (mk_response St_NotFound), k1))"

definition decide ::
  "os \<Rightarrow> config \<Rightarrow> http_request \<Rightarrow> bool \<Rightarrow> string option \<Rightarrow> kernel \<Rightarrow> ((cxx_exn + http_response) \<times> kernel) option" where
  "decide os cfg request accepting addr k =
     (case resolve_vhost cfg request of
        None \<Rightarrow> Some (Inr (mk_response St_ServiceUnavailable), k)
      | Some vh \<Rightarrow>
          if rq_method_str request = ''GET'' \<and> request_path request = ''/load''
          then Some (Inr (mk_response (if accepting then St_Ok else St_ServiceUnavailable)), k)
          else (case resolve_path vh (request_path request) of
                  (p, False) \<Rightarrow> Some (Inr (mk_response St_Forbidden), k)
                | (p, True) \<Rightarrow>
                    (case sys_stat os p k of
                       (None, k1) \<Rightarrow> Some (Inr (mk_response St_NotFound), k1)
                     | (Some st, k1) \<Rightarrow>
                         (case check_htaccess_and_auth os (dir_of_resource p st) request k1 of (auth, k2) \<Rightarrow>
                            if auth \<noteq> Auth_Ok then Some (Inr unauthorized, k2)
                            else if rq_method request = OPTIONS
                            then (let (now, k3) = sys_time os k2 in Some (Inr (options_response now), k3))
                            else serve_found os cfg request addr vh p st k2))))"

definition logged ::
  "os \<Rightarrow> http_request \<Rightarrow> string option \<Rightarrow> ((cxx_exn + http_response) \<times> kernel) option
   \<Rightarrow> ((cxx_exn + http_response) \<times> kernel) option" where
  "logged os request addr result =
     (case result of
        None \<Rightarrow> None
      | Some (Inl e, k) \<Rightarrow> Some (Inl e, k)
      | Some (Inr r, k) \<Rightarrow>
          let (now, k1) = sys_time os k in Some (Inr r, write_log (log_entry addr request r now) k1))"

lemma respond_simps [simp]:
  "px_response (respond r ctx) = r" "px_response_ready (respond r ctx)" "px_request (respond r ctx) = px_request ctx"
  "px_client_remote_addr (respond r ctx) = px_client_remote_addr ctx"
  by (simp_all add: respond_def)

lemma finish_content_stripped:
  "finish_content ctx result = (case stripped (rq_method (px_request ctx)) result of
     (Inl e, k) \<Rightarrow> (Inl e, k) | (Inr r, k) \<Rightarrow> (Inr (respond r ctx), k))"
  by (auto simp: finish_content_def stripped_def split: prod.splits sum.splits)

lemma phase_content_eq:
  assumes "\<not> px_response_ready ctx" "px_st ctx = Some st" "px_vhost ctx = Some vh"
    "rq_method (px_request ctx) \<noteq> OPTIONS"
  shows "phase_content os cfg ctx k =
    (case serve_found os cfg (px_request ctx) (px_client_remote_addr ctx) vh (px_resolved_path ctx) st k of
       None \<Rightarrow> None
     | Some (Inl e, k') \<Rightarrow> Some (Inl e, k')
     | Some (Inr r, k') \<Rightarrow> Some (Inr (respond r ctx), k'))"
  using assms
  by (auto simp: phase_content_def serve_found_def serve_resource_def finish_content_stripped Let_def
      split: prod.splits option.splits sum.splits)

lemma logged_respond:
  "phase_log os ctx k = (let (now, k1) = sys_time os k in
     write_log (log_entry (px_client_remote_addr ctx) (px_request ctx) (px_response ctx) now) k1)"
  by (simp add: phase_log_def)

lemma handle_decide: "handle os cfg request accepting addr k = logged os request addr (decide os cfg request accepting addr k)"
proof (cases "resolve_vhost cfg request")
  case None
  then show ?thesis
    by (simp add: handle_def run_phases_def phase_find_config_def decide_def logged_def init_context_def
        phase_log_def respond_def split: prod.split)
next
  case (Some vh)
  define ctx1 where "ctx1 = (init_context request accepting addr)\<lparr>px_vhost := Some vh,
    px_path := request_path request, px_query_string := snd (split_uri (rq_uri request))\<rparr>"
  have fc: "phase_find_config cfg ((init_context request accepting addr)\<lparr>px_current_phase := FindConfig\<rparr>) = ctx1"
    using Some by (simp add: phase_find_config_def ctx1_def init_context_def request_path_def split: prod.split)
  have f1: "px_request ctx1 = request" "px_vhost ctx1 = Some vh" "px_path ctx1 = request_path request"
    "px_client_remote_addr ctx1 = addr" "px_accepting_new_connections ctx1 = accepting" "\<not> px_response_ready ctx1"
    by (simp_all add: ctx1_def init_context_def)
  obtain p under where rp: "resolve_path vh (request_path request) = (p, under)" by fastforce
  obtain st k1 where stat: "sys_stat os p k = (st, k1)" by fastforce
  obtain auth k2 where auth: "check_htaccess_and_auth os (dir_of_resource p (the st)) request k1 = (auth, k2)" by fastforce
  have ok: "auth = Invalid_Auth \<or> auth = Missing_Auth \<longleftrightarrow> auth \<noteq> Auth_Ok" by (cases auth) auto
  consider (load) "rq_method_str request = ''GET'' \<and> request_path request = ''/load''"
    | (outside) "\<not> (rq_method_str request = ''GET'' \<and> request_path request = ''/load'')" "\<not> under"
    | (missing) "\<not> (rq_method_str request = ''GET'' \<and> request_path request = ''/load'')" "under" "st = None"
    | (denied) s where "\<not> (rq_method_str request = ''GET'' \<and> request_path request = ''/load'')" "under" "st = Some s"
        "auth \<noteq> Auth_Ok"
    | (content) s where "\<not> (rq_method_str request = ''GET'' \<and> request_path request = ''/load'')" "under" "st = Some s"
        "auth = Auth_Ok" by (cases st) blast+
  then show ?thesis
  proof cases
    case content
    define ctx2 where "ctx2 = ctx1\<lparr>px_current_phase := Access, px_resolved_path := p, px_under_root := True,
      px_st := Some s, px_dir_of_resource := dir_of_resource p s\<rparr>"
    define ctx3 where "ctx3 = ctx2\<lparr>px_current_phase := Content\<rparr>"
    have pa: "phase_access os (ctx1\<lparr>px_current_phase := Access\<rparr>) k = (ctx2, k2)"
      using content rp stat auth by (auto simp: phase_access_def f1 ctx2_def Let_def)
    have f3: "px_request ctx3 = request" "px_vhost ctx3 = Some vh" "px_resolved_path ctx3 = p"
      "px_client_remote_addr ctx3 = addr" "\<not> px_response_ready ctx3" "px_st ctx3 = Some s" "\<not> px_response_ready ctx2"
      by (simp_all add: ctx3_def ctx2_def f1)
    have run: "run_phases os cfg (init_context request accepting addr) k = (case phase_content os cfg ctx3 k2 of
        None \<Rightarrow> None | Some (Inl e, k3) \<Rightarrow> Some (Inl e, k3)
      | Some (Inr c, k3) \<Rightarrow>
          let c' = (if \<not> px_response_ready c then respond (mk_response St_InternalServerError) c else c)\<lparr>px_current_phase := Log\<rparr>
          in Some (Inr c', phase_log os c' k3))"
      using f1(6) f3(7) unfolding run_phases_def Let_def by (simp add: fc pa ctx3_def)
    show ?thesis
    proof (cases "rq_method request = OPTIONS")
      case True
      then have "phase_content os cfg ctx3 k2
          = (let (now, k3) = sys_time os k2 in Some (Inr (respond (options_response now) ctx3), k3))"
        using f3 by (simp add: phase_content_def)
      with True content Some rp stat auth show ?thesis
        by (auto simp: handle_def run decide_def logged_def phase_log_def f3 Let_def split: prod.split)
    next
      case False
      have d: "decide os cfg request accepting addr k = serve_found os cfg request addr vh p s k2"
        using False content Some rp stat auth by (auto simp: decide_def)
      from False f3 phase_content_eq [of ctx3 s vh os cfg k2] show ?thesis
        by (auto simp: handle_def run d logged_def phase_log_def f3 Let_def split: prod.split option.split sum.split)
    qed
  qed (use Some rp stat auth ok in \<open>auto simp: handle_def run_phases_def fc phase_access_def f1 decide_def
      logged_def phase_log_def Let_def respond_def split: prod.split\<close>)
qed

end
