(* ===== verification/Pipeline_Properties.thy ===== *)
theory Pipeline_Properties
  imports Request_Pipeline
begin

text \<open>
  What a request may do: which file a response discloses, which program is started, who may ask for
  it, what is logged, what is left open, and that an answer comes.
\<close>

section \<open>The history of the process\<close>

definition same_history :: "kernel \<Rightarrow> kernel \<Rightarrow> bool" where
  "same_history k k' \<longleftrightarrow> k_log k' = k_log k \<and> k_spawned k' = k_spawned k"

named_theorems history

lemma same_history_refl [simp]: "same_history k k"
  by (simp add: same_history_def)

lemma same_history_trans: "same_history k k1 \<Longrightarrow> same_history k1 k2 \<Longrightarrow> same_history k k2"
  by (simp add: same_history_def)

lemma same_history_tick [simp]: "same_history k (tick k') = same_history k k'" "same_history (tick k) k' = same_history k k'"
  by (simp_all add: same_history_def)

lemma same_history_close [simp]: "same_history k (sys_close fd k') = same_history k k'"
    "same_history (sys_close fd k) k' = same_history k k'"
  by (simp_all add: same_history_def sys_close_def)

lemma same_history_calls [history]:
  "sys_stat os p k = (r1, k') \<Longrightarrow> same_history k k'"
  "sys_time os k = (r2, k') \<Longrightarrow> same_history k k'"
  "sys_open os p k = (r3, k') \<Longrightarrow> same_history k k'"
  "sys_slurp os p k = (r4, k') \<Longrightarrow> same_history k k'"
  "sys_listdir os p k = (r5, k') \<Longrightarrow> same_history k k'"
  "sys_write os fd s k = (r6, k') \<Longrightarrow> same_history k k'"
  "sys_read os fd n k = (r7, k') \<Longrightarrow> same_history k k'"
  "sys_select os fd k = (r8, k') \<Longrightarrow> same_history k k'"
  "sys_wait os pid k = (r9, k') \<Longrightarrow> same_history k k'"
  "sys_pipe os k = (r10, k') \<Longrightarrow> same_history k k'"
  by (auto simp: sys_stat_def sys_time_def sys_open_def sys_slurp_def sys_listdir_def sys_write_def sys_read_def
      sys_select_def sys_wait_def sys_pipe_def alloc_fd_def Let_def same_history_def split: if_splits io_write.splits io_read.splits)

lemma same_history_kill [simp]: "same_history k (kill_child os pid k') = same_history k k'"
  by (auto simp: kill_child_def sys_kill_def sys_wait_def Let_def same_history_def)

lemma write_post_body_history [history]:
  assumes "write_post_body_to_child os fd body pid k = Some (ok, k')"
  shows "same_history k k'"
proof -
  have "same_history k (snd res)" if "write_post_body_to_child os fd body pid k = Some res" for res
  proof (rule write_post_body_to_child.raw_induct [where P = "\<lambda>os fd b p k res. same_history k (snd res)", OF _ that])
    fix f os fd b p k res
    assume IH: "\<And>os fd b p k res. f os fd b p k = Some res \<Longrightarrow> same_history k (snd res)"
      and eq: "(if b = [] then Some (True, k)
        else (case sys_write os fd b k of
                (Wrote n, k1) \<Rightarrow> f os fd (drop n b) p k1
              | (Write_fail e, k1) \<Rightarrow>
                  if e = EINTR then f os fd b p k1
                  else Some (False, snd (sys_wait os p (sys_close fd k1))))) = Some res"
    obtain r k1 where wr: "sys_write os fd b k = (r, k1)" by fastforce
    obtain q k2 where wt: "sys_wait os p (sys_close fd k1) = (q, k2)" by fastforce
    have h: "same_history k k1" "same_history k k2"
      using same_history_calls(6) [OF wr] same_history_calls(9) [OF wt] same_history_trans [of k k1 k2] by simp_all
    have again: "same_history k (snd res)" if "f os fd b' p k1 = Some res" for b'
      using IH [OF that] h(1) same_history_trans by blast
    show "same_history k (snd res)"
    proof (cases r)
      case (Wrote n)
      with eq wr again [of "drop n b"] show ?thesis by (auto split: if_splits)
    next
      case (Write_fail e)
      with eq wr wt h again [of b] show ?thesis by (auto split: if_splits)
    qed
  qed
  from this [OF assms] show ?thesis by simp
qed

lemma read_child_output_history [history]:
  assumes "read_child_output os fd pid acc k = Some (r, k')"
  shows "same_history k k'"
proof -
  have "same_history k (snd res)" if "read_child_output os fd pid acc k = Some res" for res
  proof (rule read_child_output.raw_induct [where P = "\<lambda>os fd p a k res. same_history k (snd res)", OF _ that])
    fix f os fd p a k res
    assume IH: "\<And>os fd p a k res. f os fd p a k = Some res \<Longrightarrow> same_history k (snd res)"
      and eq: "(case sys_select os fd k of
          (Ready, k1) \<Rightarrow>
            (case sys_read os fd 4096 k1 of
               (Got s, k2) \<Rightarrow> if s = [] then Some ((True, a), k2) else f os fd p (a @ s) k2
             | (Read_fail e, k2) \<Rightarrow>
                 if e = EINTR then f os fd p a k2 else Some ((False, []), kill_child os p k2))
        | (Timed_out, k1) \<Rightarrow> Some ((False, []), kill_child os p k1)
        | (Select_fail e, k1) \<Rightarrow>
            if e = EINTR then f os fd p a k1 else Some ((False, []), kill_child os p k1)) = Some res"
    obtain r k1 where se: "sys_select os fd k = (r, k1)" by fastforce
    obtain q k2 where re: "sys_read os fd 4096 k1 = (q, k2)" by fastforce
    have h: "same_history k k1" "same_history k k2"
      using same_history_calls(8) [OF se] same_history_calls(7) [OF re] same_history_trans [of k k1 k2] by simp_all
    have again: "same_history k (snd res)" if "f os fd p a' k' = Some res" "k' \<in> {k1, k2}" for a' k'
      using IH [OF that(1)] that(2) h same_history_trans by blast
    show "same_history k (snd res)"
    proof (cases r)
      case Ready
      show ?thesis
      proof (cases q)
        case (Got s)
        with Ready eq se re h again [of "a @ s" k2] show ?thesis by (auto split: if_splits)
      next
        case (Read_fail e)
        with Ready eq se re h again [of a k2] show ?thesis by (auto split: if_splits)
      qed
    next
      case Timed_out
      with eq se h show ?thesis by auto
    next
      case (Select_fail e)
      with eq se h again [of a k1] show ?thesis by (auto split: if_splits)
    qed
  qed
  from this [OF assms] show ?thesis by simp
qed

lemma wait_for_child_history [history]: "wait_for_child os pid k = (r, k') \<Longrightarrow> same_history k k'"
  by (auto simp: wait_for_child_def split: prod.splits wait_result.splits dest!: same_history_calls(9))

lemma cgi_finish_history [history]: "cgi_finish os pid fd k = Some (r, k') \<Longrightarrow> same_history k k'"
  by (auto simp: cgi_finish_def Let_def split: option.splits prod.splits if_splits
      dest!: read_child_output_history wait_for_child_history intro: same_history_trans)

lemma cgi_parent_history [history]:
  assumes "cgi_parent os request pid ip op k = Some (r, k')" shows "same_history k k'"
proof -
  define k1 where "k1 = sys_close (snd op) (sys_close (fst ip) k)"
  have k1: "same_history k k1" by (simp add: k1_def)
  have fin: "same_history k k'" if "cgi_finish os pid fd (sys_close fd' k2) = Some (r, k')" "same_history k k2" for fd fd' k2
    using cgi_finish_history [OF that(1)] that(2) same_history_trans [of k k2 k'] by simp
  show ?thesis
  proof (cases "rq_method_str request = ''POST''")
    case False
    with assms fin k1 show ?thesis by (simp add: cgi_parent_def k1_def)
  next
    case True
    with assms obtain ok k2 where wr: "write_post_body_to_child os (snd ip) (rq_buffer request) pid k1 = Some (ok, k2)"
      by (auto simp: cgi_parent_def k1_def split: option.splits prod.splits)
    then have "same_history k k2" using k1 write_post_body_history same_history_trans by blast
    with assms True wr fin show ?thesis
      by (cases ok) (auto simp: cgi_parent_def k1_def)
  qed
qed

lemma setup_cgi_pipes_history [history]: "setup_cgi_pipes os k = (r, k') \<Longrightarrow> same_history k k'"
  by (auto simp: setup_cgi_pipes_def split: prod.splits option.splits
      dest!: same_history_calls(10) intro: same_history_trans)

lemma run_cgi_history:
  assumes "run_cgi os cfg path request vh addr k = Some (r, k')"
  shows "k_log k' = k_log k"
    "k_spawned k' = k_spawned k \<or> k_spawned k' = (c_str path, build_cgi_environment cfg request vh addr) # k_spawned k"
proof -
  obtain p k1 where p: "setup_cgi_pipes os k = (p, k1)" by fastforce
  note h1 = setup_cgi_pipes_history [OF p]
  let ?prog = "(c_str path, build_cgi_environment cfg request vh addr)"
  have "k_log k' = k_log k \<and> (k_spawned k' = k_spawned k \<or> k_spawned k' = ?prog # k_spawned k)"
  proof (cases p)
    case None
    with p assms h1 show ?thesis by (auto simp: run_cgi_def same_history_def)
  next
    case (Some q)
    obtain ip op where q: "q = (ip, op)" by (rule prod.exhaust)
    obtain pid k2 where f: "sys_fork os ?prog k1 = (pid, k2)" by fastforce
    then have "k_log k2 = k_log k1" "k_spawned k2 = (if 0 < pid then ?prog # k_spawned k1 else k_spawned k1)"
      by (auto simp: sys_fork_def Let_def)
    moreover have "same_history k2 k'"
      using assms p Some q f cgi_parent_history by (auto simp: run_cgi_def split: if_splits)
    ultimately show ?thesis using h1 by (auto simp: same_history_def split: if_splits)
  qed
  then show "k_log k' = k_log k"
    "k_spawned k' = k_spawned k \<or> k_spawned k' = ?prog # k_spawned k" by blast+
qed


lemma is_executable_history [history]: "is_executable os path k = (r, k') \<Longrightarrow> same_history k k'"
  by (auto simp: is_executable_def split: prod.splits option.splits dest!: same_history_calls(1))

lemma check_htaccess_history [history]: "check_htaccess_and_auth os dir request k = (r, k') \<Longrightarrow> same_history k k'"
  by (auto simp: check_htaccess_and_auth_def parse_htaccess_def Let_def split: prod.splits option.splits if_splits
      dest!: same_history_calls(4))

text \<open>What the static branches leave behind: no program, no log line, and behind the descriptor the file.\<close>

definition serves_file :: "string \<Rightarrow> kernel \<Rightarrow> (cxx_exn + http_response) \<times> kernel \<Rightarrow> bool" where
  "serves_file path k res \<longleftrightarrow> same_history k (snd res)
     \<and> (\<forall>r. fst res = Inr r \<and> 0 \<le> rs_body_fd r \<longrightarrow> map_of (k_open (snd res)) (rs_body_fd r) = Some (Regular (c_str path)))"

lemma send_file_serves: "serves_file path k (send_file os path request st k)"
proof -
  obtain fd k1 where o: "sys_open os path k = (fd, k1)" by fastforce
  have h: "same_history k k1" using o by (rule same_history_calls)
  have m: "map_of (k_open k1) fd = Some (Regular (c_str path))" if "0 \<le> fd"
    using o that by (auto simp: sys_open_def alloc_fd_def Let_def split: if_splits)
  show ?thesis
    using h m by (auto simp: send_file_def o serves_file_def Let_def sys_time_def split: sum.split)
qed

lemma serve_static_file_serves: "serves_file path k (serve_static_file os path request k)"
proof -
  have late: "serves_file path k (after_conditionals os path request st k1)" if "same_history k k1" for st k1
    using send_file_serves [of path k1 os request st] that same_history_trans
    by (auto simp: after_conditionals_def serves_file_def)
  show ?thesis
    by (auto simp: serve_static_file_def sys_stat_def sys_time_def Let_def late split: option.split prod.split)
      (simp_all add: serves_file_def)
qed

lemma first_index_history [history]:
  "first_index os cs k = (r, k') \<Longrightarrow> same_history k k' \<and> (\<forall>p. r = Some p \<longrightarrow> p \<in> set cs)"
  by (induction os cs k arbitrary: r k' rule: first_index.induct)
    (auto simp: Let_def sys_stat_def split: if_splits prod.splits)

lemma read_entries_history: "read_entries os dir names k = (es, k') \<Longrightarrow> same_history k k'"
  by (induction os dir names k arbitrary: es rule: read_entries.induct)
    (auto simp: Let_def sys_stat_def split: prod.splits if_splits)

lemma build_listing_history [history]: "build_listing os uri dir k = (b, k') \<Longrightarrow> same_history k k'"
  by (auto simp: build_listing_def sys_listdir_def split: prod.splits option.splits dest!: read_entries_history)

lemma serve_directory_index_serves:
  "\<exists>p. p \<in> set (dir # index_candidates dir request root)
     \<and> serves_file p k (serve_directory_index os dir request root k)"
proof -
  obtain c k1 where i: "first_index os (index_candidates dir request root) k = (c, k1)" by fastforce
  note h = first_index_history [OF i]
  show ?thesis
  proof (cases c)
    case (Some p)
    then have e: "serve_directory_index os dir request root k = serve_static_file os p request k1"
      using i by (simp add: serve_directory_index_def)
    have "serves_file p k (serve_static_file os p request k1)"
      using serve_static_file_serves [of p k1 os request] h same_history_trans by (auto simp: serves_file_def)
    with h Some e show ?thesis by auto
  next
    case None
    define uri where "uri = (case find_char CHR ''?'' (rq_uri request) of
      None \<Rightarrow> rq_uri request | Some q \<Rightarrow> substr (rq_uri request) 0 q)"
    obtain body k2 where b: "build_listing os uri dir k1 = (body, k2)" by fastforce
    then have e: "serve_directory_index os dir request root k = (Inr (listing_response body), k2)"
      using i None by (simp add: serve_directory_index_def uri_def)
    have "same_history k k2" using h build_listing_history [OF b] same_history_trans by blast
    then have "serves_file dir k (serve_directory_index os dir request root k)"
      using e by (auto simp: serves_file_def listing_response_def)
    then show ?thesis by auto
  qed
qed


section \<open>What an answer may disclose or start\<close>

lemma run_cgi_fd:
  assumes "run_cgi os cfg path request vh addr k = Some (r, k')"
  shows "rs_body_fd r = -1"
proof -
  have fin: "cgi_finish os pid fd k = Some (r, k') \<Longrightarrow> rs_body_fd r = -1" for pid fd k
    by (auto simp: cgi_finish_def Let_def parse_cgi_output_fd split: option.splits prod.splits if_splits)
  have par: "cgi_parent os request pid ip op k = Some (r, k') \<Longrightarrow> rs_body_fd r = -1" for pid ip op k
    by (auto simp: cgi_parent_def Let_def fin split: option.splits prod.splits if_splits bool.splits)
  from assms show ?thesis
    by (auto simp: run_cgi_def Let_def par split: option.splits prod.splits if_splits)
qed

definition discloses ::
  "config \<Rightarrow> http_request \<Rightarrow> string option \<Rightarrow> virtual_host \<Rightarrow> string \<Rightarrow> kernel \<Rightarrow> (cxx_exn + http_response) \<times> kernel \<Rightarrow> bool" where
  "discloses cfg request addr vh p k res \<longleftrightarrow> k_log (snd res) = k_log k
     \<and> (k_spawned (snd res) = k_spawned k
        \<or> k_spawned (snd res) = (c_str p, build_cgi_environment cfg request (Some vh) addr) # k_spawned k)
     \<and> (\<forall>r. fst res = Inr r \<and> 0 \<le> rs_body_fd r \<longrightarrow>
          (\<exists>q \<in> set (p # index_candidates p request (vh_document_root vh)).
             map_of (k_open (snd res)) (rs_body_fd r) = Some (Regular (c_str q))))"

lemma discloses_start: "same_history k k1 \<Longrightarrow> discloses cfg request addr vh p k1 res \<Longrightarrow> discloses cfg request addr vh p k res"
  by (simp add: discloses_def same_history_def)

lemma discloses_nothing: "same_history k k' \<Longrightarrow> rs_body_fd r < 0 \<Longrightarrow> discloses cfg request addr vh p k (Inr r, k')"
  by (simp add: discloses_def same_history_def)

lemma discloses_stripped:
  assumes "serves_file q k res" "q \<in> set (p # index_candidates p request (vh_document_root vh))"
  shows "discloses cfg request addr vh p k (stripped m res)"
proof (cases "fst res")
  case (Inl e)
  with assms show ?thesis
    by (cases res) (auto simp: discloses_def serves_file_def same_history_def stripped_def)
next
  case (Inr r)
  then obtain k' where res: "res = (Inr r, k')" by (cases res) auto
  with assms(1) have h: "same_history k k'" "0 \<le> rs_body_fd r \<longrightarrow> map_of (k_open k') (rs_body_fd r) = Some (Regular (c_str q))"
    by (simp_all add: serves_file_def)
  have "same_history k (sys_close (rs_body_fd r) k')" using h(1) by simp
  with h assms(2) show ?thesis
    by (auto simp: res stripped_def strip_body_def discloses_def same_history_def)
qed

lemma serve_found_discloses:
  assumes "serve_found os cfg request addr vh p st k = Some res"
  shows "discloses cfg request addr vh p k res"
proof -
  obtain ex k1 where ex: "(if S_ISREG st then is_executable os p k else (False, k)) = (ex, k1)" by fastforce
  then have h: "same_history k k1" using is_executable_history by (auto split: if_splits)
  have "discloses cfg request addr vh p k1 res"
  proof (cases ex)
    case True
    with assms ex obtain r k' where run: "run_cgi os cfg p request (Some vh) addr k1 = Some (r, k')" "res = (Inr r, k')"
      by (auto simp: serve_found_def Let_def)
    with run_cgi_history [OF run(1)] run_cgi_fd [OF run(1)] show ?thesis by (auto simp: discloses_def)
  next
    case False
    have "discloses cfg request addr vh p k1 (stripped m (serve_static_file os p request k1))" for m
      by (rule discloses_stripped [OF serve_static_file_serves]) simp
    moreover have "discloses cfg request addr vh p k1
        (stripped m (serve_directory_index os p request (vh_document_root vh) k1))" for m
      using serve_directory_index_serves [of p request "vh_document_root vh" k1 os] discloses_stripped by blast
    ultimately show ?thesis
      using assms ex False discloses_nothing [OF same_history_refl]
      by (auto simp: serve_found_def Let_def split: if_splits)
  qed
  with h show ?thesis by (rule discloses_start)
qed


lemma decide_discloses:
  assumes "decide os cfg request accepting addr k = Some res"
  shows "same_history k (snd res) \<and> (\<forall>r. fst res = Inr r \<longrightarrow> rs_body_fd r < 0)
    \<or> (\<exists>vh p st k1 k2. resolve_vhost cfg request = Some vh \<and> resolve_path vh (request_path request) = (p, True)
        \<and> sys_stat os p k = (Some st, k1) \<and> check_htaccess_and_auth os (dir_of_resource p st) request k1 = (Auth_Ok, k2)
        \<and> discloses cfg request addr vh p k res)"
proof (cases "resolve_vhost cfg request")
  case None
  with assms show ?thesis by (auto simp: decide_def)
next
  case vh: (Some vh)
  obtain p under where rp: "resolve_path vh (request_path request) = (p, under)" by fastforce
  obtain st k1 where stat: "sys_stat os p k = (st, k1)" by fastforce
  obtain auth k2 where auth: "check_htaccess_and_auth os (dir_of_resource p (the st)) request k1 = (auth, k2)" by fastforce
  note h1 = same_history_calls(1) [OF stat]
  then have h2: "same_history k k2" using check_htaccess_history [OF auth] same_history_trans by blast
  show ?thesis
  proof (cases "\<not> (rq_method_str request = ''GET'' \<and> request_path request = ''/load'') \<and> under \<and> st \<noteq> None \<and> auth = Auth_Ok")
    case False
    with assms vh rp stat auth h1 h2 show ?thesis
      by (cases st) (auto simp: decide_def unauthorized_def sys_time_def split: if_splits bool.splits)
  next
    case True
    then obtain s where s: "st = Some s" by blast
    have "discloses cfg request addr vh p k res"
    proof (cases "rq_method request = OPTIONS")
      case opt: True
      with True s assms vh rp stat auth h2 discloses_nothing [of k "tick k2"] show ?thesis
        by (auto simp: decide_def sys_time_def options_response_def)
    next
      case False
      with True s assms vh rp stat auth have "serve_found os cfg request addr vh p s k2 = Some res"
        by (auto simp: decide_def)
      from serve_found_discloses [OF this] h2 show ?thesis by (rule discloses_start [rotated])
    qed
    with True s vh rp stat auth show ?thesis by auto
  qed
qed

lemma handle_cases:
  assumes "handle os cfg request accepting addr k = Some (res, k')"
  obtains (threw) e where "res = Inl e" "decide os cfg request accepting addr k = Some (Inl e, k')"
  | (answered) r k1 where "res = Inr r" "decide os cfg request accepting addr k = Some (Inr r, k1)"
      "k' = write_log (log_entry addr request r (os_time os (k_tick k1))) (tick k1)"
  using assms
  by (auto simp: handle_decide logged_def sys_time_def split: option.splits prod.splits sum.splits)

lemma write_log_simps [simp]:
  "k_open (write_log e k) = k_open k" "k_spawned (write_log e k) = k_spawned k" "k_log (write_log e k) = k_log k @ [e]"
  "k_bad_close (write_log e k) = k_bad_close k" "k_tick (write_log e k) = k_tick k" "k_children (write_log e k) = k_children k"
  "k_sent (write_log e k) = k_sent k"
  by (simp_all add: write_log_def)

text \<open>A file system for concrete runs: \<open>/srv\<close> holds a directory \<open>www\<close> with a file \<open>a.txt\<close>, and a file \<open>key\<close>.\<close>

definition dir_stat :: stat_buf where
  "dir_stat = \<lparr>st_mode = 0x41ED, st_ino = 2, st_size = 4096, st_mtime = 0\<rparr>"

definition srv_os :: os where
  "srv_os = idle_os\<lparr>os_time := \<lambda>_. 68214900,
     os_stat := \<lambda>_ path. if path = ''/srv/www'' \<or> path = ''/srv/www/..'' then Some dir_stat
       else if path = ''/srv/www/a.txt'' then Some sample_stat else None,
     os_listdir := \<lambda>_ path. if path = ''/srv/www/..'' then Some [''.'', ''..'', ''www'', ''key''] else Some [''a.txt'']\<rparr>"

definition srv_host :: virtual_host where
  "srv_host = \<lparr>vh_document_root = ''/srv/www'', vh_server_name = ''x''\<rparr>"

definition srv_config :: config where
  "srv_config = default_config\<lparr>cf_virtual_hosts := [srv_host]\<rparr>"

definition srv_get :: "string \<Rightarrow> http_request" where
  "srv_get uri = empty_request\<lparr>rq_method := GET, rq_method_str := ''GET'', rq_uri := uri\<rparr>"

lemma srv_simps [simp]:
  "os_stat srv_os n ''/srv/www/..'' = Some dir_stat" "os_stat srv_os n ''/srv/www/a.txt'' = Some sample_stat"
  "os_content srv_os n p = None" "os_time srv_os n = 68214900" "os_open srv_os n p"
  "os_listdir srv_os n ''/srv/www/..'' = Some [''.'', ''..'', ''www'', ''key'']"
  "S_ISDIR dir_stat" "\<not> S_ISREG dir_stat" "any_exec_bit sample_stat = False"
  "resolve_vhost srv_config (srv_get uri) = Some srv_host"
  "rq_method (srv_get uri) = GET" "rq_method_str (srv_get uri) = ''GET''" "rq_uri (srv_get uri) = uri"
  "rq_headers (srv_get uri) = []"
  "vh_document_root srv_host = ''/srv/www''" "path_parts ''srv/www'' = [''srv'', ''www'']" "is_absolute ''/srv/www''"
  by (simp_all add: srv_os_def dir_stat_def sample_stat_def S_ISDIR_def S_ISREG_def any_exec_bit_def idle_os_def resolve_vhost_def
      srv_config_def srv_host_def srv_get_def empty_request_def get_header_def header_get_def strip_port_def
      path_parts_def push_segment_def is_absolute_def Let_def)

lemma srv_answer:
  "\<exists>r k1. handle srv_os srv_config (srv_get ''/a.txt'') True None init_kernel = Some (Inr r, k1) \<and> 0 \<le> rs_body_fd r"
proof -
  have path: "request_path (srv_get ''/a.txt'') = ''/a.txt''" by (simp add: request_path_def split_uri_def)
  have res: "resolve_path srv_host ''/a.txt'' = (''/srv/www/a.txt'', True)"
    by (simp add: resolve_path_eq walk_def push_segment_def abs_path_def Let_def)
  have [simp]: "c_str ''/srv/www/a.txt'' = ''/srv/www/a.txt''" by (simp add: c_str_def)
  have auth: "check_htaccess_and_auth srv_os dir request k = (Auth_Ok, tick k)" for dir request k
    by (simp add: check_htaccess_and_auth_def parse_htaccess_def sys_slurp_def htaccess_of_file_def)
  have send: "\<exists>r k1. send_file srv_os p (srv_get uri) st k = (Inr r, k1) \<and> 0 \<le> rs_body_fd r" for p uri st k
    using fresh_fd(2) [of "k_fds (tick k)"]
    by (auto simp: send_file_def get_header_def header_get_def sys_time_def sys_open_def alloc_fd_def Let_def)
  have "\<exists>r k1. serve_static_file srv_os ''/srv/www/a.txt'' (srv_get ''/a.txt'') k = (Inr r, k1) \<and> 0 \<le> rs_body_fd r" for k
    by (simp add: serve_static_file_def sys_stat_def get_header_def header_get_def parse_http_date_def
        after_conditionals_def check_accept_def send [simplified] split: prod.split)
  then obtain r k1 where "serve_static_file srv_os ''/srv/www/a.txt'' (srv_get ''/a.txt'')
      (tick (tick (tick init_kernel))) = (Inr r, k1)" "0 \<le> rs_body_fd r" by blast
  then have "handle srv_os srv_config (srv_get ''/a.txt'') True None init_kernel
      = Some (Inr r, write_log (log_entry None (srv_get ''/a.txt'') r 68214900) (tick k1))"
    by (simp add: handle_decide decide_def path res sys_stat_def auth serve_found_def is_executable_def
        stripped_def strip_body_def logged_def sys_time_def)
  with \<open>0 \<le> rs_body_fd r\<close> show ?thesis by blast
qed

section \<open>Answers\<close>

text \<open>
  C16: the phases implement one chain of decisions. The handler of the code (a mutable context, the
  flag \<open>response_ready\<close>, phases that skip themselves) answers exactly as \<open>decide\<close>: no virtual host
  503, the load probe, outside the root 403, no such file 404, refused credentials 401, OPTIONS,
  then script, method check, file or directory; every answer goes through the log, and an exception
  passes through unlogged.
\<close>

theorem pipeline_decision:
  "handle os cfg request accepting addr k = logged os request addr (decide os cfg request accepting addr k)"
  by (rule handle_decide)

lemma handle_log:
  assumes "handle os cfg request accepting addr k = Some (res, k')"
  shows "case res of
      Inl e \<Rightarrow> k_log k' = k_log k
    | Inr r \<Rightarrow> \<exists>now. k_log k' = k_log k @ [log_entry addr request r now]"
  using assms
proof (cases rule: handle_cases)
  case (threw e)
  with decide_discloses [OF threw(2)] show ?thesis by (auto simp: same_history_def discloses_def)
next
  case (answered r k1)
  with decide_discloses [OF answered(2)] show ?thesis by (auto simp: same_history_def discloses_def)
qed

text \<open>
  Every answer leaves exactly one line in the access log, made of the client's address, the
  request line, the status and the length of this very answer; an exception leaves none.
\<close>

theorem one_log_line:
  assumes "handle os cfg request accepting addr k = Some (res, k')"
  shows "case res of
      Inl e \<Rightarrow> k_log k' = k_log k
    | Inr r \<Rightarrow> \<exists>now. k_log k' = k_log k @ [log_entry addr request r now]"
  using assms by (rule handle_log)

theorem one_log_line_witness:
  "\<exists>r k' now. handle srv_os srv_config (srv_get ''/a.txt'') True None init_kernel = Some (Inr r, k')
     \<and> k_log k' = [log_entry None (srv_get ''/a.txt'') r now]"
proof -
  obtain r k' where r: "handle srv_os srv_config (srv_get ''/a.txt'') True None init_kernel = Some (Inr r, k')"
    using srv_answer by blast
  with one_log_line [OF r] show ?thesis by (auto simp: init_kernel_def)
qed




lemma handle_discloses_vhost:
  assumes "handle os cfg request accepting addr k = Some (Inr r, k')" "0 \<le> rs_body_fd r"
  shows "\<exists>vh. resolve_vhost cfg request = Some vh"
  using assms(1)
proof (cases rule: handle_cases)
  case (answered r' k1)
  with decide_discloses [OF answered(2)] assms(2) show ?thesis by (auto simp: same_history_def)
qed simp

section \<open>Confinement\<close>

lemma c_str_id: "CHR 0x00 \<notin> set s \<Longrightarrow> c_str s = s"
  by (auto simp: c_str_def takeWhile_eq_all_conv)

lemma join_parts_set: "set (join_parts ps) \<subseteq> insert CHR ''/'' (\<Union> (set ` set ps))"
  by (induction ps rule: join_parts.induct) auto

lemma scan_path_set: "\<Union> (set ` set (scan_path cs seg ps)) \<subseteq> set cs \<union> set seg \<union> \<Union> (set ` set ps)"
proof (induction cs seg ps rule: scan_path.induct)
  case (1 seg ps)
  then show ?case by (auto simp: push_segment_def dest: in_set_butlastD)
next
  case (2 c cs seg ps)
  have "\<Union> (set ` set (push_segment seg ps)) \<subseteq> set seg \<union> \<Union> (set ` set ps)"
    by (auto simp: push_segment_def dest: in_set_butlastD)
  with 2(1) have "c = CHR ''/'' \<Longrightarrow> \<Union> (set ` set (scan_path cs [] (push_segment seg ps)))
      \<subseteq> set cs \<union> (set seg \<union> \<Union> (set ` set ps))" by fastforce
  with 2(2) show ?case by auto
qed

lemma normalize_path_set: "set (normalize_path p) \<subseteq> insert CHR ''/'' (set p)"
proof -
  have "\<Union> (set ` set (scan_path (drop n p) [] [])) \<subseteq> set p" for n
    using scan_path_set [of "drop n p" "[]" "[]"] set_drop_subset [of n p] by auto
  then have "set (join_parts (scan_path (drop n p) [] [])) \<subseteq> insert CHR ''/'' (set p)" for n
    using join_parts_set [of "scan_path (drop n p) [] []"] by blast
  then show ?thesis by (auto simp: normalize_path_def Let_def split: if_splits)
qed

lemma resolve_path_nul_free:
  assumes "resolve_path vh uri = (p, True)" "CHR 0x00 \<notin> set (vh_document_root vh)" "CHR 0x00 \<notin> set uri"
  shows "CHR 0x00 \<notin> set p"
proof -
  have t: "set (trim_trailing_slash s) \<subseteq> set s" "set (trim_leading_slash s) \<subseteq> set s" for s
    by (auto simp: trim_trailing_slash_def trim_leading_slash_def dest: in_set_takeD in_set_dropD)
  obtain c where c: "p = normalize_path c"
    "c = vh_document_root vh \<or> c = trim_trailing_slash (vh_document_root vh) @ ''/'' @ trim_leading_slash uri"
    using assms(1) by (auto simp: resolve_path_def Let_def split: if_splits)
  then have "CHR 0x00 \<notin> set c" using assms(2,3) t [of "vh_document_root vh"] t [of uri] by auto
  with c normalize_path_set [of c] show ?thesis by auto
qed

lemma request_path_set: "set (request_path request) \<subseteq> insert CHR ''/'' (set (rq_uri request))"
proof -
  have "set (fst (split_uri s)) \<subseteq> set s" for s
    by (auto simp: split_uri_def substr_def split: option.split dest: in_set_takeD in_set_dropD)
  then show ?thesis by (auto simp: request_path_def Let_def)
qed

lemma path_parts_candidate:
  assumes "q \<in> set (p # index_candidates p request root)"
  shows "\<exists>ss. path_parts q = path_parts p @ ss"
proof -
  have base: "path_parts ((if p = [] \<or> last p \<noteq> CHR ''/'' then p @ ''/'' else p) @ s) = path_parts p @ [s]"
    if "plain_segment s" for s
  proof -
    have seg: "segments s = [s]" using that split_slash_single [of s "[]"] by (simp add: plain_segment_def)
    show ?thesis
    proof (cases "p = [] \<or> last p \<noteq> CHR ''/''")
      case True
      then show ?thesis using that by (simp add: path_parts_append_slash seg push_plain_segment)
    next
      case False
      then obtain p' where p: "p = p' @ ''/''" by (metis append_butlast_last_id)
      then show ?thesis
        using that path_parts_append_slash [of p' "[]"] by (simp add: path_parts_append_slash seg push_plain_segment)
    qed
  qed
  have "plain_segment ''index.html''" "plain_segment ''index_m.html''" by (simp_all add: plain_segment_def)
  then show ?thesis
    using assms base [of "''index.html''"] base [of "''index_m.html''"]
    by (auto simp: index_candidates_def Let_def split: if_splits)
qed

lemma candidate_nul_free:
  "q \<in> set (p # index_candidates p request root) \<Longrightarrow> CHR 0x00 \<notin> set p \<Longrightarrow> CHR 0x00 \<notin> set q"
  by (auto simp: index_candidates_def Let_def split: if_splits)

lemma resolved_under:
  assumes "resolve_path vh uri = (p, True)" "is_absolute (vh_document_root vh)"
    "q \<in> set (p # index_candidates p request root)"
  shows "path_under_root q (vh_document_root vh)"
proof -
  have p: "p = abs_path (walk (vh_document_root vh) uri)"
    "prefix (path_parts (vh_document_root vh)) (walk (vh_document_root vh) uri)"
    using assms(1,2) by (auto simp: resolve_path_eq Let_def split: if_splits)
  obtain ss where ss: "path_parts q = path_parts p @ ss" using path_parts_candidate [OF assms(3)] by blast
  have "is_absolute q"
    using assms(3) p(1) by (auto simp: index_candidates_def Let_def is_absolute_def abs_path_def split: if_splits)
  then show ?thesis
    using p ss assms(2) by (simp add: path_under_root_segments)
qed

lemma handle_confined:
  assumes "handle os cfg request accepting addr k = Some (Inr r, k')"
    and "resolve_vhost cfg request = Some vh"
    and "is_absolute (vh_document_root vh)" "CHR 0x00 \<notin> set (vh_document_root vh)" "CHR 0x00 \<notin> set (rq_uri request)"
  shows "(0 \<le> rs_body_fd r \<longrightarrow>
      (\<exists>q. map_of (k_open k') (rs_body_fd r) = Some (Regular q) \<and> path_under_root q (vh_document_root vh)))
    \<and> (\<forall>program \<in> set (k_spawned k') - set (k_spawned k). path_under_root (fst program) (vh_document_root vh))"
  using assms(1)
proof (cases rule: handle_cases)
  case (answered r' k1)
  show ?thesis
  proof (cases "same_history k k1 \<and> rs_body_fd r' < 0")
    case True
    with answered show ?thesis by (auto simp: same_history_def)
  next
    case False
    with decide_discloses [OF answered(2)] assms(2) obtain p where
      p: "resolve_path vh (request_path request) = (p, True)" "discloses cfg request addr vh p k (Inr r', k1)"
      by auto
    have "CHR 0x00 \<notin> set p"
      using resolve_path_nul_free [OF p(1) assms(4)] request_path_set [of request] assms(5) by auto
    then have name: "c_str q = q" "path_under_root q (vh_document_root vh)"
      if "q \<in> set (p # index_candidates p request (vh_document_root vh))" for q
      using candidate_nul_free [OF that] c_str_id resolved_under [OF p(1) assms(3) that] by auto
    from p(2) name answered show ?thesis
      by (fastforce simp: discloses_def)
  qed
qed simp

text \<open>
  C3: confinement. With absolute document roots, and as long as neither they nor the request contain
  a NUL byte, every file handed to a client and every program started lies below the document root
  of the virtual host the request resolves to.
\<close>

theorem request_confined:
  assumes "handle os cfg request accepting addr k = Some (Inr r, k')"
    and "resolve_vhost cfg request = Some vh"
    and "is_absolute (vh_document_root vh)" "CHR 0x00 \<notin> set (vh_document_root vh)" "CHR 0x00 \<notin> set (rq_uri request)"
  shows "(0 \<le> rs_body_fd r \<longrightarrow>
      (\<exists>q. map_of (k_open k') (rs_body_fd r) = Some (Regular q) \<and> path_under_root q (vh_document_root vh)))
    \<and> (\<forall>program \<in> set (k_spawned k') - set (k_spawned k). path_under_root (fst program) (vh_document_root vh))"
  using handle_confined [OF assms] .

theorem request_confined_witness:
  "\<exists>r k' q. handle srv_os srv_config (srv_get ''/a.txt'') True None init_kernel = Some (Inr r, k')
     \<and> map_of (k_open k') (rs_body_fd r) = Some (Regular q) \<and> path_under_root q ''/srv/www''"
proof -
  obtain r k' where r: "handle srv_os srv_config (srv_get ''/a.txt'') True None init_kernel = Some (Inr r, k')"
    "0 \<le> rs_body_fd r" using srv_answer by blast
  from request_confined [OF r(1), of srv_host] r show ?thesis by auto
qed

section \<open>A NUL byte\<close>

lemma c_str_cut: "CHR 0x00 \<notin> set a \<Longrightarrow> c_str (a @ CHR 0x00 # b) = a"
  by (induction a) (auto simp: c_str_def)

lemma slashed_append [simp]: "slashed (ps @ qs) = slashed ps @ slashed qs"
  by (simp add: slashed_def)

lemma resolve_nul_dots:
  assumes "is_absolute (vh_document_root vh)" "CHR 0x00 \<notin> set (vh_document_root vh)" "path_parts (vh_document_root vh) \<noteq> []"
  defines "parent \<equiv> slashed (path_parts (vh_document_root vh)) @ ''/..''"
  shows "resolve_path vh (''/..'' @ [CHR 0x00]) = (parent @ [CHR 0x00], True)" "CHR 0x00 \<notin> set parent"
    "\<not> path_under_root parent (vh_document_root vh)"
proof -
  let ?ps = "path_parts (vh_document_root vh)"
  have "walk (vh_document_root vh) (''/..'' @ [CHR 0x00]) = ?ps @ [''..'' @ [CHR 0x00]]"
    by (simp add: walk_def push_segment_def)
  then show "resolve_path vh (''/..'' @ [CHR 0x00]) = (parent @ [CHR 0x00], True)"
    using assms(1) by (simp add: resolve_path_eq Let_def abs_path_slashed parent_def)
  have abs: "normalize_path (vh_document_root vh) = slashed ?ps"
    using assms(1,3) by (simp add: normalize_path_absolute abs_path_slashed)
  then show "CHR 0x00 \<notin> set parent"
    using normalize_path_set [of "vh_document_root vh"] assms(2) by (auto simp: parent_def)
  have "path_parts (slashed ?ps) = ?ps" by (metis abs normalize_path_parts)
  then have "path_parts parent = butlast ?ps"
    using assms(3) by (simp add: parent_def path_parts_append_slash push_segment_def)
  moreover have "is_absolute parent" using assms(3) by (cases ?ps) (auto simp: parent_def is_absolute_def)
  moreover have "\<not> prefix ?ps (butlast ?ps)"
    using assms(3) by (metis length_butlast diff_less length_greater_0_conv not_le prefix_length_le zero_less_one)
  ultimately show "\<not> path_under_root parent (vh_document_root vh)"
    using assms(1) by (simp add: path_under_root_segments)
qed

text \<open>
  C40: a NUL byte breaks the confinement. The request \<open>GET /..\<close> followed by a NUL byte passes the
  test for being under the document root, which sees the whole \<open>std::string\<close>, but \<open>stat\<close>,
  \<open>opendir\<close> and the \<open>.htaccess\<close> stream see the path up to the NUL byte: the client is sent the
  listing of the directory above the document root.
\<close>

theorem nul_byte_escapes_root:
  assumes "resolve_vhost cfg request = Some vh" "rq_method request = GET" "rq_uri request = ''/..'' @ [CHR 0x00]"
    and "is_absolute (vh_document_root vh)" "CHR 0x00 \<notin> set (vh_document_root vh)" "path_parts (vh_document_root vh) \<noteq> []"
    and "\<And>n. os_stat os n (slashed (path_parts (vh_document_root vh)) @ ''/..'') = Some st" "S_ISDIR st" "\<not> S_ISREG st"
    and "\<And>n. os_content os n (slashed (path_parts (vh_document_root vh)) @ ''/..'') = None"
    and "\<And>n. os_listdir os n (slashed (path_parts (vh_document_root vh)) @ ''/..'') = Some names"
  shows "\<exists>r k' es. handle os cfg request accepting addr k = Some (Inr r, k') \<and> rs_status_code r = St_Ok
    \<and> map de_name es = filter (\<lambda>nm. nm \<noteq> ''.'' \<and> nm \<noteq> ''..'') names
    \<and> rs_body r = render_listing os (rq_uri request) es
    \<and> \<not> path_under_root (slashed (path_parts (vh_document_root vh)) @ ''/..'') (vh_document_root vh)"
proof -
  define parent where "parent = slashed (path_parts (vh_document_root vh)) @ ''/..''"
  define p where "p = parent @ [CHR 0x00]"
  note nul = resolve_nul_dots [OF assms(4-6), folded parent_def, folded p_def]
  have cut: "c_str (p @ s) = parent" for s using nul(2) c_str_cut [of parent s] by (simp add: p_def)
  note cut' = cut [of "[]", simplified]
  have path: "request_path request = ''/..'' @ [CHR 0x00]"
    by (simp add: request_path_def split_uri_def assms(3) find_char_None_iff)
  have p: "p \<noteq> []" "last p \<noteq> CHR ''/''" by (simp_all add: p_def)
  have dir: "dir_of_resource p st = p" using assms(8) by (simp add: dir_of_resource_def)
  have auth: "check_htaccess_and_auth os p request k1 = (Auth_Ok, tick k1)" for k1
    using p assms(10) cut [of "''/.htaccess''"]
    by (simp add: check_htaccess_and_auth_def parse_htaccess_def sys_slurp_def trim_trailing_slash_def
        parent_def htaccess_of_file_def)
  have idx: "first_index os cs k1 = (None, (tick ^^ length cs) k1)" if "\<forall>c \<in> set cs. \<exists>s. c = p @ s" for cs k1
    using that
  proof (induction cs arbitrary: k1)
    case (Cons c cs)
    then obtain s where "c = p @ s" by auto
    with Cons assms(7,9) cut show ?case by (simp add: sys_stat_def parent_def funpow_swap1)
  qed simp
  have cand: "\<forall>c \<in> set (index_candidates p request root). \<exists>s. c = p @ s" for root
    using p by (auto simp: index_candidates_def Let_def)
  obtain k3 where i: "first_index os (index_candidates p request (vh_document_root vh)) (tick (tick k)) = (None, k3)"
    using idx [OF cand] by blast
  obtain es k4 where e: "read_entries os p names (tick k3) = (es, k4)" by fastforce
  have "find_char CHR ''?'' (rq_uri request) = None" by (simp add: assms(3) find_char_None_iff)
  then have serve: "serve_directory_index os p request (vh_document_root vh) (tick (tick k))
      = (Inr (listing_response (render_listing os (rq_uri request) es)), k4)"
    using i e assms(11) cut' by (simp add: serve_directory_index_def build_listing_def sys_listdir_def parent_def)
  have stat: "sys_stat os p k = (Some st, tick k)" using assms(7) cut' by (simp add: sys_stat_def parent_def)
  have "decide os cfg request accepting addr k = serve_found os cfg request addr vh p st (tick (tick k))"
    using assms(1,2) nul(1) by (simp add: decide_def path stat dir auth)
  also have "\<dots> = Some (Inr (listing_response (render_listing os (rq_uri request) es)), k4)"
    using assms(2,8,9) by (simp add: serve_found_def serve stripped_def strip_body_def)
  finally have d: "decide os cfg request accepting addr k
      = Some (Inr (listing_response (render_listing os (rq_uri request) es)), k4)" .
  have "render_listing os u es \<noteq> []" for u by (simp add: render_listing_def listing_foot_def)
  then have "rs_status_code (listing_response (render_listing os u es)) = St_Ok"
    "rs_body (listing_response (render_listing os u es)) = render_listing os u es" for u
    by (simp_all add: listing_response_def)
  moreover have "map de_name es = filter (\<lambda>nm. nm \<noteq> ''.'' \<and> nm \<noteq> ''..'') names"
    using read_entries_names [of os p names "tick k3"] e by simp
  ultimately show ?thesis
    using d nul(3) by (auto simp: handle_decide logged_def sys_time_def parent_def)
qed

theorem nul_byte_escapes_root_witness:
  "\<exists>r k' es. handle srv_os srv_config (srv_get (''/..'' @ [CHR 0x00])) True None init_kernel = Some (Inr r, k')
     \<and> rs_status_code r = St_Ok \<and> map de_name es = [''www'', ''key'']
     \<and> rs_body r = render_listing srv_os (''/..'' @ [CHR 0x00]) es \<and> \<not> path_under_root ''/srv/www/..'' ''/srv/www''"
proof -
  have "\<exists>r k' es. handle srv_os srv_config (srv_get (''/..'' @ [CHR 0x00])) True None init_kernel = Some (Inr r, k')
     \<and> rs_status_code r = St_Ok
     \<and> map de_name es = filter (\<lambda>nm. nm \<noteq> ''.'' \<and> nm \<noteq> ''..'') [''.'', ''..'', ''www'', ''key'']
     \<and> rs_body r = render_listing srv_os (rq_uri (srv_get (''/..'' @ [CHR 0x00]))) es
     \<and> \<not> path_under_root (slashed (path_parts (vh_document_root srv_host)) @ ''/..'') (vh_document_root srv_host)"
    by (rule nul_byte_escapes_root [where st = dir_stat]) simp_all
  then show ?thesis by simp
qed

section \<open>HEAD\<close>

definition as_head :: "http_request \<Rightarrow> http_request" where
  "as_head request = request\<lparr>rq_method := HEAD, rq_method_str := ''HEAD''\<rparr>"

lemma as_head_simps [simp]:
  "rq_method (as_head request) = HEAD" "rq_method_str (as_head request) = ''HEAD''"
  "rq_uri (as_head request) = rq_uri request" "rq_headers (as_head request) = rq_headers request"
  by (simp_all add: as_head_def)

lemma as_head_calls [simp]:
  "resolve_vhost cfg (as_head request) = resolve_vhost cfg request"
  "request_path (as_head request) = request_path request"
  "check_htaccess_and_auth os dir (as_head request) k = check_htaccess_and_auth os dir request k"
  "serve_static_file os p (as_head request) k = serve_static_file os p request k"
  unfolding resolve_vhost_def request_path_def check_htaccess_and_auth_def check_credentials_def
    serve_static_file_def after_conditionals_def send_file_def check_accept_def as_head_simps by (rule refl)+

lemma as_head_directory [simp]:
  "serve_directory_index os p (as_head request) root k = serve_directory_index os p request root k"
  unfolding serve_directory_index_def index_candidates_def as_head_calls as_head_simps by (rule refl)

text \<open>\<open>bodyless r' r\<close>: the response \<open>r\<close> without its body.\<close>

definition bodyless :: "http_response \<Rightarrow> http_response \<Rightarrow> bool" where
  "bodyless r' r \<longleftrightarrow> rs_status_code r' = rs_status_code r \<and> rs_status_message r' = rs_status_message r
     \<and> rs_headers r' = rs_headers r \<and> rs_body r' = [] \<and> rs_body_fd r' < 0"

lemma stripped_head:
  assumes "stripped GET res = (Inr r, k1)"
  shows "\<exists>r' k2. stripped HEAD res = (Inr r', k2) \<and> bodyless r' r"
  using assms by (cases res) (auto simp: stripped_def strip_body_def bodyless_def split: sum.splits)

lemma serve_found_head:
  assumes "rq_method request = GET" "S_ISREG st \<Longrightarrow> fst (is_executable os p k) = False"
    "serve_found os cfg request addr vh p st k = Some (Inr r, k1)"
  shows "\<exists>r' k2. serve_found os cfg (as_head request) addr vh p st k = Some (Inr r', k2) \<and> bodyless r' r"
proof -
  obtain ex k0 where ex: "(if S_ISREG st then is_executable os p k else (False, k)) = (ex, k0)" by fastforce
  then have "\<not> ex" using assms(2) by (auto split: if_splits)
  then show ?thesis
    using assms(1,3) ex stripped_head [of "serve_static_file os p request k0" r k1]
      stripped_head [of "serve_directory_index os p request (vh_document_root vh) k0" r k1]
    by (auto simp: serve_found_def bodyless_def)
qed

text \<open>
  HEAD answers as GET does. For any resource that is not a script, the answer to HEAD has the
  status and exactly the headers, Content-Length included, of the answer to GET, and no body.
\<close>

theorem head_is_get_without_body:
  assumes "rq_method request = GET" "\<And>n path st. os_stat os n path = Some st \<Longrightarrow> \<not> (S_ISREG st \<and> any_exec_bit st)"
    and "request_path request \<noteq> ''/load''"
    and "handle os cfg request accepting addr k = Some (Inr r, k1)"
  shows "\<exists>r' k2. handle os cfg (as_head request) accepting addr k = Some (Inr r', k2) \<and> bodyless r' r"
  using assms(4)
proof (cases rule: handle_cases)
  case (answered r0 k0)
  have noexec: "fst (is_executable os p k) = False" for p k
    using assms(2) by (auto simp: is_executable_def sys_stat_def split: option.split)
  have "\<exists>r' k2. decide os cfg (as_head request) accepting addr k = Some (Inr r', k2) \<and> bodyless r' r"
    using answered(1,2) assms(1,3) serve_found_head [OF assms(1)] noexec
    by (auto simp: decide_def bodyless_def unauthorized_def split: option.splits prod.splits bool.splits if_splits)
  then show ?thesis by (auto simp: handle_decide logged_def sys_time_def)
qed simp

theorem head_is_get_without_body_witness:
  "\<exists>r k1 r' k2. handle srv_os srv_config (srv_get ''/a.txt'') True None init_kernel = Some (Inr r, k1)
     \<and> handle srv_os srv_config (as_head (srv_get ''/a.txt'')) True None init_kernel = Some (Inr r', k2) \<and> bodyless r' r"
proof -
  obtain r k1 where r: "handle srv_os srv_config (srv_get ''/a.txt'') True None init_kernel = Some (Inr r, k1)"
    using srv_answer by blast
  have "request_path (srv_get ''/a.txt'') = ''/a.txt''" by (simp add: request_path_def split_uri_def)
  moreover have "\<not> (S_ISREG st \<and> any_exec_bit st)" if "os_stat srv_os n p = Some st" for n p st
    using that by (auto simp: srv_os_def split: if_splits)
  ultimately show ?thesis
    using r head_is_get_without_body [of "srv_get ''/a.txt''" srv_os srv_config True None init_kernel r] by auto
qed

section \<open>Descriptors and termination\<close>

lemma strip_body_leaves:
  assumes "leaves k k1 (owned_fd r)" "strip_body m r k1 = (r', k')"
  shows "leaves k k' (owned_fd r')"
  using assms sys_close_leaves [of k k1 "[rs_body_fd r]" "rs_body_fd r"]
  by (auto simp: strip_body_def owned_fd_def split: if_splits)

lemma stripped_leaves:
  assumes "\<And>r0 k0. res = (Inr r0, k0) \<Longrightarrow> leaves k k0 (owned_fd r0)" "stripped m res = (Inr r, k')"
  shows "leaves k k' (owned_fd r)"
proof -
  obtain r0 k0 where "res = (Inr r0, k0)" "strip_body m r0 k0 = (r, k')"
    using assms(2) by (cases res) (auto simp: stripped_def split: sum.splits prod.splits)
  with assms(1) strip_body_leaves show ?thesis by blast
qed

definition same_table :: "kernel \<Rightarrow> kernel \<Rightarrow> bool" where
  "same_table k k' \<longleftrightarrow> k_open k' = k_open k \<and> k_bad_close k' = k_bad_close k \<and> k_children k' = k_children k"

lemma same_table_calls:
  "sys_stat os p k = (r1, k') \<Longrightarrow> same_table k k'"
  "sys_time os k = (r2, k') \<Longrightarrow> same_table k k'"
  "check_htaccess_and_auth os dir request k = (r3, k') \<Longrightarrow> same_table k k'"
  "is_executable os p k = (r4, k') \<Longrightarrow> same_table k k'"
  by (auto simp: sys_stat_def sys_time_def check_htaccess_and_auth_def parse_htaccess_def sys_slurp_def is_executable_def
      Let_def same_table_def split: prod.splits option.splits if_splits)

lemma same_table_leaves:
  assumes "same_table k k1" "leaves k1 k' fds" shows "leaves k k' fds"
  using assms leaves_same_fds [of k1 k k' fds] by (simp add: same_table_def)

lemma same_table_ok: "same_table k k1 \<Longrightarrow> kernel_ok k1 = kernel_ok k"
  by (simp add: same_table_def kernel_ok_def)

lemma serve_found_leaves:
  assumes "waits os" "kernel_ok k" "serve_found os cfg request addr vh p st k = Some (Inr r, k')"
  shows "leaves k k' (owned_fd r)"
proof -
  obtain ex k1 where ex: "(if S_ISREG st then is_executable os p k else (False, k)) = (ex, k1)" by fastforce
  then have t: "same_table k k1" using same_table_calls(4) by (auto simp: same_table_def split: if_splits)
  then have ok: "kernel_ok k1" using assms(2) same_table_ok by blast
  have "leaves k1 k' (owned_fd r)"
  proof (cases ex)
    case True
    with assms(3) ex have "run_cgi os cfg p request (Some vh) addr k1 = Some (r, k')" by (auto simp: serve_found_def)
    from run_cgi_effect [OF assms(1) ok this] show ?thesis by (simp add: settled_up_def owned_fd_def)
  next
    case False
    have "leaves k1 k' (owned_fd r)" if "stripped (rq_method request) (serve_static_file os p request k1) = (Inr r, k')"
      by (rule stripped_leaves [OF _ that]) (rule serve_static_file_leaves [OF ok])
    moreover have "leaves k1 k' (owned_fd r)"
      if "stripped (rq_method request) (serve_directory_index os p request (vh_document_root vh) k1) = (Inr r, k')"
      by (rule stripped_leaves [OF _ that]) (rule serve_directory_index_leaves [OF ok])
    moreover have "owned_fd (mk_response s) = []" for s by (simp add: owned_fd_def)
    ultimately show ?thesis
      using assms(3) ex False ok by (auto simp: serve_found_def split: if_splits)
  qed
  with t show ?thesis by (rule same_table_leaves)
qed


lemma decide_leaves:
  assumes "waits os" "kernel_ok k" "decide os cfg request accepting addr k = Some (Inr r, k')"
  shows "leaves k k' (owned_fd r)"
proof (cases "resolve_vhost cfg request")
  case None
  with assms show ?thesis by (auto simp: decide_def owned_fd_def)
next
  case vh: (Some vh)
  obtain p under where rp: "resolve_path vh (request_path request) = (p, under)" by fastforce
  obtain st k1 where stat: "sys_stat os p k = (st, k1)" by fastforce
  obtain auth k2 where auth: "check_htaccess_and_auth os (dir_of_resource p (the st)) request k1 = (auth, k2)" by fastforce
  have t: "same_table k k1" "same_table k k2"
    using same_table_calls(1) [OF stat] same_table_calls(3) [OF auth] by (auto simp: same_table_def)
  have quick: "leaves k k0 (owned_fd r)" if "same_table k k0" "rs_body_fd r < 0" for k0
    using that assms(2) same_table_leaves [OF that(1) leaves_refl] same_table_ok by (auto simp: owned_fd_def)
  have found: "leaves k k' (owned_fd r)" if "serve_found os cfg request addr vh p s k2 = Some (Inr r, k')" for s
    using same_table_leaves [OF t(2) serve_found_leaves [OF assms(1) _ that]] t(2) assms(2) same_table_ok by blast
  show ?thesis
    using assms(3) vh rp stat auth t quick found quick [of k]
    by (cases st) (auto simp: decide_def unauthorized_def options_response_def sys_time_def same_table_def
        split: if_splits bool.splits)
qed

lemma handle_leaves:
  assumes "waits os" "kernel_ok k" "handle os cfg request accepting addr k = Some (Inr r, k')"
  shows "leaves k k' (owned_fd r)"
  using assms(3)
proof (cases rule: handle_cases)
  case (answered r' k1)
  with decide_leaves [OF assms(1,2) answered(2)] show ?thesis
    using leaves_same_fds_right [of k' k1 k] by simp
qed simp

interpretation pipeline: fd_handler
  "\<lambda>(request, accepting, addr) k. if waits os then handle os cfg request accepting addr k else None" owned_fd for os cfg
  by unfold_locales (auto dest: handle_leaves split: if_splits)

lemma decide_returns:
  assumes "script_ends os T" "\<And>n. os_fork os n \<noteq> 0"
  shows "\<exists>res. decide os cfg request accepting addr k = Some res"
proof -
  have "\<exists>res. serve_found os cfg request addr vh p st k = Some res" for vh p st k
    using run_cgi_terminates [OF assms] by (fastforce simp: serve_found_def split: prod.split)
  then show ?thesis by (auto simp: decide_def split: option.split prod.split bool.split)
qed



end
