(* ===== verification/Access_Log.thy ===== *)
theory Access_Log
  imports Pipeline_Properties Parser_Properties
begin

text \<open>
  \<open>http/core/logger.hpp\<close>: where the entries of the access log go. \<open>Kernel\<close> keeps the entries in the
  order of the calls of \<open>Logger::write\<close>; here is what they become in the log file or on standard error,
  and that every request is one line of it. Whether the file can be opened for appending is a parameter.
\<close>

section \<open>The logger\<close>

text \<open>What the files hold, and what has been written to standard error.\<close>

record log_output =
  lo_files :: "string \<Rightarrow> string"
  lo_stderr :: string

record logger =
  lg_path :: string
  lg_to_file :: bool

definition stderr_logger :: logger where
  "stderr_logger = \<lparr>lg_path = [], lg_to_file = False\<rparr>"

definition file_logger :: "(string \<Rightarrow> bool) \<Rightarrow> string \<Rightarrow> logger" where
  "file_logger can_append path = \<lparr>lg_path = path, lg_to_file = can_append path\<rparr>"

definition logger_write :: "logger \<Rightarrow> string \<Rightarrow> log_output \<Rightarrow> log_output" where
  "logger_write lg entry out =
     (if lg_to_file lg
      then out\<lparr>lo_files := (lo_files out)(lg_path lg := lo_files out (lg_path lg) @ entry @ [LF])\<rparr>
      else out\<lparr>lo_stderr := lo_stderr out @ entry @ [LF]\<rparr>)"

text \<open>The constructor of \<open>RequestHandler\<close> chooses the logger.\<close>

definition handler_logger :: "(string \<Rightarrow> bool) \<Rightarrow> config \<Rightarrow> logger" where
  "handler_logger can_append cfg =
     (if cf_log_file cfg = [] then stderr_logger else file_logger can_append (cf_log_file cfg))"

text \<open>What can be read of the log afterwards.\<close>

definition log_text :: "logger \<Rightarrow> log_output \<Rightarrow> string" where
  "log_text lg out = (if lg_to_file lg then lo_files out (lg_path lg) else lo_stderr out)"

definition log_lines :: "logger \<Rightarrow> log_output \<Rightarrow> string list" where
  "log_lines lg out = getlines LF (log_text lg out)"

section \<open>Appending to complete lines\<close>

definition complete_lines :: "string \<Rightarrow> bool" where
  "complete_lines s \<longleftrightarrow> s = [] \<or> last s = LF"

lemma getlines_nonempty: "s \<noteq> [] \<Longrightarrow> getlines d s \<noteq> []"
  by (cases s) (auto split: list.split)

lemma getlines_append: "complete_lines s \<Longrightarrow> getlines LF (s @ t) = getlines LF s @ getlines LF t"
proof (induction s)
  case (Cons c s)
  show ?case
  proof (cases "c = LF")
    case True
    with Cons show ?thesis by (cases s) (simp_all add: complete_lines_def)
  next
    case False
    with Cons.prems have s: "s \<noteq> []" "complete_lines s" by (auto simp: complete_lines_def split: if_splits)
    obtain l ls where "getlines LF s = l # ls" using getlines_nonempty [OF s(1)] by (cases "getlines LF s") auto
    with Cons.IH [OF s(2)] False show ?thesis by simp
  qed
qed simp

lemma logger_write_line:
  assumes "LF \<notin> set e" "complete_lines (log_text lg out)"
  shows "log_text lg (logger_write lg e out) = log_text lg out @ e @ [LF]"
    "log_lines lg (logger_write lg e out) = log_lines lg out @ [e]"
    "complete_lines (log_text lg (logger_write lg e out))"
proof -
  show t: "log_text lg (logger_write lg e out) = log_text lg out @ e @ [LF]"
    by (simp add: log_text_def logger_write_def)
  show "log_lines lg (logger_write lg e out) = log_lines lg out @ [e]"
    using getlines_line [OF assms(1), of "[]"] by (simp add: log_lines_def t getlines_append [OF assms(2)])
  show "complete_lines (log_text lg (logger_write lg e out))" by (simp add: t complete_lines_def)
qed

section \<open>An entry is one line\<close>

definition length_one_line :: "http_response \<Rightarrow> bool" where
  "length_one_line r \<longleftrightarrow> (\<forall>v. header_get (rs_headers r) ''Content-Length'' = Some v \<longrightarrow> LF \<notin> set v)"

lemma length_one_line_simps [simp]:
  "length_one_line (mk_response st)" "length_one_line (r\<lparr>rs_body_fd := fd\<rparr>) = length_one_line r"
  "length_one_line (r\<lparr>rs_body := b\<rparr>) = length_one_line r" "length_one_line unauthorized" "length_one_line (options_response now)"
  "length_one_line (not_modified etag now)" "length_one_line (listing_response body)"
  "length_one_line (range_response fd rg n r)" "length_one_line (whole_response fd n r)" "length_one_line (range_not_satisfiable n)"
  by (auto simp: length_one_line_def mk_response_def unauthorized_def options_response_def not_modified_def
      listing_response_def range_response_def whole_response_def range_not_satisfiable_def Let_def)

lemma send_file_length: "send_file os path request st k = (Inr r, k') \<Longrightarrow> length_one_line r"
  by (auto simp: send_file_def Let_def split: prod.splits if_splits sum.splits)

lemma serve_static_file_length: "serve_static_file os path request k = (Inr r, k') \<Longrightarrow> length_one_line r"
  by (erule serve_static_file_cases) (auto dest: send_file_length)

lemma serve_directory_index_length: "serve_directory_index os path request root k = (Inr r, k') \<Longrightarrow> length_one_line r"
  by (auto simp: serve_directory_index_def Let_def dest: serve_static_file_length split: prod.splits option.splits)

lemma parse_cgi_output_length: "length_one_line (parse_cgi_output g out)"
  by (auto simp: parse_cgi_output_def length_one_line_def mk_response_def cgi_header_lines_framing Let_def split: option.split)

lemma run_cgi_length: "run_cgi os cfg path request vh addr k = Some (r, k') \<Longrightarrow> length_one_line r"
  by (auto simp: run_cgi_def cgi_parent_def cgi_finish_def Let_def parse_cgi_output_length
      split: prod.splits option.splits if_splits bool.splits)

lemma stripped_length: "stripped m res = (Inr r, k') \<Longrightarrow> \<forall>r k. res = (Inr r, k) \<longrightarrow> length_one_line r \<Longrightarrow> length_one_line r"
  by (auto simp: stripped_def strip_body_def Let_def split: prod.splits sum.splits if_splits)

lemma serve_found_length: "serve_found os cfg request addr vh p st k = Some (Inr r, k') \<Longrightarrow> length_one_line r"
  by (auto simp: serve_found_def Let_def split: prod.splits if_splits
      dest!: stripped_length intro: run_cgi_length serve_static_file_length serve_directory_index_length)

lemma decide_length: "decide os cfg request accepting addr k = Some (Inr r, k') \<Longrightarrow> length_one_line r"
  by (auto simp: decide_def Let_def dest: serve_found_length split: prod.splits option.splits if_splits bool.splits)

lemma pad2_no_LF: "LF \<notin> set (pad2 n)"
  by (simp add: pad2_def)

lemma log_timestamp_no_LF: "LF \<notin> set (log_timestamp now)"
proof (cases "gmtime now")
  case (Some tm)
  have "tm_mon tm < 12" using gmtime_fields [OF Some] by simp
  then have "snd (month_names ! tm_mon tm) \<in> snd ` set month_names" by (intro imageI nth_mem) (simp add: month_names_def)
  then have "LF \<notin> set (snd (month_names ! tm_mon tm))" by (auto simp: month_names_def)
  then show ?thesis
    using Some by (auto simp: log_timestamp_def pad2_no_LF pad_left_def dest!: in_set_takeD)
qed (simp add: log_timestamp_def)

lemma c_str_set: "set (c_str s) \<subseteq> set s"
  by (auto simp: c_str_def dest: set_takeWhileD)

lemma log_entry_no_LF:
  assumes "length_one_line r" "LF \<notin> set (rq_method_str request)" "LF \<notin> set (rq_uri request)" "\<forall>a. addr = Some a \<longrightarrow> LF \<notin> set a"
  shows "LF \<notin> set (log_entry addr request r now)"
proof -
  have "LF \<notin> set (log_bytes r)" using assms(1) by (auto simp: log_bytes_def length_one_line_def split: option.split)
  then show ?thesis
    using assms(2-4) c_str_set log_timestamp_no_LF [of now]
    by (fastforce simp: log_entry_def Let_def dest!: in_set_takeD split: option.splits if_splits)
qed

section \<open>One line for each request\<close>

text \<open>
  C29: every request is one line of the access log. Take any bytes a client sends, in any pieces, and the
  request the parser makes of them: once it has been answered, the log file (or standard error, when no
  file is configured or it cannot be opened) ends in one new line, made of this request and its answer, and the
  lines before it are what they were. No client can add a second line or change another, whatever
  the request, the script that answers it or the file served.
\<close>

theorem one_line_per_request:
  assumes "p = foldl (\<lambda>p c. parser_call_step c p) init_parser calls" "has_request p"
    and "handle os cfg (fst (get_request p)) accepting addr k = Some (Inr r, k')" "\<forall>a. addr = Some a \<longrightarrow> LF \<notin> set a"
    and "complete_lines (log_text (handler_logger can_append cfg) out)"
  shows "\<exists>e now. k_log k' = k_log k @ [e] \<and> e = log_entry addr (fst (get_request p)) r now \<and> length e \<le> 1023
    \<and> log_lines (handler_logger can_append cfg) (logger_write (handler_logger can_append cfg) e out)
        = log_lines (handler_logger can_append cfg) out @ [e]
    \<and> complete_lines (log_text (handler_logger can_append cfg) (logger_write (handler_logger can_append cfg) e out))"
proof -
  let ?q = "fst (get_request p)"
  have q: "?q = ps_request p" by (simp add: get_request_def)
  have "complete_inv (ps_request p)"
    using parser_sys.reachable_inv [OF parser_run_reachable, of calls] assms(1,2) by (auto simp: parser_inv_def has_request_def)
  then have clean: "LF \<notin> set (rq_uri ?q)" "LF \<notin> set (rq_method_str ?q)"
    by (cases "rq_method (ps_request p)"; simp add: q complete_inv_def request_inv_def)+
  from assms(3) show ?thesis
  proof (cases rule: handle_cases)
    case (answered r' k1)
    have "decide os cfg ?q accepting addr k = Some (Inr r, k1)" "k_log k1 = k_log k"
      using answered decide_discloses [OF answered(2)] by (auto simp: same_history_def discloses_def)
    moreover define e where "e = log_entry addr ?q r (os_time os (k_tick k1))"
    ultimately have e: "LF \<notin> set e" "k_log k' = k_log k @ [e]"
      using log_entry_no_LF [OF decide_length clean(2,1) assms(4)] answered by simp_all
    have "length e \<le> 1023" by (simp add: e_def log_entry_def Let_def)
    with e logger_write_line [OF e(1) assms(5)] show ?thesis unfolding e_def by blast
  qed simp
qed

text \<open>A log that already holds a line.\<close>

definition old_log :: log_output where
  "old_log = \<lparr>lo_files = (\<lambda>_. ''first'' @ [LF]), lo_stderr = ''first'' @ [LF]\<rparr>"

theorem one_line_per_request_witness:
  "\<exists>r k' e. handle srv_os srv_config (srv_get ''/a.txt'') True None init_kernel = Some (Inr r, k') \<and> k_log k' = [e]
     \<and> log_lines (handler_logger (\<lambda>_. True) srv_config) (logger_write (handler_logger (\<lambda>_. True) srv_config) e old_log)
       = log_lines (handler_logger (\<lambda>_. True) srv_config) old_log @ [e]"
proof -
  let ?calls = "[Feed (request_head GET ''/a.txt'' [])]"
  let ?p = "foldl (\<lambda>p c. parser_call_step c p) init_parser ?calls"
  have p: "has_request ?p" "fst (get_request ?p) = srv_get ''/a.txt''" by code_simp+
  obtain r k' where r: "handle srv_os srv_config (srv_get ''/a.txt'') True None init_kernel = Some (Inr r, k')"
    using srv_answer by blast
  have c: "complete_lines (log_text (handler_logger (\<lambda>_. True) srv_config) old_log)"
    by (simp add: complete_lines_def log_text_def old_log_def)
  obtain e where "k_log k' = k_log init_kernel @ [e]"
    "log_lines (handler_logger (\<lambda>_. True) srv_config) (logger_write (handler_logger (\<lambda>_. True) srv_config) e old_log)
       = log_lines (handler_logger (\<lambda>_. True) srv_config) old_log @ [e]"
    using one_line_per_request [OF refl p(1) r [folded p(2)] _ c] by auto
  with r show ?thesis by (auto simp: init_kernel_def)
qed

end
