(* ===== verification/Wire.thy ===== *)
theory Wire
  imports Pipeline_Properties
begin

text \<open>
  Handling a request does not touch the descriptors that were open before: what has been sent to and
  received from them stays what it was. The connection code relies on it, because the bytes on a
  client's socket are then those it puts there itself.
\<close>

definition same_io :: "kernel \<Rightarrow> kernel \<Rightarrow> bool" where
  "same_io k k' \<longleftrightarrow> k_sent k' = k_sent k \<and> k_received k' = k_received k"

definition quiet :: "int \<Rightarrow> kernel \<Rightarrow> kernel \<Rightarrow> bool" where
  "quiet fd k k' \<longleftrightarrow> sent_to fd k' = sent_to fd k \<and> received_from fd k' = received_from fd k"

lemma same_io_refl [simp]: "same_io k k"
  by (simp add: same_io_def)

lemma same_io_trans: "same_io k k1 \<Longrightarrow> same_io k1 k2 \<Longrightarrow> same_io k k2"
  by (simp add: same_io_def)

lemma same_io_quiet: "same_io k k' \<Longrightarrow> quiet fd k k'"
  by (simp add: same_io_def quiet_def sent_to_def received_from_def)

lemma quiet_refl [simp]: "quiet fd k k"
  by (simp add: quiet_def)

lemma quiet_trans: "quiet fd k k1 \<Longrightarrow> quiet fd k1 k2 \<Longrightarrow> quiet fd k k2"
  by (simp add: quiet_def)

lemma sys_close_io [simp]: "k_sent (sys_close fd k) = k_sent k" "k_received (sys_close fd k) = k_received k"
  by (simp_all add: sys_close_def)

lemma io_tick [simp]: "same_io k (tick k') = same_io k k'" "same_io (tick k) k' = same_io k k'"
    "same_io k (sys_close fd k') = same_io k k'" "same_io (sys_close fd k) k' = same_io k k'"
    "quiet c k (tick k') = quiet c k k'" "quiet c (tick k) k' = quiet c k k'"
    "quiet c k (sys_close fd k') = quiet c k k'" "quiet c (sys_close fd k) k' = quiet c k k'"
  by (simp_all add: same_io_def quiet_def sent_to_def received_from_def)

lemma same_io_calls:
  "sys_stat os p k = (r1, k') \<Longrightarrow> same_io k k'"
  "sys_time os k = (r2, k') \<Longrightarrow> same_io k k'"
  "sys_open os p k = (r3, k') \<Longrightarrow> same_io k k'"
  "sys_slurp os p k = (r4, k') \<Longrightarrow> same_io k k'"
  "sys_listdir os p k = (r5, k') \<Longrightarrow> same_io k k'"
  "sys_select os fd k = (r6, k') \<Longrightarrow> same_io k k'"
  "sys_wait os pid k = (r7, k') \<Longrightarrow> same_io k k'"
  "sys_pipe os k = (r8, k') \<Longrightarrow> same_io k k'"
  "sys_fork os prog k = (r9, k') \<Longrightarrow> same_io k k'"
  by (auto simp: sys_stat_def sys_time_def sys_open_def sys_slurp_def sys_listdir_def sys_fork_def
      sys_select_def sys_wait_def sys_pipe_def alloc_fd_def Let_def same_io_def split: if_splits)

lemma sent_to_app: "k_sent k' = k_sent k @ [(fd, s)] \<Longrightarrow> sent_to c k' = (if c = fd then sent_to c k @ s else sent_to c k)"
  by (simp add: sent_to_def)

lemma received_from_app:
  "k_received k' = k_received k @ [(fd, s)] \<Longrightarrow> received_from c k' = (if c = fd then received_from c k @ s else received_from c k)"
  by (simp add: received_from_def)

lemma sys_write_quiet: "sys_write os fd s k = (r, k') \<Longrightarrow> c \<noteq> fd \<Longrightarrow> quiet c k k'"
  by (auto simp: sys_write_def quiet_def sent_to_def received_from_def split: io_write.splits)

lemma sys_read_quiet: "sys_read os fd n k = (r, k') \<Longrightarrow> c \<noteq> fd \<Longrightarrow> quiet c k k'"
  by (auto simp: sys_read_def quiet_def sent_to_def received_from_def split: io_read.splits)

section \<open>Static answers\<close>

lemma kill_child_io [simp]: "same_io k (kill_child os pid k') = same_io k k'" "quiet c k (kill_child os pid k') = quiet c k k'"
  by (auto simp: kill_child_def sys_kill_def sys_wait_def Let_def same_io_def quiet_def sent_to_def received_from_def)

lemma is_executable_io: "is_executable os path k = (r, k') \<Longrightarrow> same_io k k'"
  by (auto simp: is_executable_def sys_stat_def split: option.splits)

lemma check_htaccess_io: "check_htaccess_and_auth os dir request k = (r, k') \<Longrightarrow> same_io k k'"
  by (auto simp: check_htaccess_and_auth_def parse_htaccess_def sys_slurp_def Let_def split: option.splits if_splits)

lemma send_file_io: "send_file os path request st k = (r, k') \<Longrightarrow> same_io k k'"
  by (cases "sys_open os path k")
    (auto simp: send_file_def Let_def sys_time_def split: if_splits sum.splits dest!: same_io_calls(3))

lemma serve_static_file_io: "serve_static_file os path request k = (r, k') \<Longrightarrow> same_io k k'"
  by (auto simp: serve_static_file_def sys_stat_def sys_time_def after_conditionals_def Let_def
      split: option.splits prod.splits if_splits dest!: send_file_io)

lemma first_index_io: "first_index os cs k = (r, k') \<Longrightarrow> same_io k k'"
  by (induction os cs k rule: first_index.induct) (auto simp: Let_def sys_stat_def split: if_splits)

lemma read_entries_io: "read_entries os dir names k = (es, k') \<Longrightarrow> same_io k k'"
  by (induction os dir names k arbitrary: es rule: read_entries.induct)
    (auto simp: Let_def sys_stat_def split: prod.splits if_splits)

lemma serve_directory_index_io: "serve_directory_index os dir request root k = (r, k') \<Longrightarrow> same_io k k'"
  by (auto simp: serve_directory_index_def build_listing_def sys_listdir_def Let_def
      split: prod.splits option.splits
      dest!: first_index_io read_entries_io serve_static_file_io intro: same_io_trans)

lemma stripped_io: "stripped m (r, k) = (r', k') \<Longrightarrow> same_io k k'"
  by (auto simp: stripped_def strip_body_def split: sum.splits if_splits)

section \<open>Scripts\<close>

lemma write_post_body_quiet:
  assumes "write_post_body_to_child os fd body pid k = Some (ok, k')" "c \<noteq> fd"
  shows "quiet c k k'"
proof -
  have "c \<noteq> fd \<longrightarrow> quiet c k (snd res)" if "write_post_body_to_child os fd body pid k = Some res" for res
  proof (rule write_post_body_to_child.raw_induct [where P = "\<lambda>os fd b p k res. c \<noteq> fd \<longrightarrow> quiet c k (snd res)", OF _ that])
    fix f os fd b p k res
    assume IH: "\<And>os fd b p k res. f os fd b p k = Some res \<Longrightarrow> c \<noteq> fd \<longrightarrow> quiet c k (snd res)"
      and eq: "(if b = [] then Some (True, k)
        else (case sys_write os fd b k of
                (Wrote n, k1) \<Rightarrow> f os fd (drop n b) p k1
              | (Write_fail e, k1) \<Rightarrow>
                  if e = EINTR then f os fd b p k1
                  else Some (False, snd (sys_wait os p (sys_close fd k1))))) = Some res"
    obtain r k1 where wr: "sys_write os fd b k = (r, k1)" by fastforce
    obtain q k2 where wt: "sys_wait os p (sys_close fd k1) = (q, k2)" by fastforce
    have h: "quiet c k k1" "quiet c k k2" if "c \<noteq> fd"
      using sys_write_quiet [OF wr that] same_io_quiet [OF same_io_calls(7) [OF wt], of c] quiet_trans by auto
    have again: "quiet c k (snd res)" if "f os fd b' p k1 = Some res" "c \<noteq> fd" for b'
      using IH [OF that(1)] that(2) h(1) quiet_trans by blast
    show "c \<noteq> fd \<longrightarrow> quiet c k (snd res)"
    proof (cases r)
      case (Wrote n)
      with eq wr again [of "drop n b"] show ?thesis by (auto split: if_splits)
    next
      case (Write_fail e)
      with eq wr wt h again [of b] show ?thesis by (auto split: if_splits)
    qed
  qed
  from this [OF assms(1)] assms(2) show ?thesis by simp
qed

lemma read_child_output_quiet:
  assumes "read_child_output os fd pid acc k = Some (r, k')" "c \<noteq> fd"
  shows "quiet c k k'"
proof -
  have "c \<noteq> fd \<longrightarrow> quiet c k (snd res)" if "read_child_output os fd pid acc k = Some res" for res
  proof (rule read_child_output.raw_induct [where P = "\<lambda>os fd p a k res. c \<noteq> fd \<longrightarrow> quiet c k (snd res)", OF _ that])
    fix f os fd p a k res
    assume IH: "\<And>os fd p a k res. f os fd p a k = Some res \<Longrightarrow> c \<noteq> fd \<longrightarrow> quiet c k (snd res)"
      and eq: "(case sys_select os fd k of
          (Ready, k1) \<Rightarrow>
            (case sys_read os fd 4096 k1 of
               (Got s, k2) \<Rightarrow> if s = [] then Some ((True, a), k2) else f os fd p (a @ s) k2
             | (Read_fail e, k2) \<Rightarrow>
                 if e = EINTR then f os fd p a k2 else Some ((False, []), kill_child os p k2))
        | (Timed_out, k1) \<Rightarrow> Some ((False, []), kill_child os p k1)
        | (Select_fail e, k1) \<Rightarrow>
            if e = EINTR then f os fd p a k1 else Some ((False, []), kill_child os p k1)) = Some res"
    obtain r k1 where se: "sys_select os fd k = (r, k1)" by fastforce
    obtain q k2 where re: "sys_read os fd 4096 k1 = (q, k2)" by fastforce
    have h: "quiet c k k1" "quiet c k k2" if "c \<noteq> fd"
      using same_io_quiet [OF same_io_calls(6) [OF se]] sys_read_quiet [OF re that] quiet_trans by blast+
    have again: "quiet c k (snd res)" if "f os fd p a' k' = Some res" "k' \<in> {k1, k2}" "c \<noteq> fd" for a' k'
      using IH [OF that(1)] that(2,3) h quiet_trans by blast
    show "c \<noteq> fd \<longrightarrow> quiet c k (snd res)"
    proof (cases r)
      case Ready
      show ?thesis
      proof (cases q)
        case (Got s)
        with Ready eq se re h again [of "a @ s" k2] show ?thesis by (auto split: if_splits)
      next
        case (Read_fail e)
        with Ready eq se re h again [of a k2] show ?thesis by (auto split: if_splits)
      qed
    next
      case Timed_out
      with eq se h show ?thesis by auto
    next
      case (Select_fail e)
      with eq se h again [of a k1] show ?thesis by (auto split: if_splits)
    qed
  qed
  from this [OF assms(1)] assms(2) show ?thesis by simp
qed

lemma cgi_finish_quiet:
  assumes "cgi_finish os pid fd k = Some (r, k')" "c \<noteq> fd"
  shows "quiet c k k'"
proof -
  obtain ok out k1 where rd: "read_child_output os fd pid [] k = Some ((ok, out), k1)"
    using assms(1) by (auto simp: cgi_finish_def split: option.splits)
  have wait: "same_io k0 k2" if "wait_for_child os pid k0 = (w, k2)" for w k0 k2
    using that by (auto simp: wait_for_child_def split: prod.splits wait_result.splits dest!: same_io_calls(7))
  obtain w k2 where w: "wait_for_child os pid (sys_close fd k1) = (w, k2)" by fastforce
  have "quiet c k k1" using read_child_output_quiet [OF rd assms(2)] .
  moreover have "quiet c k1 k2" using same_io_quiet [OF wait [OF w], of c] by simp
  ultimately show ?thesis
    using assms(1) rd w quiet_trans by (auto simp: cgi_finish_def Let_def split: if_splits prod.splits)
qed

lemma cgi_parent_quiet:
  assumes "cgi_parent os request pid ip op k = Some (r, k')" "c \<noteq> snd ip" "c \<noteq> fst op"
  shows "quiet c k k'"
proof -
  define k1 where "k1 = sys_close (snd op) (sys_close (fst ip) k)"
  have k1: "quiet c k k1" by (simp add: k1_def)
  have fin: "quiet c k k'" if "cgi_finish os pid (fst op) (sys_close fd' k2) = Some (r, k')" "quiet c k k2" for fd' k2
    using cgi_finish_quiet [OF that(1) assms(3)] that(2) quiet_trans [of c k k2 k'] by simp
  show ?thesis
  proof (cases "rq_method_str request = ''POST''")
    case False
    with assms(1) fin k1 show ?thesis by (simp add: cgi_parent_def k1_def)
  next
    case True
    with assms(1) obtain ok k2 where wr: "write_post_body_to_child os (snd ip) (rq_buffer request) pid k1 = Some (ok, k2)"
      by (auto simp: cgi_parent_def k1_def split: option.splits prod.splits)
    then have "quiet c k k2" using k1 write_post_body_quiet [OF wr assms(2)] quiet_trans by blast
    with assms(1) True wr fin show ?thesis
      by (cases ok) (auto simp: cgi_parent_def k1_def)
  qed
qed

lemma run_cgi_quiet:
  assumes "run_cgi os cfg path request vh addr k = Some (r, k')" "kernel_ok k" "c \<in> set (k_fds k)"
  shows "quiet c k k'"
proof -
  obtain p k1 where p: "setup_cgi_pipes os k = (p, k1)" by fastforce
  have io: "same_io k k1"
    using p by (auto simp: setup_cgi_pipes_def split: prod.splits option.splits dest!: same_io_calls(8) intro: same_io_trans)
  show ?thesis
  proof (cases p)
    case None
    with p assms(1) io same_io_quiet show ?thesis by (auto simp: run_cgi_def)
  next
    case (Some q)
    obtain ir iw pr pw where q: "q = ((ir, iw), (pr, pw))" by (cases q) auto
    have l: "leaves k k1 [pw, pr, iw, ir]" using setup_cgi_pipes_some [OF assms(2) p [unfolded Some q]] ..
    then have new: "c \<noteq> iw" "c \<noteq> pr" using assms(3) by (auto simp: leaves_def simp del: set_map)
    obtain pid k2 where f: "sys_fork os (c_str path, build_cgi_environment cfg request vh addr) k1 = (pid, k2)"
      by fastforce
    have "quiet c k k2" using io same_io_calls(9) [OF f] same_io_trans same_io_quiet by blast
    then show ?thesis
      using assms(1) p Some q f cgi_parent_quiet [of os request pid "(ir, iw)" "(pr, pw)" k2 r k' c] new quiet_trans
      by (auto simp: run_cgi_def split: if_splits)
  qed
qed

section \<open>The whole handler\<close>

lemma stripped_quiet: "stripped m res = (r, k') \<Longrightarrow> same_io k (snd res) \<Longrightarrow> quiet c k k'"
  using stripped_io same_io_trans same_io_quiet by (metis prod.collapse)

lemma static_io:
  "same_io k (snd (serve_static_file os p request k))" "same_io k (snd (serve_directory_index os p request root k))"
  using serve_static_file_io serve_directory_index_io by (metis prod.collapse)+

lemma serve_found_quiet:
  assumes "serve_found os cfg request addr vh p st k = Some (r, k')" "kernel_ok k" "c \<in> set (k_fds k)"
  shows "quiet c k k'"
proof -
  obtain ex k1 where ex: "(if S_ISREG st then is_executable os p k else (False, k)) = (ex, k1)" by fastforce
  then have t: "same_table k k1" using same_table_calls(4) by (auto simp: same_table_def split: if_splits)
  have io: "quiet c k k1" using ex is_executable_io same_io_quiet by (auto split: if_splits)
  have "quiet c k1 k'"
  proof (cases ex)
    case True
    then have "serve_found os cfg request addr vh p st k
        = map_option (\<lambda>(r, k'). (Inr r, k')) (run_cgi os cfg p request (Some vh) addr k1)"
      using ex by (simp add: serve_found_def)
    with assms(1) obtain r' where "run_cgi os cfg p request (Some vh) addr k1 = Some (r', k')" by auto
    from run_cgi_quiet [OF this] assms(2,3) t same_table_ok [OF t] show ?thesis by (simp add: same_table_def)
  next
    case False
    note static = stripped_quiet [OF _ static_io(1)] stripped_quiet [OF _ static_io(2)]
    from False assms(1) ex show ?thesis
      by (auto simp: serve_found_def split: if_splits dest: static)
  qed
  with io show ?thesis by (rule quiet_trans)
qed

lemma decide_quiet:
  assumes "decide os cfg request accepting addr k = Some (res, k')" "kernel_ok k" "c \<in> set (k_fds k)"
  shows "quiet c k k'"
proof (cases "resolve_vhost cfg request")
  case None
  with assms show ?thesis by (auto simp: decide_def)
next
  case vh: (Some vh)
  obtain p under where rp: "resolve_path vh (request_path request) = (p, under)" by fastforce
  obtain st k1 where stat: "sys_stat os p k = (st, k1)" by fastforce
  obtain auth k2 where auth: "check_htaccess_and_auth os (dir_of_resource p (the st)) request k1 = (auth, k2)" by fastforce
  have q: "quiet c k k1" "quiet c k k2"
    using same_io_calls(1) [OF stat] check_htaccess_io [OF auth] same_io_quiet quiet_trans by blast+
  have t: "same_table k k2"
    using same_table_calls(1) [OF stat] same_table_calls(3) [OF auth] by (auto simp: same_table_def)
  then have "kernel_ok k2" "c \<in> set (k_fds k2)" using assms(2,3) same_table_ok [OF t] by (simp_all add: same_table_def)
  then have found: "quiet c k k'" if "serve_found os cfg request addr vh p s k2 = Some (res, k')" for s
    using serve_found_quiet [OF that] q(2) quiet_trans by blast
  show ?thesis
  proof (cases st)
    case None
    from assms(1) have "k' = k \<or> k' = k1"
      unfolding decide_def vh rp stat None option.case prod.case by (cases under) (simp_all split: if_splits)
    with q(1) show ?thesis by auto
  next
    case (Some s)
    show ?thesis
    proof (cases "rq_method_str request = ''GET'' \<and> request_path request = ''/load'' \<or> \<not> under \<or> auth \<noteq> Auth_Ok
        \<or> rq_method request = OPTIONS")
      case True
      have "decide os cfg request accepting addr k =
          (if rq_method_str request = ''GET'' \<and> request_path request = ''/load''
           then Some (Inr (mk_response (if accepting then St_Ok else St_ServiceUnavailable)), k)
           else if \<not> under then Some (Inr (mk_response St_Forbidden), k)
           else if auth \<noteq> Auth_Ok then Some (Inr unauthorized, k2)
           else if rq_method request = OPTIONS
           then Some (Inr (options_response (os_time os (k_tick k2))), tick k2)
           else serve_found os cfg request addr vh p s k2)"
        using vh rp stat auth Some by (simp add: decide_def sys_time_def split: bool.split)
      with True assms(1) have "k' \<in> {k, k2, tick k2}" by (simp split: if_splits)
      with q(2) show ?thesis by auto
    next
      case False
      with assms(1) vh rp stat auth Some have "serve_found os cfg request addr vh p s k2 = Some (res, k')"
        by (auto simp: decide_def)
      then show ?thesis by (rule found)
    qed
  qed
qed

lemma handle_quiet:
  assumes "handle os cfg request accepting addr k = Some (res, k')" "kernel_ok k" "c \<in> set (k_fds k)"
  shows "quiet c k k'"
  using assms(1)
proof (cases rule: handle_cases)
  case (threw e)
  from decide_quiet [OF threw(2) assms(2,3)] show ?thesis .
next
  case (answered r k1)
  have "quiet c k1 k'" using answered(3) by (simp add: quiet_def sent_to_def received_from_def write_log_def)
  with decide_quiet [OF answered(2) assms(2,3)] show ?thesis by (rule quiet_trans)
qed

end
