(* ===== verification/Connection.thy ===== *)
theory Connection
  imports Wire Parser_Properties
begin

text \<open>
  \<open>http/connection/connection_manager.cpp\<close>: a worker thread serves one connection at a time. It reads
  until the parser has a request, handles it, writes the response and goes on with what the client
  has sent meanwhile, until the client hangs up, asks to close, or sends something malformed.
  \<open>accepting n\<close> is the shared flag \<open>accepting_connections\<close> as it stands at time \<open>n\<close>; a read that
  times out (\<open>SO_RCVTIMEO\<close>) is a failing read.
\<close>

section \<open>Writing\<close>

definition wants_close :: "http_request \<Rightarrow> bool" where
  "wants_close request =
     (let conn = get_header (rq_headers request) ''connection''
      in if conn = [] then False else find_sub ''close'' (to_lower conn) \<noteq> None)"

definition accept_connection :: "os \<Rightarrow> int \<Rightarrow> kernel \<Rightarrow> (int \<times> string) \<times> kernel" where
  "accept_connection os listen_fd k =
     (case sys_accept os listen_fd k of
        (None, k1) \<Rightarrow> ((-1, []), k1)
      | (Some (client_fd, client_ip), k1) \<Rightarrow> ((client_fd, client_ip), k1))"

function write_all :: "os \<Rightarrow> int \<Rightarrow> string \<Rightarrow> kernel \<Rightarrow> kernel" where
  "write_all os fd data k =
     (if data = [] then k
      else case sys_write os fd data k of
             (Wrote n, k1) \<Rightarrow> if n = 0 then k1 else write_all os fd (drop n data) k1
           | (Write_fail e, k1) \<Rightarrow> k1)"
  by pat_completeness auto
termination by (relation "measure (\<lambda>(os, fd, data, k). length data)") auto

declare write_all.simps [simp del]

record response_package =
  rp_bytes :: string
  rp_close_after :: bool
  rp_body_fd :: int
  rp_body_fd_offset :: int
  rp_body_fd_size :: int

definition make_package :: "http_request \<Rightarrow> http_response \<Rightarrow> response_package" where
  "make_package req resp0 =
     (let client_wants_close = wants_close req;
          resp = set_header ''Connection'' (if client_wants_close then ''close'' else ''keep-alive'') resp0
      in if 0 \<le> rs_body_fd resp
         then \<lparr>rp_bytes = headers_to_bytes resp, rp_close_after = client_wants_close, rp_body_fd = rs_body_fd resp,
               rp_body_fd_offset = rs_body_fd_offset resp, rp_body_fd_size = rs_body_fd_size resp\<rparr>
         else \<lparr>rp_bytes = to_bytes resp, rp_close_after = client_wants_close, rp_body_fd = -1,
               rp_body_fd_offset = 0, rp_body_fd_size = 0\<rparr>)"

definition process_request ::
  "os \<Rightarrow> config \<Rightarrow> http_request \<Rightarrow> string option \<Rightarrow> bool \<Rightarrow> kernel \<Rightarrow> ((cxx_exn + response_package) \<times> kernel) option" where
  "process_request os cfg req client_ip accepting_new_connections k =
     (case handle os cfg req accepting_new_connections client_ip k of
        None \<Rightarrow> None
      | Some (Inl e, k1) \<Rightarrow> Some (Inl e, k1)
      | Some (Inr resp, k1) \<Rightarrow> Some (Inr (make_package req resp), k1))"

text \<open>
  The \<open>sendfile\<close> loop: interrupted and refused transfers are repeated, and so is one that moved no
  byte; any other error ends it.
\<close>

partial_function (option) send_body :: "os \<Rightarrow> int \<Rightarrow> int \<Rightarrow> int \<Rightarrow> int \<Rightarrow> kernel \<Rightarrow> kernel option" where
  "send_body os client_fd body_fd offset remaining k =
     (if remaining \<le> 0 then Some k
      else (case sys_sendfile os client_fd body_fd offset remaining k of
              (Wrote n, k1) \<Rightarrow> send_body os client_fd body_fd (offset + int n) (remaining - int n) k1
            | (Write_fail e, k1) \<Rightarrow>
                if e \<noteq> EAGAIN \<and> e \<noteq> EINTR then Some k1
                else send_body os client_fd body_fd offset remaining k1))"

definition write_response :: "os \<Rightarrow> int \<Rightarrow> response_package \<Rightarrow> kernel \<Rightarrow> kernel option" where
  "write_response os client_fd pkg k =
     (let k1 = write_all os client_fd (rp_bytes pkg) k
      in if rp_body_fd pkg < 0 then Some k1
         else map_option (sys_close (rp_body_fd pkg))
                (send_body os client_fd (rp_body_fd pkg) (rp_body_fd_offset pkg) (rp_body_fd_size pkg) k1))"

section \<open>The connection\<close>

definition error_response :: "request_parser \<Rightarrow> string" where
  "error_response parser =
     to_bytes (set_header ''Connection'' ''close''
       (mk_response (if ps_error parser = PE_PayloadTooLarge then St_PayloadTooLarge else St_BadRequest)))"

datatype read_outcome = Request_read request_parser | Connection_over

partial_function (option) read_request :: "os \<Rightarrow> int \<Rightarrow> request_parser \<Rightarrow> kernel \<Rightarrow> (read_outcome \<times> kernel) option" where
  "read_request os client_fd parser k =
     (case sys_read os client_fd 8192 k of
        (Got s, k1) \<Rightarrow>
          if s = [] then Some (Connection_over, k1)
          else let parser' = feed s parser
               in if has_request parser' then Some (Request_read parser', k1)
                  else if has_error parser'
                  then Some (Connection_over, write_all os client_fd (error_response parser') k1)
                  else read_request os client_fd parser' k1
      | (Read_fail e, k1) \<Rightarrow>
          if e = EINTR then read_request os client_fd parser k1 else Some (Connection_over, k1))"

definition next_request :: "os \<Rightarrow> int \<Rightarrow> request_parser \<Rightarrow> kernel \<Rightarrow> (read_outcome \<times> kernel) option" where
  "next_request os client_fd parser k =
     (if has_request parser then Some (Request_read parser, k)
      else if has_error parser
      then Some (Connection_over, write_all os client_fd (error_response parser) k)
      else read_request os client_fd parser k)"

partial_function (option) connection_loop ::
  "os \<Rightarrow> config \<Rightarrow> int \<Rightarrow> string option \<Rightarrow> (nat \<Rightarrow> bool) \<Rightarrow> request_parser \<Rightarrow> kernel
   \<Rightarrow> ((cxx_exn + unit) \<times> kernel) option" where
  "connection_loop os cfg client_fd client_ip accepting parser k =
     (case next_request os client_fd parser k of
        None \<Rightarrow> None
      | Some (Connection_over, k1) \<Rightarrow> Some (Inr (), k1)
      | Some (Request_read parser', k1) \<Rightarrow>
          (case get_request parser' of (req, parser'') \<Rightarrow>
            (case process_request os cfg req client_ip (accepting (k_tick k1)) k1 of
               None \<Rightarrow> None
             | Some (Inl e, k2) \<Rightarrow> Some (Inl e, k2)
             | Some (Inr pkg, k2) \<Rightarrow>
                 (case write_response os client_fd pkg k2 of
                    None \<Rightarrow> None
                  | Some k3 \<Rightarrow>
                      if rp_close_after pkg then Some (Inr (), k3)
                      else connection_loop os cfg client_fd client_ip accepting parser'' k3))))"

definition handle_connection ::
  "os \<Rightarrow> config \<Rightarrow> int \<Rightarrow> string \<Rightarrow> (nat \<Rightarrow> bool) \<Rightarrow> kernel \<Rightarrow> ((cxx_exn + unit) \<times> kernel) option" where
  "handle_connection os cfg client_fd client_ip accepting k =
     connection_loop os cfg client_fd (if client_ip = [] then None else Some client_ip) accepting init_parser k"

end
