(* ===== verification/Connection_Wire.thy ===== *)
theory Connection_Wire
  imports Connection
begin

text \<open>
  What the writing and sending loops of the connection code put on the socket, and that responses
  are delivered.
\<close>

section \<open>What travels on the socket\<close>

text \<open>
  \<open>wire fd k k' i s\<close>: between \<open>k\<close> and \<open>k'\<close> the bytes \<open>i\<close> were read from \<open>fd\<close> and the bytes \<open>s\<close>
  written to it, and descriptors, children, programs and the log are as before.
\<close>

definition wire :: "int \<Rightarrow> kernel \<Rightarrow> kernel \<Rightarrow> string \<Rightarrow> string \<Rightarrow> bool" where
  "wire fd k k' i s \<longleftrightarrow> received_from fd k' = received_from fd k @ i \<and> sent_to fd k' = sent_to fd k @ s
     \<and> same_fds k k' \<and> same_history k k' \<and> k_children k' = k_children k"

lemma wire_refl [simp]: "wire fd k k [] []"
  by (simp add: wire_def same_fds_def)

lemma wire_trans: "wire fd k k1 i s \<Longrightarrow> wire fd k1 k2 i' s' \<Longrightarrow> wire fd k k2 (i @ i') (s @ s')"
  by (simp add: wire_def same_fds_def same_history_def)

lemma wire_write: "sys_write os fd data k = (Wrote n, k') \<Longrightarrow> wire fd k k' [] (take n data) \<and> n \<le> length data"
  by (auto simp: sys_write_def wire_def same_fds_def same_history_def sent_to_def received_from_def min_def
      split: io_write.splits)

lemma wire_write_fail: "sys_write os fd data k = (Write_fail e, k') \<Longrightarrow> wire fd k k' [] []"
  by (auto simp: sys_write_def wire_def same_fds_def same_history_def sent_to_def received_from_def split: io_write.splits)

lemma wire_read: "sys_read os fd n k = (Got s, k') \<Longrightarrow> wire fd k k' s []"
  by (auto simp: sys_read_def wire_def same_fds_def same_history_def sent_to_def received_from_def split: io_read.splits)

lemma wire_read_fail: "sys_read os fd n k = (Read_fail e, k') \<Longrightarrow> wire fd k k' [] []"
  by (auto simp: sys_read_def wire_def same_fds_def same_history_def sent_to_def received_from_def split: io_read.splits)

lemma wire_sendfile:
  "sys_sendfile os fd b off cnt k = (Wrote n, k') \<Longrightarrow>
   wire fd k k' [] (take n (drop (nat off) (file_bytes os b k))) \<and> n \<le> nat cnt \<and> n \<le> length (drop (nat off) (file_bytes os b k))"
  by (auto simp: sys_sendfile_def wire_def same_fds_def same_history_def sent_to_def received_from_def min_def Let_def
      split: io_write.splits)

lemma wire_sendfile_fail: "sys_sendfile os fd b off cnt k = (Write_fail e, k') \<Longrightarrow> wire fd k k' [] []"
  by (auto simp: sys_sendfile_def wire_def same_fds_def same_history_def sent_to_def received_from_def Let_def
      split: io_write.splits)

text \<open>A client that keeps receiving, and files that do not change.\<close>

definition reliable :: "os \<Rightarrow> bool" where
  "reliable os \<longleftrightarrow> (\<forall>n fd. (\<exists>m > 0. os_write os n fd = Wrote m) \<and> (\<exists>m > 0. os_sendfile os n fd = Wrote m))"

definition files_fixed :: "os \<Rightarrow> bool" where
  "files_fixed os \<longleftrightarrow> (\<forall>n path. os_content os n path = os_content os 0 path)"

lemma fixed_file_bytes: "files_fixed os \<Longrightarrow> k_open k' = k_open k \<Longrightarrow> file_bytes os fd k' = file_bytes os fd k"
proof -
  assume "files_fixed os" "k_open k' = k_open k"
  moreover from this have "os_content os (k_tick k') path = os_content os (k_tick k) path" for path
    unfolding files_fixed_def by metis
  ultimately show ?thesis by (simp add: file_bytes_def split: option.split file_desc.split)
qed

lemma reliable_write:
  assumes "reliable os" "data \<noteq> []" obtains n k1 where "sys_write os fd data k = (Wrote n, k1)" "0 < n"
proof -
  obtain m where "0 < m" "os_write os (k_tick k) fd = Wrote m" using assms(1) unfolding reliable_def by blast
  then show thesis using that assms(2) by (simp add: sys_write_def)
qed

lemma write_all_wire:
  "\<exists>s. prefix s data \<and> wire fd k (write_all os fd data k) [] s \<and> (reliable os \<longrightarrow> s = data)"
proof (induction os fd data k rule: write_all.induct)
  case (1 os fd data k)
  obtain r k1 where w: "sys_write os fd data k = (r, k1)" by fastforce
  consider (finished) "data = []" | (failed) e where "data \<noteq> []" "r = Write_fail e"
    | (stopped) "data \<noteq> []" "r = Wrote 0" | (more) n where "data \<noteq> []" "r = Wrote n" "n \<noteq> 0"
    by (cases r) auto
  then show ?case
  proof cases
    case finished
    then show ?thesis by (simp add: write_all.simps)
  next
    case (failed e)
    then have "write_all os fd data k = k1" "\<not> reliable os"
      using w reliable_write [of os data fd k] by (auto simp: write_all.simps)
    with wire_write_fail [OF w [unfolded failed(2)]] show ?thesis by (intro exI [of _ "[]"]) simp
  next
    case stopped
    then have "write_all os fd data k = k1" "\<not> reliable os"
      using w reliable_write [of os data fd k] by (auto simp: write_all.simps)
    with wire_write [OF w [unfolded stopped(2)]] show ?thesis by (intro exI [of _ "[]"]) simp
  next
    case (more n)
    then have e: "write_all os fd data k = write_all os fd (drop n data) k1"
      using w by (subst write_all.simps) simp
    obtain s where s: "prefix s (drop n data)" "wire fd k1 (write_all os fd (drop n data) k1) [] s"
      "reliable os \<longrightarrow> s = drop n data"
      using 1 [OF more(1) w [symmetric]] more by blast
    have "wire fd k (write_all os fd data k) [] (take n data @ s)"
      using wire_trans [OF conjunct1 [OF wire_write [OF w [unfolded more(2)]]] s(2)] e by simp
    moreover have "prefix (take n data @ s) data"
      using s(1) by (metis append_take_drop_id same_prefix_prefix)
    ultimately show ?thesis using s(3) by (metis append_take_drop_id)
  qed
qed

lemma send_body_wire:
  assumes "send_body os fd b off rem k = Some k'"
  shows "\<exists>s. wire fd k k' [] s \<and> (reliable os \<and> files_fixed os \<and> 0 \<le> off \<longrightarrow>
    s = take (nat rem) (drop (nat off) (file_bytes os b k)) \<and> length s = nat rem)"
proof (rule send_body.raw_induct [where P = "\<lambda>os fd b off rem k k'. \<exists>s. wire fd k k' [] s \<and>
    (reliable os \<and> files_fixed os \<and> 0 \<le> off \<longrightarrow>
      s = take (nat rem) (drop (nat off) (file_bytes os b k)) \<and> length s = nat rem)", OF _ assms])
  fix f os fd b off rem k k'
  let ?F = "file_bytes os b k"
  assume IH: "\<And>os fd b off rem k k'. f os fd b off rem k = Some k' \<Longrightarrow> \<exists>s. wire fd k k' [] s \<and>
      (reliable os \<and> files_fixed os \<and> 0 \<le> off \<longrightarrow>
        s = take (nat rem) (drop (nat off) (file_bytes os b k)) \<and> length s = nat rem)"
    and eq: "(if rem \<le> 0 then Some k
      else (case sys_sendfile os fd b off rem k of
              (Wrote n, k1) \<Rightarrow> f os fd b (off + int n) (rem - int n) k1
            | (Write_fail e, k1) \<Rightarrow>
                if e \<noteq> EAGAIN \<and> e \<noteq> EINTR then Some k1 else f os fd b off rem k1)) = Some k'"
  obtain r k1 where sf: "sys_sendfile os fd b off rem k = (r, k1)" by fastforce
  have fail: "\<not> reliable os" if "r = Write_fail e" for e
  proof
    assume "reliable os"
    then obtain m where "os_sendfile os (k_tick k) fd = Wrote m" unfolding reliable_def by blast
    with sf that show False by (simp add: sys_sendfile_def Let_def)
  qed
  show "\<exists>s. wire fd k k' [] s \<and> (reliable os \<and> files_fixed os \<and> 0 \<le> off \<longrightarrow>
      s = take (nat rem) (drop (nat off) ?F) \<and> length s = nat rem)"
  proof (cases "rem \<le> 0")
    case True
    with eq show ?thesis by (intro exI [of _ "[]"]) simp
  next
    case False
    show ?thesis
    proof (cases r)
      case (Write_fail e)
      note w = wire_sendfile_fail [OF sf [unfolded Write_fail]]
      show ?thesis
      proof (cases "e \<noteq> EAGAIN \<and> e \<noteq> EINTR")
        case True
        with eq sf Write_fail False fail w show ?thesis by auto
      next
        case again: False
        with eq sf Write_fail False have "f os fd b off rem k1 = Some k'" by auto
        from IH [OF this] obtain s where "wire fd k1 k' [] s" by blast
        with wire_trans [OF w this] fail [OF Write_fail] show ?thesis by auto
      qed
    next
      case (Wrote n)
      note w = wire_sendfile [OF sf [unfolded Wrote]]
      have rec: "f os fd b (off + int n) (rem - int n) k1 = Some k'" using eq sf Wrote False by simp
      from IH [OF rec] obtain s where s: "wire fd k1 k' [] s"
        "reliable os \<and> files_fixed os \<and> 0 \<le> off + int n \<longrightarrow>
          s = take (nat (rem - int n)) (drop (nat (off + int n)) (file_bytes os b k1)) \<and> length s = nat (rem - int n)"
        by blast
      have full: "take n (drop (nat off) ?F) @ s = take (nat rem) (drop (nat off) ?F)
          \<and> length (take n (drop (nat off) ?F) @ s) = nat rem" if "reliable os" "files_fixed os" "0 \<le> off"
      proof -
        have F: "file_bytes os b k1 = ?F"
          using w that(2) by (intro fixed_file_bytes) (auto simp: wire_def same_fds_def)
        have nats: "nat (rem - int n) = nat rem - n" "nat (off + int n) = nat off + n" "n \<le> nat rem"
          using w that(3) by auto
        have "0 \<le> off + int n" using that(3) by simp
        with s(2) that(1,2) have "s = take (nat (rem - int n)) (drop (nat (off + int n)) (file_bytes os b k1))"
          and len: "length s = nat rem - n" using nats by (blast, metis)
        then have "s = take (nat rem - n) (drop n (drop (nat off) ?F))" using F nats by (simp add: add.commute)
        moreover have "take (nat rem) X = take n X @ take (nat rem - n) (drop n X)" for X :: string
          using take_add [of n "nat rem - n" X] nats(3) by simp
        moreover have "length (take n (drop (nat off) ?F) @ s) = nat rem" using w len nats(3) by simp
        ultimately show ?thesis by metis
      qed
      have "wire fd k k' [] (take n (drop (nat off) ?F) @ s)" using wire_trans [OF conjunct1 [OF w] s(1)] by simp
      with full show ?thesis by (intro exI [of _ "take n (drop (nat off) ?F) @ s"]) blast
    qed
  qed
qed

text \<open>The body the package announces, when the file is long enough for it.\<close>

definition announced_body :: "os \<Rightarrow> response_package \<Rightarrow> kernel \<Rightarrow> string" where
  "announced_body os pkg k =
     take (nat (rp_body_fd_size pkg)) (drop (nat (rp_body_fd_offset pkg)) (file_bytes os (rp_body_fd pkg) k))"

lemma same_fds_close: "same_fds k k' \<Longrightarrow> same_fds (sys_close b k) (sys_close b k')"
  by (simp add: same_fds_def sys_close_def)

lemma wire_write_all_reliable: "reliable os \<Longrightarrow> wire fd k (write_all os fd data k) [] data"
  using write_all_wire [of data fd k os] by blast

lemma write_response_wire:
  assumes "write_response os fd pkg k = Some k'"
  shows "\<exists>s k1. wire fd k k1 [] s \<and> k' = (if rp_body_fd pkg < 0 then k1 else sys_close (rp_body_fd pkg) k1)
    \<and> (reliable os \<longrightarrow> rp_body_fd pkg < 0 \<longrightarrow> s = rp_bytes pkg)
    \<and> (reliable os \<and> files_fixed os \<and> 0 \<le> rp_body_fd pkg \<and> 0 \<le> rp_body_fd_offset pkg \<longrightarrow>
        s = rp_bytes pkg @ announced_body os pkg k \<and> length (announced_body os pkg k) = nat (rp_body_fd_size pkg))"
proof -
  define k0 where "k0 = write_all os fd (rp_bytes pkg) k"
  obtain s0 where s0: "wire fd k k0 [] s0" "reliable os \<longrightarrow> s0 = rp_bytes pkg"
    using write_all_wire [of "rp_bytes pkg" fd k os] by (auto simp: k0_def)
  show ?thesis
  proof (cases "rp_body_fd pkg < 0")
    case True
    with assms have "k' = k0" by (simp add: write_response_def k0_def)
    with True s0 show ?thesis by (intro exI [of _ s0] exI [of _ k0]) auto
  next
    case False
    with assms obtain k1 where sb: "send_body os fd (rp_body_fd pkg) (rp_body_fd_offset pkg) (rp_body_fd_size pkg) k0 = Some k1"
      "k' = sys_close (rp_body_fd pkg) k1"
      by (auto simp: write_response_def k0_def)
    have F: "file_bytes os (rp_body_fd pkg) k0 = file_bytes os (rp_body_fd pkg) k" if "files_fixed os"
      using s0(1) by (intro fixed_file_bytes [OF that]) (simp add: wire_def same_fds_def)
    obtain s1 where s1: "wire fd k0 k1 [] s1" "reliable os \<and> files_fixed os \<and> 0 \<le> rp_body_fd_offset pkg \<longrightarrow>
        s1 = announced_body os pkg k \<and> length s1 = nat (rp_body_fd_size pkg)"
      using send_body_wire [OF sb(1)] F by (auto simp: announced_body_def)
    show ?thesis
      using wire_trans [OF s0(1) s1(1)] s0(2) s1(2) sb(2) False
      by (intro exI [of _ "s0 @ s1"] exI [of _ k1]) auto
  qed
qed

lemma send_body_returns:
  assumes "reliable os" "files_fixed os" "0 \<le> off" "nat off + nat rem \<le> length (file_bytes os b k)"
  shows "\<exists>k'. send_body os fd b off rem k = Some k'"
  using assms(3,4)
proof (induction "nat rem" arbitrary: off rem k rule: less_induct)
  case less
  show ?case
  proof (cases "rem \<le> 0")
    case True
    then show ?thesis by (simp add: send_body.simps)
  next
    case False
    obtain m where m: "0 < m" "os_sendfile os (k_tick k) fd = Wrote m" using assms(1) unfolding reliable_def by blast
    define n where "n = min m (nat rem)"
    have "length (take n (drop (nat off) (file_bytes os b k))) = n"
      using less.prems by (simp add: n_def)
    then obtain k1 where sf: "sys_sendfile os fd b off rem k = (Wrote n, k1)"
      using m by (auto simp: sys_sendfile_def Let_def n_def [symmetric] simp del: length_take)
    have n: "0 < n" "n \<le> nat rem" using m False by (simp_all add: n_def)
    have F: "file_bytes os b k1 = file_bytes os b k"
      using wire_sendfile [OF sf] by (intro fixed_file_bytes [OF assms(2)]) (simp add: wire_def same_fds_def)
    have "\<exists>k'. send_body os fd b (off + int n) (rem - int n) k1 = Some k'"
      using n less.prems False by (intro less.hyps) (auto simp: F)
    then show ?thesis using sf False by (subst send_body.simps) simp
  qed
qed

text \<open>
  C26: delivery. To a client that keeps receiving, \<open>write_response\<close> sends the head of the response
  followed by exactly the announced part of the file, however the transfers are cut up, and closes
  the file. But if the file has become shorter than announced, \<open>sendfile\<close> returns 0 for ever and
  the worker never comes back.
\<close>

theorem response_delivered:
  assumes "reliable os" "files_fixed os" "0 \<le> rp_body_fd pkg" "0 \<le> rp_body_fd_offset pkg" "0 \<le> rp_body_fd_size pkg"
  shows "if rp_body_fd_offset pkg + rp_body_fd_size pkg \<le> int (length (file_bytes os (rp_body_fd pkg) k))
      \<or> rp_body_fd_size pkg = 0
    then (\<exists>k'. write_response os fd pkg k = Some k'
           \<and> sent_to fd k' = sent_to fd k @ rp_bytes pkg @ announced_body os pkg k
           \<and> length (announced_body os pkg k) = nat (rp_body_fd_size pkg)
           \<and> rp_body_fd pkg \<notin> set (k_fds k'))
    else write_response os fd pkg k = None"
proof -
  define k0 where "k0 = write_all os fd (rp_bytes pkg) k"
  have F: "file_bytes os (rp_body_fd pkg) k0 = file_bytes os (rp_body_fd pkg) k"
    using wire_write_all_reliable [OF assms(1), of fd k "rp_bytes pkg"]
    by (intro fixed_file_bytes [OF assms(2)]) (simp add: wire_def same_fds_def k0_def)
  have all: "length (announced_body os pkg k) = nat (rp_body_fd_size pkg)
      \<and> sent_to fd k' = sent_to fd k @ rp_bytes pkg @ announced_body os pkg k
      \<and> rp_body_fd pkg \<notin> set (k_fds k')" if "write_response os fd pkg k = Some k'" for k'
    using write_response_wire [OF that] assms
    by (auto simp: wire_def sent_to_def sys_close_def)
  show ?thesis
  proof (cases "rp_body_fd_offset pkg + rp_body_fd_size pkg \<le> int (length (file_bytes os (rp_body_fd pkg) k))
      \<or> rp_body_fd_size pkg = 0")
    case True
    then have "\<exists>k1. send_body os fd (rp_body_fd pkg) (rp_body_fd_offset pkg) (rp_body_fd_size pkg) k0 = Some k1"
      using send_body_returns [OF assms(1,2,4), of "rp_body_fd_size pkg" "rp_body_fd pkg" k0 fd] F assms(4,5)
      by (auto simp: send_body.simps)
    then have "\<exists>k'. write_response os fd pkg k = Some k'"
      using assms(3) by (auto simp: write_response_def k0_def)
    with all True show ?thesis by auto
  next
    case False
    then have "length (announced_body os pkg k) < nat (rp_body_fd_size pkg)"
      using assms(4,5) by (auto simp: announced_body_def min_def)
    with all False show ?thesis by (cases "write_response os fd pkg k") auto
  qed
qed

theorem response_delivered_witness:
  "\<exists>k'. write_response (idle_os\<lparr>os_content := \<lambda>_ _. Some ''hello''\<rparr>) 0
      \<lparr>rp_bytes = ''head'', rp_close_after = True, rp_body_fd = 2, rp_body_fd_offset = 1, rp_body_fd_size = 3\<rparr>
      init_kernel = Some k' \<and> sent_to 0 k' = ''headell'' \<and> 2 \<notin> set (k_fds k')"
proof -
  let ?os = "idle_os\<lparr>os_content := \<lambda>_ _. Some ''hello''\<rparr>"
  have "reliable ?os" "files_fixed ?os" by (simp_all add: reliable_def files_fixed_def idle_os_def)
  moreover have "file_bytes ?os 2 init_kernel = ''hello''" by (simp add: file_bytes_def init_kernel_def)
  moreover have "sent_to 0 init_kernel = []" by (simp add: sent_to_def init_kernel_def)
  ultimately show ?thesis
    using response_delivered [of ?os "\<lparr>rp_bytes = ''head'', rp_close_after = True, rp_body_fd = 2,
        rp_body_fd_offset = 1, rp_body_fd_size = 3\<rparr>" init_kernel 0]
    by (auto simp: announced_body_def)
qed

end
