(* ===== verification/Conversation.thy ===== *)
theory Conversation
  imports Connection_Wire
begin

text \<open>
  What a conversation with a client is, whatever carries it: the requests in the stream the client
  sends, the steps of reading one, and the contract (\<open>transport\<close>) under which serving a
  connection answers that stream and leaks nothing. Plain sockets and TLS channels both meet it.
\<close>

section \<open>The requests in a stream\<close>

text \<open>\<open>stream p i\<close>: the parser \<open>p\<close> with \<open>i\<close> still to come; a complete request leaves \<open>i\<close> waiting.\<close>

definition stream :: "request_parser \<Rightarrow> string \<Rightarrow> request_parser" where
  "stream p i = (if need_more p \<and> i \<noteq> [] then feed i p else push i p)"

lemma stream_Nil [simp]: "stream p [] = p"
  by (simp add: stream_def)

lemma stream_feed: "need_more p \<Longrightarrow> i \<noteq> [] \<Longrightarrow> (has_error (feed i p) \<Longrightarrow> j = []) \<Longrightarrow> stream p (i @ j) = stream (feed i p) j"
proof (cases "need_more (feed i p)")
  case True
  assume "need_more p" "i \<noteq> []"
  with True feed_append [OF True, of j] show ?thesis by (cases "j = []") (auto simp: stream_def)
next
  case False
  assume a: "need_more p" "i \<noteq> []" "has_error (feed i p) \<Longrightarrow> j = []"
  show ?thesis
  proof (cases "has_request (feed i p)")
    case True
    with a feed_complete [OF True] False show ?thesis by (simp add: stream_def)
  next
    case noreq: False
    with False have "has_error (feed i p)" by (simp add: need_more_def)
    with a show ?thesis by (simp add: stream_def)
  qed
qed

definition fresh_request :: "request_parser \<Rightarrow> request_parser" where
  "fresh_request p = p\<lparr>ps_request := empty_request, ps_state := RequestLine, ps_error := PE_Ok,
     ps_error_message := [], ps_body_bytes_remaining := 0\<rparr>"

lemma get_request_eq: "get_request p = (ps_request p, advance (fresh_request p))"
  by (simp add: get_request_def fresh_request_def)

lemma get_request_push:
  assumes "get_request p = (q, p')" "has_error p' \<Longrightarrow> i = []"
  shows "get_request (push i p) = (q, stream p' i)"
proof -
  have p': "p' = advance (fresh_request p)" "q = ps_request p" using assms(1) by (simp_all add: get_request_eq)
  have f: "fresh_request (push i p) = push i (fresh_request p)" by (simp add: fresh_request_def push_def)
  have "advance (push i (fresh_request p)) = stream p' i"
  proof (cases "i = []")
    case False
    then have ok: "need_more p' \<or> has_request p'" using assms(2) by (auto simp: need_more_def)
    then have e: "advance (push i (fresh_request p)) = advance (push i p')" using advance_push p' by simp
    show ?thesis
    proof (cases "need_more p'")
      case True
      with e False show ?thesis by (simp add: stream_def feed_push)
    next
      case stopped: False
      with e ok show ?thesis by (simp add: stream_def advance_stopped)
    qed
  qed (simp add: p')
  then show ?thesis by (simp add: get_request_eq p' f)
qed

lemma advance_consumes: "has_request (advance p) \<Longrightarrow> need_more p \<Longrightarrow> parser_measure (advance p) < parser_measure p"
proof (induction p rule: advance.induct)
  case (1 p)
  obtain progress p' where step: "process_state p = (progress, p')" by fastforce
  show ?case
  proof (cases progress)
    case True
    have "\<not> (ps_state p = Done \<or> ps_state p = Error)"
      using 1 by (simp add: need_more_def has_request_def has_error_def)
    moreover have a: "advance p = advance p'" using 1 step True by (simp add: advance_step)
    ultimately have "need_more p' \<Longrightarrow> parser_measure (advance p') < parser_measure p'" using 1 step True by simp
    moreover have "\<not> need_more p' \<Longrightarrow> advance p' = p'" by (simp add: advance_stopped)
    ultimately show ?thesis using process_state_decreases [of p p'] step True a by fastforce
  next
    case False
    then have "advance p = p'" using 1 step by (simp add: advance_rest)
    moreover have "p' = p \<or> has_error p'" using process_state_stuck [of p p'] step False by simp
    ultimately show ?thesis using 1 by (auto simp: need_more_def has_request_def has_error_def)
  qed
qed

lemma get_request_consumes:
  assumes "get_request p = (q, p')" "has_request p'"
  shows "length (ps_buffer p') < length (ps_buffer p)"
proof -
  have p': "p' = advance (fresh_request p)" using assms(1) by (simp add: get_request_eq)
  have "need_more (fresh_request p)" by (simp add: fresh_request_def need_more_def has_request_def has_error_def)
  with assms(2) p' have "parser_measure p' < parser_measure (fresh_request p)" using advance_consumes by simp
  with assms(2) show ?thesis by (simp add: parser_measure_def fresh_request_def has_request_def)
qed

text \<open>
  The requests a stream holds, up to the one that asks to close; and the parser they leave behind,
  unless the connection is closed.
\<close>

function serve_stream :: "request_parser \<Rightarrow> http_request list \<times> request_parser option" where
  "serve_stream p =
     (if has_request p
      then case get_request p of (q, p') \<Rightarrow> if wants_close q then ([q], None) else apfst (Cons q) (serve_stream p')
      else ([], Some p))"
  by pat_completeness auto
termination
  by (relation "measure (\<lambda>p. if has_request p then Suc (length (ps_buffer p)) else 0)")
    (auto intro!: get_request_consumes dest: sym)

declare serve_stream.simps [simp del]

lemma serve_stream_request:
  assumes "has_request p" "get_request p = (q, p')" "has_error p' \<Longrightarrow> i = []"
  shows "serve_stream (stream p i) = (if wants_close q then ([q], None) else apfst (Cons q) (serve_stream (stream p' i)))"
proof -
  have "stream p i = push i p" using assms(1) by (simp add: stream_def need_more_def)
  then show ?thesis
    using get_request_push [OF assms(2,3)] assms(1) by (subst serve_stream.simps) simp
qed

lemma serve_stream_stop: "\<not> has_request p \<Longrightarrow> serve_stream p = ([], Some p)"
  by (simp add: serve_stream.simps)

section \<open>Reading a request\<close>

text \<open>
  \<open>read_result rel fd p k res\<close>: what reading with parser \<open>p\<close> has come to; \<open>rel\<close> says that what is sent
  on the connection arrives. \<open>reading\<close> is the loop: a call that delivers nothing is repeated or ends
  the connection, bytes go through the parser.
\<close>

definition read_result :: "bool \<Rightarrow> int \<Rightarrow> request_parser \<Rightarrow> kernel \<Rightarrow> read_outcome \<times> kernel \<Rightarrow> bool" where
  "read_result rel fd p k res \<longleftrightarrow>
     (case res of
        (Request_read p', k') \<Rightarrow> (\<exists>i. wire fd k k' i [] \<and> p' = stream p i \<and> has_request p' \<and> (has_error p \<longrightarrow> i = []))
      | (Connection_over, k') \<Rightarrow>
          (\<exists>i s. wire fd k k' i s \<and> \<not> has_request (stream p i) \<and> (has_error p \<longrightarrow> i = [])
             \<and> (rel \<longrightarrow> s = (if has_error (stream p i) then error_response (stream p i) else []))))"

lemma read_result_weaken: "read_result rel fd p k res \<Longrightarrow> (rel' \<longrightarrow> rel) \<Longrightarrow> read_result rel' fd p k res"
proof -
  assume a: "read_result rel fd p k res" "rel' \<longrightarrow> rel"
  obtain out k' where res: "res = (out, k')" by fastforce
  show ?thesis using a unfolding read_result_def res prod.case by (cases out) (simp, (simp only: read_outcome.case, blast))
qed

inductive reading :: "bool \<Rightarrow> int \<Rightarrow> request_parser \<Rightarrow> kernel \<Rightarrow> read_outcome \<times> kernel \<Rightarrow> bool" for rel fd where
  over: "wire fd k k1 [] [] \<Longrightarrow> reading rel fd p k (Connection_over, k1)"
| again: "wire fd k k1 [] [] \<Longrightarrow> reading rel fd p k1 res \<Longrightarrow> reading rel fd p k res"
| request: "wire fd k k1 i [] \<Longrightarrow> i \<noteq> [] \<Longrightarrow> has_request (feed i p) \<Longrightarrow> reading rel fd p k (Request_read (feed i p), k1)"
| bad: "wire fd k k1 i [] \<Longrightarrow> i \<noteq> [] \<Longrightarrow> has_error (feed i p) \<Longrightarrow> wire fd k1 k2 [] s
    \<Longrightarrow> (rel \<longrightarrow> s = error_response (feed i p)) \<Longrightarrow> reading rel fd p k (Connection_over, k2)"
| more: "wire fd k k1 i [] \<Longrightarrow> i \<noteq> [] \<Longrightarrow> need_more (feed i p) \<Longrightarrow> reading rel fd (feed i p) k1 res
    \<Longrightarrow> reading rel fd p k res"

lemma read_result_over:
  assumes "wire fd k k' i s" "\<not> has_request (stream p i)" "has_error p \<longrightarrow> i = []"
    "rel \<longrightarrow> s = (if has_error (stream p i) then error_response (stream p i) else [])"
  shows "read_result rel fd p k (Connection_over, k')"
  using assms unfolding read_result_def prod.case read_outcome.case by blast

lemma read_result_request:
  assumes "wire fd k k' i []" "has_request (stream p i)" "has_error p \<longrightarrow> i = []"
  shows "read_result rel fd p k (Request_read (stream p i), k')"
  using assms unfolding read_result_def prod.case read_outcome.case by blast

lemma read_result_more:
  assumes "wire fd k k1 i []" "i \<noteq> [] \<longrightarrow> p' = feed i p" "i = [] \<longrightarrow> p' = p" "need_more p" "need_more p'"
    "read_result rel fd p' k1 res"
  shows "read_result rel fd p k res"
proof -
  have st: "stream p (i @ j) = stream p' j" for j
  proof (cases "i = []")
    case False
    with assms stream_feed [of p i j] show ?thesis by (auto simp: need_more_def)
  qed (use assms(3) in simp)
  have np: "\<not> has_error p" using assms(4) by (simp add: need_more_def)
  obtain out k' where res: "res = (out, k')" by fastforce
  show ?thesis
  proof (cases out)
    case (Request_read q)
    with assms(6) res obtain j where j: "wire fd k1 k' j []" "q = stream p' j" "has_request q"
      by (auto simp: read_result_def)
    with wire_trans [OF assms(1) j(1)] st res Request_read np show ?thesis by (auto simp: read_result_def)
  next
    case Connection_over
    with assms(6) res obtain j s where j: "wire fd k1 k' j s" "\<not> has_request (stream p' j)"
      "rel \<longrightarrow> s = (if has_error (stream p' j) then error_response (stream p' j) else [])"
      by (auto simp: read_result_def)
    with wire_trans [OF assms(1) j(1)] st np show ?thesis
      unfolding res Connection_over by (intro read_result_over [of _ _ _ "i @ j" s]) simp_all
  qed
qed

lemma reading_result: "reading rel fd p k res \<Longrightarrow> need_more p \<Longrightarrow> read_result rel fd p k res"
proof (induction rule: reading.induct)
  case (over k k1 p)
  then show ?case by (auto simp: need_more_def intro!: read_result_over [of _ _ _ "[]" "[]"])
next
  case (again k k1 p res)
  then show ?case by (intro read_result_more [OF again(1)]) auto
next
  case (request k k1 i p)
  then have "stream p i = feed i p" by (simp add: stream_def)
  then show ?case using read_result_request [OF request(1), of p rel] request by (simp add: need_more_def)
next
  case (bad k k1 i p k2 s)
  then have st: "stream p i = feed i p" by (simp add: stream_def)
  have "\<not> has_request (feed i p)" using bad(3) by (simp add: has_request_def has_error_def)
  moreover have "wire fd k k2 i s" using wire_trans [OF bad(1,4)] by simp
  ultimately show ?case using bad st by (intro read_result_over [of _ _ _ i s]) (auto simp: need_more_def)
next
  case (more k k1 i p res)
  then show ?case by (intro read_result_more [OF more(1)]) auto
qed

text \<open>Before reading, a request that is already there is taken, and an error answered.\<close>

lemma next_result:
  assumes "has_request p \<Longrightarrow> res = (Request_read p, k)"
    and "\<not> has_request p \<Longrightarrow> has_error p \<Longrightarrow> \<exists>k1 s. res = (Connection_over, k1) \<and> wire fd k k1 [] s \<and> (rel \<longrightarrow> s = error_response p)"
    and "need_more p \<Longrightarrow> reading rel fd p k res"
  shows "read_result rel fd p k res"
proof -
  consider (request) "has_request p" "\<not> has_error p" | (bad) "\<not> has_request p" "has_error p" | (more) "need_more p"
    by (auto simp: need_more_def has_request_def has_error_def)
  then show ?thesis
  proof cases
    case request
    then show ?thesis using assms(1) read_result_request [of fd k k "[]" p rel] by simp
  next
    case bad
    then obtain k1 s where "res = (Connection_over, k1)" "wire fd k k1 [] s" "rel \<longrightarrow> s = error_response p"
      using assms(2) by blast
    then show ?thesis using bad read_result_over [of fd k k1 "[]" s p rel] by simp
  qed (use assms(3) reading_result in blast)
qed

lemma read_result_leaves:
  assumes "read_result rel fd p k (out, k')" "kernel_ok k"
  shows "leaves k k' []"
proof -
  obtain i s where "wire fd k k' i s" using assms(1) by (cases out) (auto simp: read_result_def)
  then show ?thesis using same_fds_leaves [of k k' k "[]"] assms(2) by (simp add: wire_def)
qed

lemma leaves_mset: "mset fds = mset fds' \<Longrightarrow> leaves k k' fds = leaves k k' fds'"
  using mset_eq_imp_distinct_iff [of fds fds'] mset_eq_setD [of fds fds'] by (simp add: leaves_def)

text \<open>What others own is to a computation as what was open before.\<close>

definition plus_fds :: "int list \<Rightarrow> kernel \<Rightarrow> kernel" where
  "plus_fds fds k = k\<lparr>k_open := map (\<lambda>fd. (fd, Socket)) fds @ k_open k\<rparr>"

lemma plus_fds_set: "set (k_fds (plus_fds fds k)) = set fds \<union> set (k_fds k)"
  by (auto simp: plus_fds_def image_Un image_image)

lemma leaves_frame:
  "distinct fds \<Longrightarrow> set fds \<inter> set (k_fds k0) = {} \<Longrightarrow> leaves (plus_fds fds k0) k own = leaves k0 k (fds @ own)"
  unfolding leaves_def plus_fds_set by (auto simp del: set_map)

lemma leaves_framed: "leaves k0 k (fds @ own) \<Longrightarrow> leaves (plus_fds fds k0) k own
    \<and> (\<forall>k' own'. leaves (plus_fds fds k0) k' own' \<longrightarrow> leaves k0 k' (fds @ own'))"
proof -
  assume l: "leaves k0 k (fds @ own)"
  then have "distinct fds" "set fds \<inter> set (k_fds k0) = {}" by (auto simp: leaves_def simp del: set_map)
  from leaves_frame [OF this] l show ?thesis by simp
qed

text \<open>The caller closes the client's descriptor when the conversation is over.\<close>

lemma close_client:
  assumes "leaves k k1 []" "fd \<in> set (k_fds k)"
  shows "kernel_ok (sys_close fd k1) \<and> set (k_fds (sys_close fd k1)) = set (k_fds k) - {fd}"
proof -
  have "k_fds (sys_close fd k1) = filter (\<lambda>x. x \<noteq> fd) (k_fds k1)"
    by (simp add: sys_close_def tick_def filter_map o_def)
  moreover have "k_bad_close (sys_close fd k1) \<longleftrightarrow> k_bad_close k1 \<or> fd \<notin> set (k_fds k1)"
    by (simp add: sys_close_def tick_def)
  ultimately show ?thesis
    using assms unfolding leaves_def kernel_ok_def by (auto simp del: set_map)
qed

section \<open>Handling a request\<close>

definition owned_pkg :: "response_package \<Rightarrow> int list" where
  "owned_pkg pkg = (if 0 \<le> rp_body_fd pkg then [rp_body_fd pkg] else [])"

lemma owned_make_package [simp]: "owned_pkg (make_package q r) = owned_fd r"
  by (simp add: owned_pkg_def owned_fd_def make_package_def Let_def)

lemma make_package_close [simp]: "rp_close_after (make_package q r) = wants_close q"
  by (simp add: make_package_def Let_def)

lemma process_request_leaves:
  assumes "waits os" "kernel_ok k" "process_request os cfg req ip acc k = Some (Inr pkg, k')"
  shows "leaves k k' (owned_pkg pkg)"
  using assms handle_leaves [OF assms(1,2)]
  by (auto simp: process_request_def split: option.splits prod.splits sum.splits)

lemma process_request_cases:
  assumes "process_request os cfg req ip acc k = Some (Inr pkg, k')"
  obtains r where "handle os cfg req acc ip k = Some (Inr r, k')" "pkg = make_package req r"
  using assms by (auto simp: process_request_def split: option.splits sum.splits)

section \<open>The conversation\<close>

text \<open>
  One exchange: the request, the response the handler gave, the time it was logged at, and the bytes
  sent for it. \<open>converse dl ip fd p k k' i xs p'\<close>: from parser \<open>p\<close> on, the bytes \<open>i\<close> were read, the
  exchanges \<open>xs\<close> took place, one after the other, and parser \<open>p'\<close> was left, if the connection was not
  closed on request. \<open>dl pkg b\<close> says that the bytes \<open>b\<close> deliver the package.
\<close>

type_synonym exchange = "http_request \<times> http_response \<times> int \<times> string"

definition farewell :: "request_parser option \<Rightarrow> string" where
  "farewell p = (case p of None \<Rightarrow> [] | Some p \<Rightarrow> if has_error p then error_response p else [])"

definition exchange_by :: "(response_package \<Rightarrow> string \<Rightarrow> bool) \<Rightarrow> exchange \<Rightarrow> bool" where
  "exchange_by dl x \<longleftrightarrow> (case x of (q, r, t, b) \<Rightarrow> dl (make_package q r) b)"

definition converse :: "(response_package \<Rightarrow> string \<Rightarrow> bool) \<Rightarrow> string option \<Rightarrow> int \<Rightarrow> request_parser \<Rightarrow> kernel \<Rightarrow> kernel
    \<Rightarrow> string \<Rightarrow> exchange list \<Rightarrow> request_parser option \<Rightarrow> bool" where
  "converse dl ip fd p k k' i xs p' \<longleftrightarrow>
     received_from fd k' = received_from fd k @ i
     \<and> serve_stream (stream p i) = (map fst xs, p') \<and> list_all (exchange_by dl) xs
     \<and> sent_to fd k' = sent_to fd k @ concat (map (\<lambda>(q, r, t, b). b) xs) @ farewell p'
     \<and> k_log k' = k_log k @ map (\<lambda>(q, r, t, b). log_entry ip q r t) xs
     \<and> (has_error p \<longrightarrow> i = [])"

lemma converse_request:
  assumes "wire fd k k1 i []" "has_request (stream p i)" "has_error p \<longrightarrow> i = []" "get_request (stream p i) = (q, p2)"
    "exchange_by dl (q, r, t, b)" "received_from fd k2 = received_from fd k1" "sent_to fd k2 = sent_to fd k1 @ b"
    "k_log k2 = k_log k1 @ [log_entry ip q r t]"
  shows "wants_close q \<Longrightarrow> converse dl ip fd p k k2 i [(q, r, t, b)] None"
    and "\<not> wants_close q \<Longrightarrow> converse dl ip fd p2 k2 k' j xs p' \<Longrightarrow> stream p (i @ j) = stream (stream p i) j
      \<Longrightarrow> converse dl ip fd p k k' (i @ j) ((q, r, t, b) # xs) p'"
proof -
  assume "wants_close q"
  then have "serve_stream (stream p i) = ([q], None)" using assms(2,4) by (subst serve_stream.simps) simp
  with assms show "converse dl ip fd p k k2 i [(q, r, t, b)] None"
    by (simp add: converse_def farewell_def wire_def same_history_def)
next
  assume nc: "\<not> wants_close q" and c: "converse dl ip fd p2 k2 k' j xs p'" and st: "stream p (i @ j) = stream (stream p i) j"
  then have "serve_stream (stream p (i @ j)) = apfst (Cons q) (serve_stream (stream p2 j))"
    using serve_stream_request [OF assms(2,4), of j] by (simp add: converse_def)
  moreover have "i @ j = []" if "has_error p"
    using assms(2,3) that by (simp add: has_request_def has_error_def)
  ultimately show "converse dl ip fd p k k' (i @ j) ((q, r, t, b) # xs) p'"
    using c assms by (simp add: converse_def wire_def same_history_def)
qed

lemma stream_request: "has_request (stream p i) \<Longrightarrow> stream p (i @ j) = stream (stream p i) j"
proof -
  assume r: "has_request (stream p i)"
  show ?thesis
  proof (cases "i = []")
    case False
    show ?thesis
    proof (cases "need_more p")
      case True
      with False r have "has_request (feed i p)" by (simp add: stream_def)
      with True False show ?thesis
        by (subst stream_feed) (auto simp: stream_def has_request_def has_error_def)
    next
      case nm: False
      have "stream q x = push x q" if "\<not> need_more q" for q x using that by (simp add: stream_def)
      with nm show ?thesis by simp
    qed
  qed simp
qed

section \<open>The contract of a transport\<close>

text \<open>
  A transport reads the next request and sends a response on one connection. When it comes back it
  has disposed of the package's file; if what is sent arrives, the bytes it sent are what \<open>dl\<close> allows.
\<close>

locale transport =
  fixes next_req :: "request_parser \<Rightarrow> kernel \<Rightarrow> (read_outcome \<times> kernel) option"
    and respond :: "response_package \<Rightarrow> kernel \<Rightarrow> kernel option"
    and rel :: bool and fd :: int and dl :: "response_package \<Rightarrow> string \<Rightarrow> bool"
  assumes next_req: "next_req p k = Some res \<Longrightarrow> read_result rel fd p k res"
    and respond: "respond pkg k = Some k' \<Longrightarrow> \<exists>s k1. wire fd k k1 [] s
      \<and> k' = (if rp_body_fd pkg < 0 then k1 else sys_close (rp_body_fd pkg) k1) \<and> (rel \<longrightarrow> dl pkg s)"
begin

lemma respond_closes:
  assumes "leaves k0 k (owned_pkg pkg)" "respond pkg k = Some k'"
  shows "leaves k0 k' []"
proof -
  obtain s k1 where w: "wire fd k k1 [] s" "k' = (if rp_body_fd pkg < 0 then k1 else sys_close (rp_body_fd pkg) k1)"
    using respond [OF assms(2)] by blast
  have l: "leaves k0 k1 (owned_pkg pkg)"
    using assms(1) w(1) same_fds_leaves [of k k1 k0 "owned_pkg pkg"] by (simp add: wire_def)
  then show ?thesis
    using w(2) sys_close_leaves [of k0 k1 "[rp_body_fd pkg]" "rp_body_fd pkg"]
    by (auto simp: owned_pkg_def split: if_splits)
qed

lemma exchange_step:
  assumes rel "kernel_ok k" "fd \<in> set (k_fds k)"
    "process_request os cfg req ip acc k = Some (Inr pkg, k1)" "respond pkg k1 = Some k2"
  shows "\<exists>r t b. exchange_by dl (req, r, t, b) \<and> pkg = make_package req r \<and> received_from fd k2 = received_from fd k
    \<and> sent_to fd k2 = sent_to fd k @ b \<and> k_log k2 = k_log k @ [log_entry ip req r t]"
proof -
  obtain r where r: "handle os cfg req acc ip k = Some (Inr r, k1)" "pkg = make_package req r"
    using process_request_cases [OF assms(4)] .
  have q: "quiet fd k k1" using handle_quiet [OF r(1) assms(2,3)] .
  obtain t where t: "k_log k1 = k_log k @ [log_entry ip req r t]" using handle_log [OF r(1)] by auto
  obtain b k0 where w: "wire fd k1 k0 [] b" "k2 = (if rp_body_fd pkg < 0 then k0 else sys_close (rp_body_fd pkg) k0)"
    "dl pkg b"
    using respond [OF assms(5)] assms(1) by blast
  have "quiet fd k0 k2" "k_log k2 = k_log k0"
    using w(2) by (auto simp: quiet_def sent_to_def received_from_def sys_close_def)
  then have io: "received_from fd k2 = received_from fd k" "sent_to fd k2 = sent_to fd k @ b"
    "k_log k2 = k_log k @ [log_entry ip req r t]"
    using q t w(1) by (simp_all add: quiet_def wire_def same_history_def)
  have "exchange_by dl (req, r, t, b)"
    using w(3) r(2) by (simp add: exchange_by_def)
  with io r(2) show ?thesis by blast
qed

text \<open>One connection: exchanges until reading is over or a request has asked to close.\<close>

inductive serves :: "os \<Rightarrow> config \<Rightarrow> string option \<Rightarrow> request_parser \<Rightarrow> kernel \<Rightarrow> kernel \<Rightarrow> bool" for os cfg ip where
  over: "next_req p k = Some (Connection_over, k1) \<Longrightarrow> serves os cfg ip p k k1"
| closing: "next_req p k = Some (Request_read p1, k1) \<Longrightarrow> get_request p1 = (req, p2)
    \<Longrightarrow> process_request os cfg req ip acc k1 = Some (Inr pkg, k2) \<Longrightarrow> respond pkg k2 = Some k3 \<Longrightarrow> wants_close req
    \<Longrightarrow> serves os cfg ip p k k3"
| another: "next_req p k = Some (Request_read p1, k1) \<Longrightarrow> get_request p1 = (req, p2)
    \<Longrightarrow> process_request os cfg req ip acc k1 = Some (Inr pkg, k2) \<Longrightarrow> respond pkg k2 = Some k3 \<Longrightarrow> \<not> wants_close req
    \<Longrightarrow> serves os cfg ip p2 k3 k' \<Longrightarrow> serves os cfg ip p k k'"

lemma exchange_leaves:
  assumes "waits os" "kernel_ok k" "next_req p k = Some (out, k1)"
    "process_request os cfg req ip acc k1 = Some (Inr pkg, k2)" "respond pkg k2 = Some k3"
  shows "leaves k k1 []" "leaves k k3 []"
proof -
  show l1: "leaves k k1 []" using read_result_leaves [OF next_req [OF assms(3)] assms(2)] .
  have "leaves k1 k3 []"
    using respond_closes [OF process_request_leaves [OF assms(1) leaves_ok [OF l1] assms(4)] assms(5)] .
  then show "leaves k k3 []" using leaves_trans [OF l1] by simp
qed

lemma serves_leaves: "serves os cfg ip p k k' \<Longrightarrow> waits os \<Longrightarrow> kernel_ok k \<Longrightarrow> leaves k k' []"
proof (induction rule: serves.induct)
  case (over p k k1)
  then show ?case using read_result_leaves next_req by blast
next
  case (closing p k p1 k1 req p2 acc pkg k2 k3)
  then show ?case using exchange_leaves(2) by blast
next
  case (another p k p1 k1 req p2 acc pkg k2 k3 k')
  then have l: "leaves k k3 []" using exchange_leaves(2) by blast
  with another leaves_ok leaves_trans [OF l, of k' "[]"] show ?case by auto
qed

lemma serves_converse:
  "serves os cfg ip p k k' \<Longrightarrow> waits os \<Longrightarrow> rel \<Longrightarrow> kernel_ok k \<Longrightarrow> fd \<in> set (k_fds k)
   \<Longrightarrow> \<exists>i xs p'. converse dl ip fd p k k' i xs p'"
proof (induction rule: serves.induct)
  case (over p k k1)
  then obtain i s where "wire fd k k1 i s" "\<not> has_request (stream p i)" "has_error p \<longrightarrow> i = []"
      "s = (if has_error (stream p i) then error_response (stream p i) else [])"
    using next_req [OF over(1)] by (auto simp: read_result_def)
  then have "converse dl ip fd p k k1 i [] (Some (stream p i))"
    by (simp add: converse_def serve_stream_stop farewell_def wire_def same_history_def)
  then show ?case by blast
next
  case (closing p k p1 k1 req p2 acc pkg k2 k3)
  obtain i where i: "wire fd k k1 i []" "p1 = stream p i" "has_request (stream p i)" "has_error p \<longrightarrow> i = []"
    using next_req [OF closing(1)] by (auto simp: read_result_def)
  have l: "kernel_ok k1" "fd \<in> set (k_fds k1)"
    using exchange_leaves(1) [OF closing(6,8,1,3,4)] closing(9) by (simp_all add: leaves_def)
  obtain r t b where x: "exchange_by dl (req, r, t, b)" "received_from fd k3 = received_from fd k1"
      "sent_to fd k3 = sent_to fd k1 @ b" "k_log k3 = k_log k1 @ [log_entry ip req r t]"
    using exchange_step [OF closing(7) l closing(3,4)] by blast
  show ?case using converse_request(1) [OF i(1,3,4) closing(2) [unfolded i(2)] x closing(5)] by blast
next
  case (another p k p1 k1 req p2 acc pkg k2 k3 k')
  obtain i where i: "wire fd k k1 i []" "p1 = stream p i" "has_request (stream p i)" "has_error p \<longrightarrow> i = []"
    using next_req [OF another(1)] by (auto simp: read_result_def)
  note ls = exchange_leaves [OF another(8,10,1,3,4)]
  have l: "kernel_ok k1" "fd \<in> set (k_fds k1)" "kernel_ok k3" "fd \<in> set (k_fds k3)"
    using ls another(11) by (simp_all add: leaves_def)
  obtain r t b where x: "exchange_by dl (req, r, t, b)" "received_from fd k3 = received_from fd k1"
      "sent_to fd k3 = sent_to fd k1 @ b" "k_log k3 = k_log k1 @ [log_entry ip req r t]"
    using exchange_step [OF another(9) l(1,2) another(3,4)] by blast
  obtain j xs p' where "converse dl ip fd p2 k3 k' j xs p'" using another(7) [OF another(8,9) l(3,4)] by blast
  from converse_request(2) [OF i(1,3,4) another(2) [unfolded i(2)] x another(5) this stream_request [OF i(3)]]
  show ?case by blast
qed

end

end
