(* ===== verification/Connection_Properties.thy ===== *)
theory Connection_Properties
  imports Conversation
begin

text \<open>
  A whole connection over a plain socket: it meets the contract of a transport, so it leaks no
  descriptor and answers the requests of the stream it reads, in order and independently of how the
  stream is cut up.
\<close>

section \<open>The plain socket as a transport\<close>

lemma read_request_reading: "read_request os fd p k = Some res \<Longrightarrow> reading (reliable os) fd p k res"
proof (erule read_request.raw_induct [where P = "\<lambda>os fd p k res. reading (reliable os) fd p k res", rotated])
  fix f os fd p k res
  assume IH: "\<And>os fd p k res. f os fd p k = Some res \<Longrightarrow> reading (reliable os) fd p k res"
    and eq: "(case sys_read os fd 8192 k of
        (Got s, k1) \<Rightarrow>
          if s = [] then Some (Connection_over, k1)
          else let parser' = feed s p
               in if has_request parser' then Some (Request_read parser', k1)
                  else if has_error parser'
                  then Some (Connection_over, write_all os fd (error_response parser') k1)
                  else f os fd parser' k1
      | (Read_fail e, k1) \<Rightarrow>
          if e = EINTR then f os fd p k1 else Some (Connection_over, k1)) = Some res"
  obtain r k1 where rd: "sys_read os fd 8192 k = (r, k1)" by fastforce
  show "reading (reliable os) fd p k res"
  proof (cases r)
    case (Read_fail e)
    note w = wire_read_fail [OF rd [unfolded Read_fail]]
    show ?thesis
      using eq rd Read_fail reading.over [OF w] reading.again [OF w] IH by (auto split: if_splits)
  next
    case (Got i)
    note w = wire_read [OF rd [unfolded Got]]
    obtain s where reply: "wire fd k1 (write_all os fd (error_response (feed i p)) k1) [] s"
        "reliable os \<longrightarrow> s = error_response (feed i p)"
      using write_all_wire by blast
    consider (eof) "i = []" | (request) "i \<noteq> []" "has_request (feed i p)"
      | (bad) "i \<noteq> []" "\<not> has_request (feed i p)" "has_error (feed i p)"
      | (more) "i \<noteq> []" "need_more (feed i p)" by (auto simp: need_more_def)
    then show ?thesis
    proof cases
      case eof
      with eq rd Got reading.over [OF w [unfolded eof]] show ?thesis by simp
    next
      case request
      with eq rd Got reading.request [OF w request] show ?thesis by simp
    next
      case bad
      with eq rd Got reading.bad [OF w bad(1,3) reply] show ?thesis by simp
    next
      case more
      with eq rd Got have "f os fd (feed i p) k1 = Some res" by (simp add: need_more_def)
      from reading.more [OF w more IH [OF this]] show ?thesis .
    qed
  qed
qed

lemma next_request_result: "next_request os fd p k = Some res \<Longrightarrow> read_result (reliable os) fd p k res"
proof (rule next_result)
  show "\<exists>k1 s. res = (Connection_over, k1) \<and> wire fd k k1 [] s \<and> (reliable os \<longrightarrow> s = error_response p)"
    if "next_request os fd p k = Some res" "\<not> has_request p" "has_error p"
    using that write_all_wire [of "error_response p" fd k os] by (auto simp: next_request_def)
qed (auto simp: next_request_def need_more_def intro: read_request_reading)

text \<open>The serialised response, or its head followed by as many bytes as announced.\<close>

definition delivered :: "response_package \<Rightarrow> string \<Rightarrow> bool" where
  "delivered pkg b \<longleftrightarrow>
     (if rp_body_fd pkg < 0 then b = rp_bytes pkg
      else 0 \<le> rp_body_fd_offset pkg \<longrightarrow>
        (\<exists>body. b = rp_bytes pkg @ body \<and> length body = nat (rp_body_fd_size pkg)))"

definition exchange_ok :: "exchange \<Rightarrow> bool" where
  "exchange_ok x \<longleftrightarrow> (case x of (q, r, t, b) \<Rightarrow> delivered (make_package q r) b)"

lemma write_response_delivers:
  assumes "write_response os fd pkg k = Some k'"
  shows "\<exists>s k1. wire fd k k1 [] s \<and> k' = (if rp_body_fd pkg < 0 then k1 else sys_close (rp_body_fd pkg) k1)
    \<and> (reliable os \<and> files_fixed os \<longrightarrow> delivered pkg s)"
  using write_response_wire [OF assms] by (fastforce simp: delivered_def)

interpretation plain: transport "\<lambda>p k. next_request os fd p k" "\<lambda>pkg k. write_response os fd pkg k"
    "reliable os \<and> files_fixed os" fd delivered for os fd
proof
  show "read_result (reliable os \<and> files_fixed os) fd p k res" if "next_request os fd p k = Some res" for p k res
    by (rule read_result_weaken [OF next_request_result [OF that]]) simp
qed (rule write_response_delivers)

lemma write_response_closes:
  "leaves k0 k (owned_pkg pkg) \<Longrightarrow> write_response os fd pkg k = Some k' \<Longrightarrow> leaves k0 k' []"
  by (rule plain.respond_closes)

interpretation connection: fd_client
  "\<lambda>(req, ip, acc) k. if waits os then process_request os cfg req ip acc k else None" owned_pkg
  "\<lambda>pkg k. write_response os fd pkg k" for os cfg fd
  by unfold_locales (auto dest: process_request_leaves write_response_closes split: if_splits)

lemma connection_step_leaves:
  assumes "waits os" "kernel_ok k" "process_request os cfg req ip acc k = Some (Inr pkg, k1)"
    "write_response os fd pkg k1 = Some k2"
  shows "leaves k k2 []"
  using connection.run_dispose [of k os cfg "(req, ip, acc)" pkg k1 fd k2] assms by simp

section \<open>The connection\<close>

lemma connection_loop_serves:
  assumes "connection_loop os cfg fd ip acc p k = Some res" "fst res = Inr ()"
  shows "plain.serves os fd os cfg ip p k (snd res)"
proof (rule mp [OF connection_loop.raw_induct [where P = "\<lambda>os cfg fd ip acc p k res.
    fst res = Inr () \<longrightarrow> plain.serves os fd os cfg ip p k (snd res)", OF _ assms(1)] assms(2)], rule impI)
  fix f os cfg fd ip acc p k res
  assume IH: "\<And>os cfg fd ip acc p k res. f os cfg fd ip acc p k = Some res \<Longrightarrow>
      fst res = Inr () \<longrightarrow> plain.serves os fd os cfg ip p k (snd res)"
    and eq: "(case next_request os fd p k of
        None \<Rightarrow> None
      | Some (Request_read parser', k1) \<Rightarrow>
          (case get_request parser' of (req, parser'') \<Rightarrow>
            (case process_request os cfg req ip (acc (k_tick k1)) k1 of
               None \<Rightarrow> None
             | Some (Inl e, k2) \<Rightarrow> Some (Inl e, k2)
             | Some (Inr pkg, k2) \<Rightarrow>
                 (case write_response os fd pkg k2 of
                    None \<Rightarrow> None
                  | Some k3 \<Rightarrow>
                      if rp_close_after pkg then Some (Inr (), k3)
                      else f os cfg fd ip acc parser'' k3)))
      | Some (Connection_over, k1) \<Rightarrow> Some (Inr (), k1)) = Some res"
    and ok: "fst res = Inr ()"
  obtain out k1 where nr: "next_request os fd p k = Some (out, k1)"
    using eq by (cases "next_request os fd p k") auto
  show "plain.serves os fd os cfg ip p k (snd res)"
  proof (cases out)
    case Connection_over
    then have "res = (Inr (), k1)" using eq nr by simp
    then have "snd res = k1" by simp
    then show ?thesis using plain.serves.over [OF nr [unfolded Connection_over]] by (rule ssubst)
  next
    case (Request_read p1)
    obtain req p2 where g: "get_request p1 = (req, p2)" by fastforce
    from eq nr Request_read g ok obtain pkg k2 k3 where
      step: "process_request os cfg req ip (acc (k_tick k1)) k1 = Some (Inr pkg, k2)" "write_response os fd pkg k2 = Some k3"
      "(if rp_close_after pkg then Some (Inr (), k3) else f os cfg fd ip acc p2 k3) = Some res"
      by (auto split: option.splits sum.splits)
    have pkg: "rp_close_after pkg = wants_close req" by (rule process_request_cases [OF step(1)]) simp
    note one = nr [unfolded Request_read] g step(1,2)
    show ?thesis
    proof (cases "wants_close req")
      case True
      then have "res = (Inr (), k3)" using step(3) pkg by simp
      then have "snd res = k3" by simp
      then show ?thesis using plain.serves.closing [OF one True] by (rule ssubst)
    next
      case False
      then have "f os cfg fd ip acc p2 k3 = Some res" using step(3) pkg by simp
      from IH [OF this] ok have rest: "plain.serves os fd os cfg ip p2 k3 (snd res)" by (rule mp)
      show ?thesis by (rule plain.serves.another [OF one False rest])
    qed
  qed
qed

text \<open>
  C24: a connection leaks nothing. However many requests it carries, with files, scripts, broken
  transfers and malformed input, when \<open>handle_connection\<close> returns the process has exactly the
  descriptors it had before, and none was closed twice.
\<close>

theorem connection_leaks_nothing:
  assumes "handle_connection os cfg fd ip acc k = Some (Inr (), k')" "waits os" "kernel_ok k"
  shows "kernel_ok k' \<and> set (k_fds k') = set (k_fds k)"
proof -
  have "leaves k k' []"
    using plain.serves_leaves [OF connection_loop_serves [OF assms(1) [unfolded handle_connection_def]]] assms(2,3)
    by simp
  then show ?thesis by (simp add: leaves_def)
qed


text \<open>A client for concrete runs, which sends one request, in two pieces, and asks to close.\<close>

definition hello :: string where
  "hello = ''GET / HTTP/1.1'' @ crlf @ ''Connection: close'' @ crlf @ crlf"

definition talk_os :: os where
  "talk_os = idle_os\<lparr>os_read := \<lambda>n _. if n = 0 then Got (take 9 hello) else if n = 1 then Got (drop 9 hello) else Got []\<rparr>"

lemma talk_os_ok: "waits talk_os" "reliable talk_os" "files_fixed talk_os"
  by (simp_all add: talk_os_def waits_def reliable_def files_fixed_def idle_os_def)

lemma hello_parsed:
  "need_more (feed (take 9 hello) init_parser)" "take 9 hello \<noteq> []" "drop 9 hello \<noteq> []"
  "has_request (feed (drop 9 hello) (feed (take 9 hello) init_parser))"
  "wants_close (fst (get_request (feed (drop 9 hello) (feed (take 9 hello) init_parser))))"
  "length hello < 8192" "has_request init_parser = False" "has_error init_parser = False"
  by code_simp+

lemma talk_run: "\<exists>k'. handle_connection talk_os default_config 0 ''10.0.0.1'' acc init_kernel = Some (Inr (), k')"
proof -
  define p1 where "p1 = feed (drop 9 hello) (feed (take 9 hello) init_parser)"
  obtain req p2 where g: "get_request p1 = (req, p2)" by fastforce
  have close: "wants_close req" using hello_parsed(5) g by (simp add: p1_def)
  have len: "take 8192 (take n hello) = take n hello" "take 8192 (drop n hello) = drop n hello" for n
    using hello_parsed(6) by (simp_all only: take_all_iff length_take length_drop)
  obtain k1 where r1: "sys_read talk_os 0 8192 init_kernel = (Got (take 9 hello), k1)" "k_tick k1 = 1"
    using len by (simp add: sys_read_def talk_os_def init_kernel_def)
  obtain k2 where r2: "sys_read talk_os 0 8192 k1 = (Got (drop 9 hello), k2)"
    using len r1(2) by (simp add: sys_read_def talk_os_def)
  have "read_request talk_os 0 (feed (take 9 hello) init_parser) k1 = Some (Request_read p1, k2)"
    using r2 hello_parsed by (subst read_request.simps) (simp add: p1_def)
  then have "next_request talk_os 0 init_parser init_kernel = Some (Request_read p1, k2)"
    using r1 hello_parsed unfolding next_request_def
    by (subst read_request.simps) (simp add: need_more_def)
  moreover have "\<exists>k3. process_request talk_os default_config req ip a k2
      = Some (Inr (make_package req (mk_response St_ServiceUnavailable)), k3)" for ip a
  proof -
    have "resolve_vhost default_config req = None" by (simp add: resolve_vhost_def default_config_def Let_def)
    then show ?thesis by (simp add: process_request_def handle_decide decide_def logged_def sys_time_def)
  qed
  then obtain k3 where "process_request talk_os default_config req (Some ''10.0.0.1'') (acc (k_tick k2)) k2
      = Some (Inr (make_package req (mk_response St_ServiceUnavailable)), k3)" by blast
  moreover obtain k4 where "write_response talk_os 0 (make_package req (mk_response St_ServiceUnavailable)) k3 = Some k4"
    by (simp add: write_response_def make_package_def Let_def)
  ultimately show ?thesis
    unfolding handle_connection_def
    by (subst connection_loop.simps) (simp add: g close)
qed

lemma init_kernel_fds: "set (k_fds init_kernel) = {0, 1, 2}"
  by (auto simp: init_kernel_def)

theorem connection_leaks_nothing_witness:
  "\<exists>k'. handle_connection talk_os default_config 0 ''10.0.0.1'' (\<lambda>_. True) init_kernel = Some (Inr (), k')
     \<and> set (k_fds k') = {0, 1, 2}"
proof -
  obtain k' where r: "handle_connection talk_os default_config 0 ''10.0.0.1'' (\<lambda>_. True) init_kernel = Some (Inr (), k')"
    using talk_run by blast
  from connection_leaks_nothing [OF r talk_os_ok(1) init_kernel_ok] r init_kernel_fds show ?thesis by auto
qed


end
