(* ===== verification/Event_Loop.thy ===== *)
theory Event_Loop
  imports Connection_Properties "HOL-Library.AList"
begin

text \<open>
  \<open>server/select_mode.cpp\<close>, the event loop of one worker: non-blocking connections as state
  machines, driven by the events of the poller (\<open>server/poller.hpp\<close>). The poller is the table of
  the descriptors it watches, with the interest in reading and in writing; what it reports is up to
  the environment. The loops that may run for ever (a file that became shorter, a wake pipe that is
  never empty) are \<open>partial_function (option)\<close>.
\<close>

section \<open>The poller\<close>

type_synonym poller = "int \<Rightarrow> (bool \<times> bool) option"

definition poller_add :: "int \<Rightarrow> bool \<Rightarrow> bool \<Rightarrow> poller \<Rightarrow> poller" where
  "poller_add fd want_read want_write p = (if p fd = None then p(fd \<mapsto> (want_read, want_write)) else p)"

definition poller_modify :: "int \<Rightarrow> bool \<Rightarrow> bool \<Rightarrow> poller \<Rightarrow> poller" where
  "poller_modify fd want_read want_write p = (if p fd = None then p else p(fd \<mapsto> (want_read, want_write)))"

definition poller_remove :: "int \<Rightarrow> poller \<Rightarrow> poller" where
  "poller_remove fd p = p(fd := None)"

section \<open>Connections\<close>

datatype conn_phase = Reading | Writing

record conn_state =
  cs_fd :: int
  cs_client_ip :: string
  cs_parser :: request_parser
  cs_phase :: conn_phase
  cs_write_buf :: string
  cs_write_offset :: nat
  cs_accepted_at :: int
  cs_close_after_write :: bool
  cs_sendfile_fd :: int
  cs_sendfile_offset :: int
  cs_sendfile_size :: int

definition init_conn :: "int \<Rightarrow> string \<Rightarrow> int \<Rightarrow> conn_state" where
  "init_conn client_fd client_ip now =
     \<lparr>cs_fd = client_fd, cs_client_ip = client_ip, cs_parser = init_parser, cs_phase = Reading, cs_write_buf = [],
      cs_write_offset = 0, cs_accepted_at = now, cs_close_after_write = False, cs_sendfile_fd = -1,
      cs_sendfile_offset = 0, cs_sendfile_size = 0\<rparr>"

record worker =
  wk_queue :: "(int \<times> string) list"
  wk_conns :: "(int \<times> conn_state) list"
  wk_poller :: poller

definition try_accept_from_queue :: "os \<Rightarrow> worker \<Rightarrow> kernel \<Rightarrow> worker \<times> kernel" where
  "try_accept_from_queue os w k =
     (case wk_queue w of
        [] \<Rightarrow> (w, k)
      | (client_fd, client_ip) # rest \<Rightarrow>
          let w1 = w\<lparr>wk_queue := rest\<rparr>
          in if client_fd < 0 then (w1, k)
             else
               let (now, k1) = sys_time os k
               in (w1\<lparr>wk_poller := poller_add client_fd True False (wk_poller w1),
                      wk_conns := AList.update client_fd (init_conn client_fd client_ip now) (wk_conns w1)\<rparr>, k1))"

definition close_sendfile :: "conn_state \<Rightarrow> kernel \<Rightarrow> kernel" where
  "close_sendfile state k = (if 0 \<le> cs_sendfile_fd state then sys_close (cs_sendfile_fd state) k else k)"

definition reset_conn_to_reading :: "conn_state \<Rightarrow> poller \<Rightarrow> kernel \<Rightarrow> (conn_state \<times> poller) \<times> kernel" where
  "reset_conn_to_reading state p k =
     ((state\<lparr>cs_sendfile_fd := (if 0 \<le> cs_sendfile_fd state then -1 else cs_sendfile_fd state),
            cs_parser := reset (cs_parser state), cs_phase := Reading, cs_write_buf := [], cs_write_offset := 0,
            cs_sendfile_offset := 0, cs_sendfile_size := 0, cs_close_after_write := False\<rparr>,
       poller_modify (cs_fd state) True False p),
      close_sendfile state k)"

definition start_writing :: "response_package \<Rightarrow> conn_state \<Rightarrow> conn_state" where
  "start_writing pkg state =
     state\<lparr>cs_close_after_write := rp_close_after pkg, cs_write_buf := rp_bytes pkg, cs_write_offset := 0,
           cs_sendfile_fd := rp_body_fd pkg, cs_sendfile_offset := rp_body_fd_offset pkg,
           cs_sendfile_size := rp_body_fd_size pkg, cs_phase := Writing\<rparr>"

text \<open>The result: whether to close the connection, its new state and the poller's.\<close>

definition process_readable ::
  "os \<Rightarrow> config \<Rightarrow> (nat \<Rightarrow> bool) \<Rightarrow> conn_state \<Rightarrow> poller \<Rightarrow> kernel
   \<Rightarrow> ((cxx_exn + bool \<times> conn_state \<times> poller) \<times> kernel) option" where
  "process_readable os cfg accepting state p k =
     (case sys_read os (cs_fd state) 8192 k of
        (Read_fail e, k1) \<Rightarrow> Some (Inr (e \<noteq> EAGAIN, state, p), k1)
      | (Got s, k1) \<Rightarrow>
          if s = [] then Some (Inr (True, state, p), k1)
          else
            let parser = feed s (cs_parser state)
            in if has_request parser
               then (case get_request parser of (req, parser') \<Rightarrow>
                 (case process_request os cfg req (if cs_client_ip state = [] then None else Some (cs_client_ip state))
                         (accepting (k_tick k1)) k1 of
                    None \<Rightarrow> None
                  | Some (Inl e, k2) \<Rightarrow> Some (Inl e, k2)
                  | Some (Inr pkg, k2) \<Rightarrow>
                      Some (Inr (False, start_writing pkg (state\<lparr>cs_parser := parser'\<rparr>),
                                 poller_modify (cs_fd state) False True p), k2)))
               else if has_error parser
               then Some (Inr (True, state\<lparr>cs_parser := parser\<rparr>, p),
                      write_all os (cs_fd state) (error_response parser) k1)
               else Some (Inr (False, state\<lparr>cs_parser := parser\<rparr>, p), k1))"

datatype drain = Drained | Blocked | Broken

partial_function (option) drain_file :: "os \<Rightarrow> conn_state \<Rightarrow> kernel \<Rightarrow> ((drain \<times> conn_state) \<times> kernel) option" where
  "drain_file os state k =
     (if cs_sendfile_size state \<le> 0 then Some ((Drained, state), k)
      else (case sys_sendfile os (cs_fd state) (cs_sendfile_fd state) (cs_sendfile_offset state) (cs_sendfile_size state) k of
              (Wrote n, k1) \<Rightarrow>
                drain_file os (state\<lparr>cs_sendfile_offset := cs_sendfile_offset state + int n,
                                    cs_sendfile_size := cs_sendfile_size state - int n\<rparr>) k1
            | (Write_fail e, k1) \<Rightarrow>
                if e = EAGAIN then Some ((Blocked, state), k1)
                else Some ((Broken, state\<lparr>cs_sendfile_fd := -1\<rparr>), sys_close (cs_sendfile_fd state) k1)))"

definition finish_writing :: "conn_state \<Rightarrow> poller \<Rightarrow> kernel \<Rightarrow> (bool \<times> conn_state \<times> poller) \<times> kernel" where
  "finish_writing state p k =
     (if cs_close_after_write state then ((True, state, p), k)
      else let ((state', p'), k') = reset_conn_to_reading state p k in ((False, state', p'), k'))"

definition write_file_part :: "os \<Rightarrow> conn_state \<Rightarrow> poller \<Rightarrow> kernel \<Rightarrow> ((bool \<times> conn_state \<times> poller) \<times> kernel) option" where
  "write_file_part os state p k =
     (if 0 \<le> cs_sendfile_fd state
      then (case drain_file os state k of
              None \<Rightarrow> None
            | Some ((Blocked, state'), k1) \<Rightarrow> Some ((False, state', p), k1)
            | Some ((Broken, state'), k1) \<Rightarrow> Some ((True, state', p), k1)
            | Some ((Drained, state'), k1) \<Rightarrow>
                Some (finish_writing (state'\<lparr>cs_sendfile_fd := -1\<rparr>) p (sys_close (cs_sendfile_fd state') k1)))
      else Some (finish_writing state p k))"

definition process_writable :: "os \<Rightarrow> conn_state \<Rightarrow> poller \<Rightarrow> kernel \<Rightarrow> ((bool \<times> conn_state \<times> poller) \<times> kernel) option" where
  "process_writable os state p k =
     (if 0 < length (cs_write_buf state) - cs_write_offset state
      then (case sys_write os (cs_fd state) (drop (cs_write_offset state) (cs_write_buf state)) k of
              (Write_fail e, k1) \<Rightarrow> Some ((e \<noteq> EAGAIN, state, p), k1)
            | (Wrote n, k1) \<Rightarrow>
                if n = 0 then Some ((os_errno os (k_tick k1) \<noteq> EAGAIN, state, p), k1)
                else
                  let state1 = state\<lparr>cs_write_offset := cs_write_offset state + n\<rparr>
                  in if cs_write_offset state1 < length (cs_write_buf state1) then Some ((False, state1, p), k1)
                     else write_file_part os state1 p k1)
      else write_file_part os state p k)"

section \<open>The loop of a worker\<close>

text \<open>Each byte in the wake pipe stands for one connection in the queue.\<close>

partial_function (option) drain_wake_pipe :: "os \<Rightarrow> int \<Rightarrow> worker \<Rightarrow> kernel \<Rightarrow> (worker \<times> kernel) option" where
  "drain_wake_pipe os wake_fd w k =
     (case sys_read os wake_fd 64 k of
        (Read_fail e, k1) \<Rightarrow> Some (w, k1)
      | (Got s, k1) \<Rightarrow>
          if s = [] then Some (w, k1)
          else (case ((\<lambda>(w, k). try_accept_from_queue os w k) ^^ length s) (w, k1) of
                  (w2, k2) \<Rightarrow> drain_wake_pipe os wake_fd w2 k2))"

fun accept_events :: "os \<Rightarrow> int \<Rightarrow> poll_event list \<Rightarrow> worker \<Rightarrow> kernel \<Rightarrow> (worker \<times> kernel) option" where
  "accept_events os wake_fd [] w k = Some (w, k)"
| "accept_events os wake_fd (ev # evs) w k =
     (if ev_fd ev = wake_fd \<and> ev_readable ev
      then (case drain_wake_pipe os wake_fd w k of
              None \<Rightarrow> None
            | Some (w1, k1) \<Rightarrow> accept_events os wake_fd evs w1 k1)
      else accept_events os wake_fd evs w k)"

text \<open>One event of a connection; the result says whether the connection is to be removed.\<close>

definition connection_event ::
  "os \<Rightarrow> config \<Rightarrow> (nat \<Rightarrow> bool) \<Rightarrow> poll_event \<Rightarrow> worker \<Rightarrow> kernel \<Rightarrow> ((cxx_exn + bool \<times> worker) \<times> kernel) option" where
  "connection_event os cfg accepting ev w k =
     (case map_of (wk_conns w) (ev_fd ev) of
        None \<Rightarrow> Some (Inr (False, w), k)
      | Some state \<Rightarrow>
          if cs_phase state = Reading \<and> ev_readable ev
          then (case process_readable os cfg accepting state (wk_poller w) k of
                  None \<Rightarrow> None
                | Some (Inl e, k1) \<Rightarrow> Some (Inl e, k1)
                | Some (Inr (close, state', p'), k1) \<Rightarrow>
                    Some (Inr (close, w\<lparr>wk_conns := AList.update (ev_fd ev) state' (wk_conns w), wk_poller := p'\<rparr>), k1))
          else if cs_phase state = Writing \<and> ev_writable ev
          then (case process_writable os state (wk_poller w) k of
                  None \<Rightarrow> None
                | Some ((close, state', p'), k1) \<Rightarrow>
                    Some (Inr (close, w\<lparr>wk_conns := AList.update (ev_fd ev) state' (wk_conns w), wk_poller := p'\<rparr>), k1))
          else Some (Inr (False, w), k))"

fun connection_events ::
  "os \<Rightarrow> config \<Rightarrow> (nat \<Rightarrow> bool) \<Rightarrow> int set \<Rightarrow> poll_event list \<Rightarrow> worker \<Rightarrow> kernel
   \<Rightarrow> ((cxx_exn + int list \<times> worker) \<times> kernel) option" where
  "connection_events os cfg accepting skip [] w k = Some (Inr ([], w), k)"
| "connection_events os cfg accepting skip (ev # evs) w k =
     (if ev_fd ev \<in> skip then connection_events os cfg accepting skip evs w k
      else (case connection_event os cfg accepting ev w k of
              None \<Rightarrow> None
            | Some (Inl e, k1) \<Rightarrow> Some (Inl e, k1)
            | Some (Inr (close, w1), k1) \<Rightarrow>
                (case connection_events os cfg accepting skip evs w1 k1 of
                   None \<Rightarrow> None
                 | Some (Inl e, k2) \<Rightarrow> Some (Inl e, k2)
                 | Some (Inr (to_remove, w2), k2) \<Rightarrow>
                     Some (Inr ((if close then [ev_fd ev] else []) @ to_remove, w2), k2))))"

definition timed_out :: "int \<Rightarrow> int \<Rightarrow> (int \<times> conn_state) list \<Rightarrow> int list" where
  "timed_out timeout_seconds now conns =
     (if 0 < timeout_seconds
      then map fst (filter (\<lambda>(fd, state). cs_phase state = Reading \<and> timeout_seconds \<le> now - cs_accepted_at state) conns)
      else [])"

definition remove_conn :: "int \<Rightarrow> worker \<Rightarrow> kernel \<Rightarrow> worker \<times> kernel" where
  "remove_conn fd w k =
     (case map_of (wk_conns w) fd of
        None \<Rightarrow> (w, k)
      | Some state \<Rightarrow>
          (w\<lparr>wk_poller := poller_remove fd (wk_poller w), wk_conns := AList.delete fd (wk_conns w)\<rparr>,
           sys_close fd (close_sendfile state k)))"

fun remove_conns :: "int list \<Rightarrow> worker \<Rightarrow> kernel \<Rightarrow> worker \<times> kernel" where
  "remove_conns [] w k = (w, k)"
| "remove_conns (fd # fds) w k = (case remove_conn fd w k of (w1, k1) \<Rightarrow> remove_conns fds w1 k1)"

text \<open>One round of the loop; the flag says that shutdown was requested.\<close>

definition worker_round ::
  "os \<Rightarrow> config \<Rightarrow> (nat \<Rightarrow> bool) \<Rightarrow> int \<Rightarrow> int \<Rightarrow> worker \<Rightarrow> kernel \<Rightarrow> ((cxx_exn + bool \<times> worker) \<times> kernel) option" where
  "worker_round os cfg accepting wake_fd shutdown_fd w k =
     (let (events, k1) = sys_poll os k
      in if \<exists>ev \<in> set events. ev_fd ev = shutdown_fd \<and> ev_readable ev
         then Some (Inr (True, w), snd (sys_read os shutdown_fd 1 k1))
         else (case accept_events os wake_fd events w k1 of
                 None \<Rightarrow> None
               | Some (w2, k2) \<Rightarrow>
                   let (now, k3) = sys_time os k2
                   in (case connection_events os cfg accepting {wake_fd, shutdown_fd} events w2 k3 of
                         None \<Rightarrow> None
                       | Some (Inl e, k4) \<Rightarrow> Some (Inl e, k4)
                       | Some (Inr (to_remove, w4), k4) \<Rightarrow>
                           let (w5, k5) = remove_conns (to_remove @ timed_out (cf_timeout_seconds cfg) now (wk_conns w4)) w4 k4
                           in Some (Inr (False, w5), k5))))"

fun close_conns :: "(int \<times> conn_state) list \<Rightarrow> kernel \<Rightarrow> kernel" where
  "close_conns [] k = k"
| "close_conns ((fd, state) # conns) k = close_conns conns (sys_close fd (close_sendfile state k))"

partial_function (option) worker_loop ::
  "os \<Rightarrow> config \<Rightarrow> (nat \<Rightarrow> bool) \<Rightarrow> int \<Rightarrow> int \<Rightarrow> worker \<Rightarrow> kernel \<Rightarrow> ((cxx_exn + worker) \<times> kernel) option" where
  "worker_loop os cfg accepting wake_fd shutdown_fd w k =
     (case worker_round os cfg accepting wake_fd shutdown_fd w k of
        None \<Rightarrow> None
      | Some (Inl e, k1) \<Rightarrow> Some (Inl e, k1)
      | Some (Inr (shutdown, w1), k1) \<Rightarrow>
          if shutdown then Some (Inr (w1\<lparr>wk_conns := []\<rparr>), close_conns (wk_conns w1) k1)
          else worker_loop os cfg accepting wake_fd shutdown_fd w1 k1)"

definition run_event_loop_worker ::
  "os \<Rightarrow> config \<Rightarrow> (nat \<Rightarrow> bool) \<Rightarrow> int \<Rightarrow> int \<Rightarrow> (int \<times> string) list \<Rightarrow> kernel \<Rightarrow> ((cxx_exn + worker) \<times> kernel) option" where
  "run_event_loop_worker os cfg accepting wake_fd shutdown_fd queue k =
     worker_loop os cfg accepting wake_fd shutdown_fd
       \<lparr>wk_queue = queue, wk_conns = [],
        wk_poller = poller_add shutdown_fd True False (poller_add wake_fd True False (\<lambda>_. None))\<rparr> k"

end
