(* ===== verification/Event_Loop_Writing.thy ===== *)
theory Event_Loop_Writing
  imports Event_Loop
begin

text \<open>
  Responses of the event loop are sent piecewise, when the socket accepts some bytes: nothing is lost,
  repeated or reordered.
\<close>

section \<open>Sending the file\<close>

text \<open>The part of the file that is still to be sent.\<close>

definition file_part :: "os \<Rightarrow> conn_state \<Rightarrow> kernel \<Rightarrow> string" where
  "file_part os state k =
     take (nat (cs_sendfile_size state)) (drop (nat (cs_sendfile_offset state)) (file_bytes os (cs_sendfile_fd state) k))"

definition moved :: "conn_state \<Rightarrow> conn_state \<Rightarrow> bool" where
  "moved state state' \<longleftrightarrow> (\<exists>off len. 0 \<le> off
     \<and> state' = state\<lparr>cs_sendfile_offset := off, cs_sendfile_size := len\<rparr>)"

text \<open>
  \<open>s\<close> are the bytes sent. A drained file has been sent completely; a blocked one is split between what
  was sent and what is left; a broken connection has its file closed.
\<close>

definition drain_result :: "os \<Rightarrow> conn_state \<Rightarrow> kernel \<Rightarrow> string \<Rightarrow> drain \<Rightarrow> conn_state \<Rightarrow> kernel \<Rightarrow> bool" where
  "drain_result os state k s d state' k' \<longleftrightarrow>
     (case d of
        Drained \<Rightarrow> wire (cs_fd state) k k' [] s \<and> moved state state' \<and> s = file_part os state k
      | Blocked \<Rightarrow> wire (cs_fd state) k k' [] s \<and> moved state state' \<and> s @ file_part os state' k' = file_part os state k
      | Broken \<Rightarrow> (\<exists>k1 state1. wire (cs_fd state) k k1 [] s \<and> k' = sys_close (cs_sendfile_fd state) k1
          \<and> moved state state1 \<and> state' = state1\<lparr>cs_sendfile_fd := -1\<rparr> \<and> prefix s (file_part os state k)) \<and> \<not> reliable os)"

lemma moved_refl [simp]: "0 \<le> cs_sendfile_offset state \<Longrightarrow> moved state state"
  unfolding moved_def by (rule exI [of _ "cs_sendfile_offset state"], rule exI [of _ "cs_sendfile_size state"]) simp

lemma moved_trans: "moved a b \<Longrightarrow> moved b c \<Longrightarrow> moved a c"
  unfolding moved_def by fastforce

lemma moved_simps:
  assumes "moved a b"
  shows "cs_fd b = cs_fd a" "cs_sendfile_fd b = cs_sendfile_fd a" "cs_phase b = cs_phase a"
    "cs_write_buf b = cs_write_buf a" "cs_write_offset b = cs_write_offset a" "cs_parser b = cs_parser a"
    "cs_close_after_write b = cs_close_after_write a" "cs_accepted_at b = cs_accepted_at a"
    "0 \<le> cs_sendfile_offset b"
  using assms by (auto simp: moved_def)

lemma drain_result_step:
  assumes "wire (cs_fd state) k k1 [] s1" "moved state state1" "s1 @ file_part os state1 k1 = file_part os state k"
    "drain_result os state1 k1 s2 d state' k'"
  shows "drain_result os state k (s1 @ s2) d state' k'"
proof -
  have eq: "cs_fd state1 = cs_fd state" "cs_sendfile_fd state1 = cs_sendfile_fd state"
    using moved_simps [OF assms(2)] by simp_all
  show ?thesis
  proof (cases d)
    case Broken
    with assms(4) eq obtain k2 state2 where b: "wire (cs_fd state) k1 k2 [] s2" "k' = sys_close (cs_sendfile_fd state) k2"
      "moved state1 state2" "state' = state2\<lparr>cs_sendfile_fd := -1\<rparr>" "prefix s2 (file_part os state1 k1)"
      by (auto simp: drain_result_def)
    have "prefix (s1 @ s2) (file_part os state k)" using b(5) assms(3) by (metis same_prefix_prefix)
    moreover have "\<not> reliable os" using assms(4) Broken by (simp add: drain_result_def)
    ultimately show ?thesis using wire_trans [OF assms(1) b(1)] moved_trans [OF assms(2) b(3)] b(2,4) Broken
      by (auto simp: drain_result_def)
  qed (use assms(4) eq wire_trans [OF assms(1)] moved_trans [OF assms(2)] assms(3) in
    \<open>fastforce simp: drain_result_def\<close>)+
qed

lemma drain_file_result:
  assumes "drain_file os state k = Some ((d, state'), k')" "files_fixed os" "0 \<le> cs_sendfile_offset state"
  shows "\<exists>s. drain_result os state k s d state' k'"
proof -
  have "files_fixed os \<and> 0 \<le> cs_sendfile_offset state \<longrightarrow>
      (\<exists>s. drain_result os state k s (fst (fst res)) (snd (fst res)) (snd res))"
    if "drain_file os state k = Some res" for res
  proof (rule drain_file.raw_induct [where P = "\<lambda>os state k res. files_fixed os \<and> 0 \<le> cs_sendfile_offset state \<longrightarrow>
      (\<exists>s. drain_result os state k s (fst (fst res)) (snd (fst res)) (snd res))", OF _ that], intro impI)
    fix f os state k res
    assume IH: "\<And>os state k res. f os state k = Some res \<Longrightarrow> files_fixed os \<and> 0 \<le> cs_sendfile_offset state \<longrightarrow>
        (\<exists>s. drain_result os state k s (fst (fst res)) (snd (fst res)) (snd res))"
      and eq: "(if cs_sendfile_size state \<le> 0 then Some ((Drained, state), k)
        else (case sys_sendfile os (cs_fd state) (cs_sendfile_fd state) (cs_sendfile_offset state) (cs_sendfile_size state) k of
                (Wrote n, k1) \<Rightarrow>
                  f os (state\<lparr>cs_sendfile_offset := cs_sendfile_offset state + int n,
                              cs_sendfile_size := cs_sendfile_size state - int n\<rparr>) k1
              | (Write_fail e, k1) \<Rightarrow>
                  if e = EAGAIN then Some ((Blocked, state), k1)
                  else Some ((Broken, state\<lparr>cs_sendfile_fd := -1\<rparr>), sys_close (cs_sendfile_fd state) k1))) = Some res"
      and h: "files_fixed os \<and> 0 \<le> cs_sendfile_offset state"
    let ?F = "file_bytes os (cs_sendfile_fd state) k"
    obtain r k1 where sf: "sys_sendfile os (cs_fd state) (cs_sendfile_fd state) (cs_sendfile_offset state)
        (cs_sendfile_size state) k = (r, k1)" by fastforce
    show "\<exists>s. drain_result os state k s (fst (fst res)) (snd (fst res)) (snd res)"
    proof (cases "cs_sendfile_size state \<le> 0")
      case True
      with eq h show ?thesis by (auto simp: drain_result_def file_part_def)
    next
      case False
      show ?thesis
      proof (cases r)
        case (Write_fail e)
        note w = wire_sendfile_fail [OF sf [unfolded Write_fail]]
        have F: "file_bytes os (cs_sendfile_fd state) k1 = ?F"
          using w h by (intro fixed_file_bytes) (auto simp: wire_def same_fds_def)
        have b: "drain_result os state k [] Blocked state k1"
          using w F h by (simp add: drain_result_def file_part_def)
        have "\<not> reliable os"
        proof
          assume "reliable os"
          then obtain m where "os_sendfile os (k_tick k) (cs_fd state) = Wrote m" unfolding reliable_def by blast
          with sf Write_fail show False by (simp add: sys_sendfile_def Let_def)
        qed
        then have "drain_result os state k [] Broken (state\<lparr>cs_sendfile_fd := -1\<rparr>) (sys_close (cs_sendfile_fd state) k1)"
          using w h by (auto simp: drain_result_def intro!: exI [of _ k1] exI [of _ state])
        with b eq sf False Write_fail show ?thesis by (auto split: if_splits)
      next
        case (Wrote n)
        define state1 where "state1 = state\<lparr>cs_sendfile_offset := cs_sendfile_offset state + int n,
          cs_sendfile_size := cs_sendfile_size state - int n\<rparr>"
        note w = wire_sendfile [OF sf [unfolded Wrote]]
        have F: "file_bytes os (cs_sendfile_fd state) k1 = ?F"
          using w h by (intro fixed_file_bytes) (auto simp: wire_def same_fds_def)
        have "f os state1 k1 = Some res" using eq sf False Wrote by (simp add: state1_def)
        from IH [OF this] obtain s2 where s2: "drain_result os state1 k1 s2 (fst (fst res)) (snd (fst res)) (snd res)"
          using h by (auto simp: state1_def)
        have m: "moved state state1" unfolding moved_def state1_def
          by (rule exI [of _ "cs_sendfile_offset state + int n"], rule exI [of _ "cs_sendfile_size state - int n"])
            (use h in simp)
        have nats: "nat (cs_sendfile_size state - int n) = nat (cs_sendfile_size state) - n"
          "nat (cs_sendfile_offset state + int n) = n + nat (cs_sendfile_offset state)" "n \<le> nat (cs_sendfile_size state)"
          using w h by auto
        have split: "take (nat (cs_sendfile_size state)) X
            = take n X @ take (nat (cs_sendfile_size state) - n) (drop n X)" for X :: string
          using take_add [of n "nat (cs_sendfile_size state) - n" X] nats(3) by simp
        have "take n (drop (nat (cs_sendfile_offset state)) ?F) @ file_part os state1 k1 = file_part os state k"
          using split [of "drop (nat (cs_sendfile_offset state)) ?F"] F nats
          by (simp add: file_part_def state1_def)
        from drain_result_step [OF conjunct1 [OF w] m this s2] show ?thesis by blast
      qed
    qed
  qed
  from this [OF assms(1)] assms(2,3) show ?thesis by simp
qed

section \<open>Writing a response\<close>

text \<open>What a connection still has to send: the rest of the buffer, then the rest of the file.\<close>

definition pending :: "os \<Rightarrow> conn_state \<Rightarrow> kernel \<Rightarrow> string" where
  "pending os state k =
     drop (cs_write_offset state) (cs_write_buf state) @ (if 0 \<le> cs_sendfile_fd state then file_part os state k else [])"

definition write_result ::
  "os \<Rightarrow> conn_state \<Rightarrow> poller \<Rightarrow> kernel \<Rightarrow> bool \<times> conn_state \<times> poller \<Rightarrow> kernel \<Rightarrow> string \<Rightarrow> bool" where
  "write_result os state p k res k' s \<longleftrightarrow> (case res of (close, state', p') \<Rightarrow>
     sent_to (cs_fd state) k' = sent_to (cs_fd state) k @ s \<and> received_from (cs_fd state) k' = received_from (cs_fd state) k
     \<and> (if close then prefix s (pending os state k) \<and> (reliable os \<longrightarrow> s = pending os state k \<and> cs_close_after_write state)
        else if cs_phase state' = Writing
        then s @ pending os state' k' = pending os state k \<and> p' = p \<and> 0 \<le> cs_sendfile_offset state'
        else s = pending os state k \<and> \<not> cs_close_after_write state
             \<and> state' = init_conn (cs_fd state) (cs_client_ip state) (cs_accepted_at state)
             \<and> p' = poller_modify (cs_fd state) True False p))"

lemma reset_parser [simp]: "reset p = init_parser"
  by (simp add: reset_def init_parser_def)

lemma finish_writing_result:
  assumes "finish_writing state p k = (res, k')" "cs_sendfile_fd state = -1" "cs_write_offset state \<ge> length (cs_write_buf state)"
  shows "write_result os state p k res k' []"
  using assms
  by (auto simp: finish_writing_def write_result_def pending_def reset_conn_to_reading_def init_conn_def close_sendfile_def
      split: if_splits)

lemma sys_close_wire [simp]: "sent_to fd (sys_close b k) = sent_to fd k" "received_from fd (sys_close b k) = received_from fd k"
  by (simp_all add: sent_to_def received_from_def)

lemma write_file_part_result:
  assumes "write_file_part os state p k = Some (res, k')" "files_fixed os" "0 \<le> cs_sendfile_offset state"
    "-1 \<le> cs_sendfile_fd state" "cs_write_offset state \<ge> length (cs_write_buf state)" "cs_phase state = Writing"
  shows "\<exists>s. write_result os state p k res k' s"
proof (cases "0 \<le> cs_sendfile_fd state")
  case False
  with assms finish_writing_result [of state p k res k' os] show ?thesis by (auto simp: write_file_part_def)
next
  case True
  with assms(1) obtain d state1 k1 where d: "drain_file os state k = Some ((d, state1), k1)"
    by (auto simp: write_file_part_def split: option.splits)
  obtain s where s: "drain_result os state k s d state1 k1" using drain_file_result [OF d assms(2,3)] by blast
  have pend: "pending os state k = file_part os state k" using True assms(5) by (simp add: pending_def)
  show ?thesis
  proof (cases d)
    case Drained
    then have w: "wire (cs_fd state) k k1 [] s" "moved state state1" "s = file_part os state k"
      using s by (auto simp: drain_result_def)
    note m = moved_simps [OF w(2)]
    obtain close state' p' where res: "res = (close, state', p')" by (cases res)
    have "finish_writing (state1\<lparr>cs_sendfile_fd := -1\<rparr>) p (sys_close (cs_sendfile_fd state1) k1) = (res, k')"
      using assms(1) True d Drained by (simp add: write_file_part_def)
    from finish_writing_result [OF this] have "write_result os (state1\<lparr>cs_sendfile_fd := -1\<rparr>) p
        (sys_close (cs_sendfile_fd state1) k1) res k' []" using assms(5) m by simp
    moreover have "cs_client_ip state1 = cs_client_ip state" using w(2) by (auto simp: moved_def)
    ultimately have "write_result os state p k res k' s"
      using w m pend assms(5) by (auto simp: write_result_def wire_def pending_def res split: if_splits)
    then show ?thesis by blast
  next
    case Blocked
    then have w: "wire (cs_fd state) k k1 [] s" "moved state state1" "s @ file_part os state1 k1 = file_part os state k"
      using s by (simp_all add: drain_result_def)
    moreover have "res = (False, state1, p)" "k' = k1" using assms(1) True d Blocked by (simp_all add: write_file_part_def)
    ultimately have "write_result os state p k res k' s"
      using True assms(5,6) moved_simps [OF w(2)] by (auto simp: write_result_def wire_def pending_def)
    then show ?thesis by blast
  next
    case Broken
    then have nr: "\<not> reliable os" using s by (simp add: drain_result_def)
    obtain k2 where w: "wire (cs_fd state) k k2 [] s" "k1 = sys_close (cs_sendfile_fd state) k2" "prefix s (file_part os state k)"
      using Broken s by (auto simp: drain_result_def)
    have "res = (True, state1, p)" "k' = k1" using assms(1) True d Broken by (simp_all add: write_file_part_def)
    with w nr pend have "write_result os state p k res k' s" by (auto simp: write_result_def wire_def)
    then show ?thesis by blast
  qed
qed

text \<open>
  C9: no byte of a response is lost, repeated or reordered by the event loop. However often a
  connection is taken up again, and however much the socket accepts each time, what has been sent
  plus what is pending never changes; the connection leaves the writing phase exactly when
  everything is sent, and with a client that keeps receiving it is closed only then, and only on
  request. It then starts afresh: bytes of further requests that were already read are dropped, and
  the time of acceptance, which the idle time-out looks at, stays the old one.
\<close>

theorem process_writable_conserves:
  assumes "process_writable os state p k = Some (res, k')" "files_fixed os" "0 \<le> cs_sendfile_offset state"
    "-1 \<le> cs_sendfile_fd state" "cs_phase state = Writing" "cs_write_offset state \<le> length (cs_write_buf state)"
  shows "\<exists>s. write_result os state p k res k' s"
proof (cases "cs_write_offset state < length (cs_write_buf state)")
  case False
  with assms have "write_file_part os state p k = Some (res, k')" by (simp add: process_writable_def)
  from write_file_part_result [OF this assms(2-4) _ assms(5)] False show ?thesis by simp
next
  case True
  let ?data = "drop (cs_write_offset state) (cs_write_buf state)"
  obtain r k1 where wr: "sys_write os (cs_fd state) ?data k = (r, k1)" by fastforce
  have ne: "?data \<noteq> []" using True by simp
  show ?thesis
  proof (cases "\<exists>n. r = Wrote n \<and> n \<noteq> 0")
    case False
    then have nr: "\<not> reliable os"
      using reliable_write [OF _ ne, of os "cs_fd state" k] wr by (cases r) force+
    have w: "wire (cs_fd state) k k1 [] []"
      using wr False wire_write wire_write_fail by (cases r) fastforce+
    obtain close where "res = (close, state, p)" "k' = k1"
      using assms(1) True wr False by (cases r) (auto simp: process_writable_def)
    moreover have "file_part os state k1 = file_part os state k"
      using w fixed_file_bytes [OF assms(2), of k1 k] by (simp add: file_part_def wire_def same_fds_def)
    ultimately have "write_result os state p k res k' []"
      using w nr assms(3,5) by (auto simp: write_result_def wire_def pending_def)
    then show ?thesis by blast
  next
    case more: True
    then obtain n where n: "r = Wrote n" "n \<noteq> 0" by blast
    define state1 where "state1 = state\<lparr>cs_write_offset := cs_write_offset state + n\<rparr>"
    have w: "wire (cs_fd state) k k1 [] (take n ?data)" "n \<le> length ?data" using wire_write [OF wr [unfolded n(1)]] by auto
    have F: "file_part os state1 k1 = file_part os state k"
      using w fixed_file_bytes [OF assms(2), of k1 k] by (simp add: file_part_def wire_def same_fds_def state1_def)
    have pend: "take n ?data @ pending os state1 k1 = pending os state k"
      using F by (simp add: pending_def state1_def add.commute flip: drop_drop append_assoc)
    show ?thesis
    proof (cases "cs_write_offset state1 < length (cs_write_buf state1)")
      case blocked: True
      then have "res = (False, state1, p)" "k' = k1"
        using assms(1) True wr n by (auto simp: process_writable_def state1_def)
      then have "write_result os state p k res k' (take n ?data)"
        using w pend assms(3,5) by (simp add: write_result_def wire_def) (simp add: state1_def)
      then show ?thesis by blast
    next
      case full: False
      then have "write_file_part os state1 p k1 = Some (res, k')"
        using assms(1) True wr n by (auto simp: process_writable_def state1_def)
      from write_file_part_result [OF this assms(2)] full obtain s where
        s: "write_result os state1 p k1 res k' s" using assms(3-5) by (auto simp: state1_def)
      have "cs_fd state1 = cs_fd state" "cs_client_ip state1 = cs_client_ip state"
        "cs_accepted_at state1 = cs_accepted_at state" "cs_close_after_write state1 = cs_close_after_write state"
        by (simp_all add: state1_def)
      then have "write_result os state p k res k' (take n ?data @ s)"
        using s w pend unfolding write_result_def pend [symmetric]
        by (auto simp: wire_def split: if_splits prod.splits)
      then show ?thesis by blast
    qed
  qed
qed

theorem process_writable_conserves_witness:
  "\<exists>k' p'. process_writable idle_os
      (start_writing \<lparr>rp_bytes = ''hello'', rp_close_after = False, rp_body_fd = -1, rp_body_fd_offset = 0, rp_body_fd_size = 0\<rparr>
        (init_conn 0 [] 5)) (\<lambda>_. None) init_kernel = Some ((False, init_conn 0 [] 5, p'), k')
     \<and> sent_to 0 k' = ''hello''"
proof -
  let ?st = "start_writing \<lparr>rp_bytes = ''hello'', rp_close_after = False, rp_body_fd = -1, rp_body_fd_offset = 0, rp_body_fd_size = 0\<rparr>
    (init_conn 0 [] 5)"
  have os: "files_fixed idle_os" "reliable idle_os" by (simp_all add: files_fixed_def reliable_def idle_os_def)
  have "\<exists>r k'. process_writable idle_os ?st (\<lambda>_. None) init_kernel = Some (r, k')"
    by (simp add: process_writable_def start_writing_def init_conn_def sys_write_def idle_os_def write_file_part_def)
  then obtain close st' p' k' where run: "process_writable idle_os ?st (\<lambda>_. None) init_kernel = Some ((close, st', p'), k')"
    by (metis prod.exhaust)
  have "\<not> close" "cs_phase st' = Reading"
    using run by (auto simp: process_writable_def start_writing_def init_conn_def sys_write_def idle_os_def
        write_file_part_def finish_writing_def reset_conn_to_reading_def split: if_splits)
  moreover obtain s where "write_result idle_os ?st (\<lambda>_. None) init_kernel (close, st', p') k' s"
    using process_writable_conserves [OF run os(1)] by (auto simp: start_writing_def init_conn_def)
  ultimately have "st' = init_conn 0 [] 5" "sent_to 0 k' = sent_to 0 init_kernel @ ''hello''"
    by (auto simp: write_result_def pending_def start_writing_def init_conn_def)
  with run \<open>\<not> close\<close> show ?thesis by (auto simp: sent_to_def init_kernel_def)
qed

end
