(* ===== verification/Event_Loop_Invariant.thy ===== *)
theory Event_Loop_Invariant
  imports Event_Loop_Writing
begin

text \<open>
  The invariant of the event loop: who owns which descriptor, what state each connection is in, and
  what the poller watches; and that a worker that stops leaves nothing open.
\<close>

section \<open>What a worker owns\<close>

definition sendfile_fds :: "conn_state \<Rightarrow> int list" where
  "sendfile_fds state = (if 0 \<le> cs_sendfile_fd state then [cs_sendfile_fd state] else [])"

definition conn_fds :: "(int \<times> conn_state) list \<Rightarrow> int list" where
  "conn_fds conns = concat (map (\<lambda>(fd, state). fd # sendfile_fds state) conns)"

definition worker_fds :: "worker \<Rightarrow> int list" where
  "worker_fds w = conn_fds (wk_conns w) @ map fst (wk_queue w)"

text \<open>A connection in its table; \<open>live\<close> until it is to be removed.\<close>

definition conn_ok :: "int \<times> conn_state \<Rightarrow> bool" where
  "conn_ok c \<longleftrightarrow> (case c of (fd, state) \<Rightarrow>
     cs_fd state = fd \<and> -1 \<le> cs_sendfile_fd state
     \<and> (cs_phase state = Reading \<longrightarrow> cs_sendfile_fd state = -1)
     \<and> (cs_phase state = Writing \<longrightarrow> cs_write_offset state \<le> length (cs_write_buf state)))"

definition live :: "conn_state \<Rightarrow> bool" where
  "live state \<longleftrightarrow> (cs_phase state = Reading \<longrightarrow> need_more (cs_parser state))"

definition interest :: "conn_state \<Rightarrow> bool \<times> bool" where
  "interest state = (cs_phase state = Reading, cs_phase state = Writing)"

definition watched :: "int set \<Rightarrow> (int \<times> conn_state) list \<Rightarrow> poller" where
  "watched pipes conns = (\<lambda>fd. if fd \<in> pipes then Some (True, False) else map_option interest (map_of conns fd))"

text \<open>
  The invariant of a worker: since \<open>k0\<close>, the descriptors that were opened and not closed are exactly
  those of its connections, of the files they are sending, and of the queue, each owned once; every
  connection is in a consistent state; and the poller watches each connection for what it waits for.
\<close>

definition worker_ok :: "kernel \<Rightarrow> int set \<Rightarrow> worker \<Rightarrow> kernel \<Rightarrow> bool" where
  "worker_ok k0 pipes w k \<longleftrightarrow> leaves k0 k (worker_fds w) \<and> list_all conn_ok (wk_conns w)
     \<and> list_all (\<lambda>(fd, ip). 0 \<le> fd) (wk_queue w) \<and> wk_poller w = watched pipes (wk_conns w)
     \<and> pipes \<subseteq> set (k_fds k0)"

definition all_live :: "int set \<Rightarrow> worker \<Rightarrow> bool" where
  "all_live gone w \<longleftrightarrow> (\<forall>(fd, state) \<in> set (wk_conns w). fd \<in> gone \<or> live state)"

lemma conn_fds_simps [simp]:
  "conn_fds [] = []" "conn_fds ((fd, state) # cs) = fd # sendfile_fds state @ conn_fds cs"
  "conn_fds (cs @ cs') = conn_fds cs @ conn_fds cs'"
  by (simp_all add: conn_fds_def)

lemma conn_keys: "fd \<in> set (map fst cs) \<Longrightarrow> fd \<in> set (conn_fds cs)"
  by (induction cs) (auto simp: conn_fds_def)

lemma conn_fds_distinct: "distinct (conn_fds cs) \<Longrightarrow> distinct (map fst cs)"
proof (induction cs)
  case (Cons c cs)
  obtain fd state where c: "c = (fd, state)" by fastforce
  with Cons show ?case using conn_keys [of fd cs] by auto
qed simp

lemma delete_idle: "fd \<notin> set (map fst cs) \<Longrightarrow> AList.delete fd cs = cs"
  by (induction cs) auto

lemma conn_split:
  assumes "map_of cs fd = Some state" "distinct (map fst cs)"
  obtains xs ys where "cs = xs @ (fd, state) # ys" "fd \<notin> set (map fst xs)" "fd \<notin> set (map fst ys)"
    "\<And>state'. AList.update fd state' cs = xs @ (fd, state') # ys" "AList.delete fd cs = xs @ ys"
proof -
  obtain xs ys where cs: "cs = xs @ (fd, state) # ys" using map_of_SomeD [OF assms(1)] by (meson split_list)
  with assms(2) have n: "fd \<notin> set (map fst xs)" "fd \<notin> set (map fst ys)" by auto
  have u: "AList.update fd state' (xs @ (fd, state) # ys) = xs @ (fd, state') # ys" for state'
    using n(1) by (induction xs) auto
  have "AList.delete fd cs = xs @ ys"
    using delete_idle [OF n(1)] delete_idle [OF n(2)] by (simp add: cs AList.delete_eq)
  with cs n u show thesis using that by blast
qed

lemma worker_ok_split:
  assumes "worker_ok k0 pipes w k" "map_of (wk_conns w) fd = Some state"
  obtains xs ys where "wk_conns w = xs @ (fd, state) # ys" "fd \<notin> set (map fst xs)" "fd \<notin> set (map fst ys)"
    "\<And>state'. AList.update fd state' (wk_conns w) = xs @ (fd, state') # ys" "AList.delete fd (wk_conns w) = xs @ ys"
    "conn_ok (fd, state)" "fd \<notin> pipes" "0 \<le> fd"
proof -
  have l: "leaves k0 k (worker_fds w)" using assms(1) by (simp add: worker_ok_def)
  then have "distinct (map fst (wk_conns w))" using conn_fds_distinct by (auto simp: leaves_def worker_fds_def)
  from conn_split [OF assms(2) this] obtain xs ys where s: "wk_conns w = xs @ (fd, state) # ys"
    "fd \<notin> set (map fst xs)" "fd \<notin> set (map fst ys)"
    "\<And>state'. AList.update fd state' (wk_conns w) = xs @ (fd, state') # ys" "AList.delete fd (wk_conns w) = xs @ ys"
    by blast
  have mem: "fd \<in> set (worker_fds w)" using s(1) by (simp add: worker_fds_def)
  with l assms(1) have pipes: "fd \<notin> pipes" by (auto simp: leaves_def worker_ok_def)
  have pos: "0 \<le> fd"
  proof -
    have "fd \<in> set (k_fds k)" using l mem by (simp add: leaves_def)
    then show ?thesis using l unfolding leaves_def kernel_ok_def by blast
  qed
  have ok: "conn_ok (fd, state)" using assms(1) s(1) by (simp add: worker_ok_def)
  show thesis by (rule that [OF s ok pipes pos])
qed

text \<open>Replacing one connection, and what it owns.\<close>

lemma worker_ok_update:
  assumes "worker_ok k0 pipes w k" "map_of (wk_conns w) fd = Some state" "conn_ok (fd, state')"
    "\<And>fds. leaves k0 k (fds @ fd # sendfile_fds state) \<Longrightarrow> leaves k0 k' (fds @ fd # sendfile_fds state')"
    "p' = (if interest state' = interest state then wk_poller w else (wk_poller w)(fd \<mapsto> interest state'))"
  shows "worker_ok k0 pipes (w\<lparr>wk_conns := AList.update fd state' (wk_conns w), wk_poller := p'\<rparr>) k'"
proof -
  from worker_ok_split [OF assms(1,2)] obtain xs ys where
    s: "wk_conns w = xs @ (fd, state) # ys" "fd \<notin> set (map fst xs)" "fd \<notin> set (map fst ys)"
    "AList.update fd state' (wk_conns w) = xs @ (fd, state') # ys" "fd \<notin> pipes" by metis
  let ?fds = "conn_fds xs @ conn_fds ys @ map fst (wk_queue w)"
  have "leaves k0 k (worker_fds w)" using assms(1) by (simp add: worker_ok_def)
  then have "leaves k0 k (?fds @ fd # sendfile_fds state)"
    by (subst leaves_mset [of _ "worker_fds w"]) (simp_all add: worker_fds_def s(1))
  then have "leaves k0 k' (?fds @ fd # sendfile_fds state')" by (rule assms(4))
  then have "leaves k0 k' (worker_fds (w\<lparr>wk_conns := xs @ (fd, state') # ys, wk_poller := p'\<rparr>))"
    by (subst leaves_mset [of _ "?fds @ fd # sendfile_fds state'"]) (simp_all add: worker_fds_def)
  moreover have "p' = watched pipes (xs @ (fd, state') # ys)"
  proof -
    have "map_of xs fd = None" using s(2) by (simp add: map_of_eq_None_iff)
    then have "watched pipes (xs @ (fd, state') # ys) = (watched pipes (wk_conns w))(fd \<mapsto> interest state')"
      "watched pipes (wk_conns w) fd = Some (interest state)"
      using s(1,5) by (auto simp: watched_def fun_eq_iff map_add_def split: option.split)
    then show ?thesis using assms(1,5) by (auto simp: worker_ok_def fun_eq_iff)
  qed
  ultimately show ?thesis using assms(1,3) s(1,4) by (simp add: worker_ok_def)
qed

lemma worker_ok_remove:
  assumes "worker_ok k0 pipes w k" "remove_conn fd w k = (w', k')"
  shows "worker_ok k0 pipes w' k' \<and> (wk_conns w' = AList.delete fd (wk_conns w))"
proof (cases "map_of (wk_conns w) fd")
  case None
  then have "AList.delete fd (wk_conns w) = wk_conns w"
    using delete_idle [of fd "wk_conns w"] by (simp add: map_of_eq_None_iff)
  with None assms show ?thesis by (auto simp: remove_conn_def)
next
  case (Some state)
  from worker_ok_split [OF assms(1) Some] obtain xs ys where
    s: "wk_conns w = xs @ (fd, state) # ys" "fd \<notin> set (map fst xs)" "fd \<notin> set (map fst ys)"
    "AList.delete fd (wk_conns w) = xs @ ys" "fd \<notin> pipes" by metis
  have w': "w' = w\<lparr>wk_poller := poller_remove fd (wk_poller w), wk_conns := xs @ ys\<rparr>"
    "k' = sys_close fd (close_sendfile state k)"
    using assms(2) Some s(4) by (simp_all add: remove_conn_def)
  let ?fds = "conn_fds xs @ conn_fds ys @ map fst (wk_queue w)"
  have "leaves k0 k (worker_fds w)" using assms(1) by (simp add: worker_ok_def)
  then have l: "leaves k0 k (sendfile_fds state @ fd # ?fds)"
    by (subst leaves_mset [of _ "worker_fds w"]) (simp_all add: worker_fds_def s(1))
  have "leaves k0 (close_sendfile state k) (fd # ?fds)"
    using l sys_close_leaves [OF l, of "cs_sendfile_fd state"]
    by (auto simp: close_sendfile_def sendfile_fds_def split: if_splits)
  from sys_close_leaves [OF this, of fd] have "leaves k0 k' ?fds" by (simp add: w')
  then have "leaves k0 k' (worker_fds w')" by (simp add: worker_fds_def w')
  moreover have "wk_poller w' = watched pipes (xs @ ys)"
  proof -
    have "map_of xs fd = None" "map_of ys fd = None" using s(2,3) by (simp_all add: map_of_eq_None_iff)
    moreover have "wk_poller w = watched pipes (wk_conns w)" using assms(1) by (simp add: worker_ok_def)
    ultimately show ?thesis
      using s(1,5) by (auto simp: w' watched_def poller_remove_def fun_eq_iff map_add_def split: option.split)
  qed
  ultimately show ?thesis using assms(1) s(1,4) by (simp add: worker_ok_def w')
qed

section \<open>One connection\<close>

text \<open>
  \<open>conn_step\<close>: an event takes a connection from \<open>state\<close> to \<open>state'\<close>; whatever else is open, what the
  connection owns is kept track of, and the poller's interest follows the phase.
\<close>

definition conn_step :: "int \<Rightarrow> conn_state \<Rightarrow> poller \<Rightarrow> kernel \<Rightarrow> bool \<Rightarrow> conn_state \<Rightarrow> poller \<Rightarrow> kernel \<Rightarrow> bool" where
  "conn_step fd state p k close state' p' k' \<longleftrightarrow>
     conn_ok (fd, state')
     \<and> (\<forall>k0 fds. leaves k0 k (fds @ fd # sendfile_fds state) \<longrightarrow> leaves k0 k' (fds @ fd # sendfile_fds state'))
     \<and> p' = (if interest state' = interest state then p else p(fd \<mapsto> interest state'))
     \<and> (live state \<longrightarrow> \<not> close \<longrightarrow> live state')"

lemma same_fds_conn: "same_fds k k' \<Longrightarrow> leaves k0 k fds \<Longrightarrow> leaves k0 k' fds"
  using same_fds_leaves by blast

lemma write_all_same_fds: "same_fds k (write_all os fd data k)"
  using write_all_wire [of data fd k os] by (auto simp: wire_def)

lemma init_parser_live [simp]: "need_more init_parser"
  by (simp add: need_more_def has_request_def has_error_def init_parser_def)

lemma process_readable_step:
  assumes "process_readable os cfg acc state p k = Some (Inr (close, state', p'), k')"
    "waits os" "kernel_ok k" "conn_ok (fd, state)" "cs_phase state = Reading" "p fd = Some (interest state)"
  shows "conn_step fd state p k close state' p' k'"
proof -
  have st: "cs_fd state = fd" "cs_sendfile_fd state = -1" using assms(4,5) by (simp_all add: conn_ok_def)
  obtain r k1 where rd: "sys_read os fd 8192 k = (r, k1)" by fastforce
  have s1: "same_fds k k1" using same_fds_calls(2) [OF rd] by blast
  define parser where "parser = feed (case r of Got s \<Rightarrow> s | Read_fail e \<Rightarrow> []) (cs_parser state)"
  consider (idle) "state' = state" "p' = p" "k' = k1"
    | (request) req parser' pkg where "r \<noteq> Got []" "get_request parser = (req, parser')"
        "process_request os cfg req (if cs_client_ip state = [] then None else Some (cs_client_ip state)) (acc (k_tick k1)) k1
          = Some (Inr pkg, k')"
        "state' = start_writing pkg (state\<lparr>cs_parser := parser'\<rparr>)" "p' = poller_modify fd False True p"
    | (bad) "close" "state' = state\<lparr>cs_parser := parser\<rparr>" "p' = p" "k' = write_all os fd (error_response parser) k1"
    | (more) "need_more parser" "state' = state\<lparr>cs_parser := parser\<rparr>" "p' = p" "k' = k1"
  proof (cases r)
    case (Read_fail e)
    with assms(1) rd st idle show thesis by (simp add: process_readable_def)
  next
    case (Got s)
    obtain req parser' where g: "get_request parser = (req, parser')" by fastforce
    show thesis
    proof (cases "s = []")
      case True
      with Got assms(1) rd st idle show thesis by (simp add: process_readable_def)
    next
      case False
      with Got assms(1) rd st g request bad more show thesis
        by (auto simp: process_readable_def parser_def [symmetric] need_more_def parser_def Let_def
            split: if_splits option.splits sum.splits)
    qed
  qed
  then show ?thesis
  proof cases
    case idle
    with assms(4) s1 same_fds_conn show ?thesis by (auto simp: conn_step_def)
  next
    case request
    note l = process_request_leaves [OF assms(2) _ request(3)]
    have k1: "kernel_ok k1" using s1 assms(3) by (simp add: same_fds_def kernel_ok_def)
    obtain resp where pkg: "pkg = make_package req resp" using process_request_cases [OF request(3)] by blast
    have own: "sendfile_fds state' = owned_pkg pkg" using request(4) by (simp add: sendfile_fds_def start_writing_def owned_pkg_def)
    have "leaves k0 k' (fds @ fd # sendfile_fds state')" if "leaves k0 k (fds @ fd # sendfile_fds state)" for k0 fds
      using leaves_trans [OF same_fds_conn [OF s1 that] l [OF k1]] st(2) own by (simp add: sendfile_fds_def)
    moreover have "conn_ok (fd, state')"
      using request(4) st pkg by (auto simp: conn_ok_def start_writing_def make_package_def Let_def)
    moreover have "interest state = (True, False)" "interest state' = (False, True)"
      using request(4) assms(5) by (simp_all add: interest_def start_writing_def)
    ultimately show ?thesis
      using request(4,5) assms(6) by (auto simp: conn_step_def poller_modify_def live_def start_writing_def)
  next
    case bad
    have "same_fds k k'" using same_fds_trans [OF s1 write_all_same_fds] bad by simp
    with bad assms(4,5) same_fds_conn show ?thesis
      by (auto simp: conn_step_def conn_ok_def interest_def sendfile_fds_def)
  next
    case more
    with assms(4,5) s1 same_fds_conn show ?thesis
      by (auto simp: conn_step_def conn_ok_def interest_def sendfile_fds_def live_def)
  qed
qed

text \<open>What \<open>drain_file\<close> does to the connection and to the descriptors.\<close>

definition drain_frame :: "conn_state \<Rightarrow> kernel \<Rightarrow> drain \<Rightarrow> conn_state \<Rightarrow> kernel \<Rightarrow> bool" where
  "drain_frame state k d state' k' \<longleftrightarrow>
     (\<exists>off len. state' = state\<lparr>cs_sendfile_offset := off, cs_sendfile_size := len,
        cs_sendfile_fd := (if d = Broken then -1 else cs_sendfile_fd state)\<rparr>)
     \<and> same_fds (if d = Broken then sys_close (cs_sendfile_fd state) k else k) k'"

lemma drain_file_frame:
  assumes "drain_file os state k = Some ((d, state'), k')"
  shows "drain_frame state k d state' k'"
proof -
  have "drain_frame state k (fst (fst res)) (snd (fst res)) (snd res)" if "drain_file os state k = Some res" for res
  proof (rule drain_file.raw_induct [where P = "\<lambda>os state k res.
      drain_frame state k (fst (fst res)) (snd (fst res)) (snd res)", OF _ that])
    fix f os state k res
    assume IH: "\<And>os state k res. f os state k = Some res \<Longrightarrow> drain_frame state k (fst (fst res)) (snd (fst res)) (snd res)"
      and eq: "(if cs_sendfile_size state \<le> 0 then Some ((Drained, state), k)
        else (case sys_sendfile os (cs_fd state) (cs_sendfile_fd state) (cs_sendfile_offset state) (cs_sendfile_size state) k of
                (Wrote n, k1) \<Rightarrow>
                  f os (state\<lparr>cs_sendfile_offset := cs_sendfile_offset state + int n,
                              cs_sendfile_size := cs_sendfile_size state - int n\<rparr>) k1
              | (Write_fail e, k1) \<Rightarrow>
                  if e = EAGAIN then Some ((Blocked, state), k1)
                  else Some ((Broken, state\<lparr>cs_sendfile_fd := -1\<rparr>), sys_close (cs_sendfile_fd state) k1))) = Some res"
    obtain r k1 where sf: "sys_sendfile os (cs_fd state) (cs_sendfile_fd state) (cs_sendfile_offset state)
        (cs_sendfile_size state) k = (r, k1)" by fastforce
    have s: "same_fds k k1"
      using wire_sendfile [of os "cs_fd state"] wire_sendfile_fail [of os "cs_fd state"] sf
      by (cases r) (auto simp: wire_def)
    have stay: "drain_frame state k d state k0" if "same_fds k k0" "d \<noteq> Broken" for d k0
      unfolding drain_frame_def using that
      by (intro conjI exI [of _ "cs_sendfile_offset state"] exI [of _ "cs_sendfile_size state"]) simp_all
    have broken: "drain_frame state k Broken (state\<lparr>cs_sendfile_fd := -1\<rparr>) (sys_close (cs_sendfile_fd state) k1)"
      unfolding drain_frame_def using same_fds_close [OF s]
      by (intro conjI exI [of _ "cs_sendfile_offset state"] exI [of _ "cs_sendfile_size state"]) simp_all
    show "drain_frame state k (fst (fst res)) (snd (fst res)) (snd res)"
    proof (cases "cs_sendfile_size state \<le> 0")
      case True
      with eq stay [of k Drained] show ?thesis by (auto simp: same_fds_def)
    next
      case False
      show ?thesis
      proof (cases r)
        case (Write_fail e)
        with eq sf False stay [OF s, of Blocked] broken show ?thesis by (auto split: if_splits)
      next
        case (Wrote n)
        with eq sf False have "f os (state\<lparr>cs_sendfile_offset := cs_sendfile_offset state + int n,
            cs_sendfile_size := cs_sendfile_size state - int n\<rparr>) k1 = Some res" by simp
        from IH [OF this] s show ?thesis
          using same_fds_trans [OF s] same_fds_trans [OF same_fds_close [OF s]]
          by (auto simp: drain_frame_def split: if_splits)
      qed
    qed
  qed
  from this [OF assms] show ?thesis by simp
qed

lemma conn_step_same:
  assumes "same_fds k k'" "conn_ok (fd, state')" "sendfile_fds state' = sendfile_fds state" "interest state' = interest state"
    "live state \<longrightarrow> \<not> close \<longrightarrow> live state'"
  shows "conn_step fd state p k close state' p k'"
  using assms same_fds_conn by (auto simp: conn_step_def)

lemma finish_writing_step:
  assumes "finish_writing state p k = ((close, state', p'), k')" "conn_ok (fd, state)" "cs_phase state = Writing"
    "cs_sendfile_fd state = -1" "p fd = Some (interest state)"
  shows "conn_step fd state p k close state' p' k'"
proof (cases "cs_close_after_write state")
  case True
  with assms(1,2) show ?thesis by (auto simp: finish_writing_def conn_step_def)
next
  case False
  with assms(1,4) have e: "\<not> close" "k' = k" "p' = poller_modify (cs_fd state) True False p"
    "state' = init_conn (cs_fd state) (cs_client_ip state) (cs_accepted_at state)"
    by (auto simp: finish_writing_def reset_conn_to_reading_def init_conn_def close_sendfile_def)
  moreover have "cs_fd state = fd" using assms(2) by (simp add: conn_ok_def)
  ultimately show ?thesis
    using assms(3-5)
    by (auto simp: conn_step_def conn_ok_def init_conn_def sendfile_fds_def interest_def poller_modify_def live_def)
qed

lemma conn_step_trans:
  assumes "conn_step fd state p k c state1 p k1" "interest state1 = interest state" "live state1"
    "conn_step fd state1 p k1 close state' p' k'"
  shows "conn_step fd state p k close state' p' k'"
  using assms by (auto simp: conn_step_def)

lemma drop_last_owned:
  assumes "leaves k0 k (fds @ [fd, b])" shows "leaves k0 (sys_close b k) (fds @ [fd])"
proof -
  have "b \<notin> set (fds @ [fd])" using assms by (auto simp: leaves_def)
  then have "remove1 b (fds @ [fd, b]) = fds @ [fd]" by (simp add: remove1_append)
  with sys_close_leaves [OF assms, of b] show ?thesis by simp
qed

lemma write_file_part_step:
  assumes "write_file_part os state p k = Some ((close, state', p'), k')" "conn_ok (fd, state)" "cs_phase state = Writing"
    "p fd = Some (interest state)"
  shows "conn_step fd state p k close state' p' k'"
proof (cases "0 \<le> cs_sendfile_fd state")
  case False
  with assms finish_writing_step [of state p k close state' p' k' fd] show ?thesis
    by (auto simp: write_file_part_def conn_ok_def)
next
  case True
  with assms(1) obtain d state1 k1 where d: "drain_file os state k = Some ((d, state1), k1)"
    by (auto simp: write_file_part_def split: option.splits)
  obtain off len where s1: "state1 = state\<lparr>cs_sendfile_offset := off, cs_sendfile_size := len,
      cs_sendfile_fd := (if d = Broken then -1 else cs_sendfile_fd state)\<rparr>"
    and same: "same_fds (if d = Broken then sys_close (cs_sendfile_fd state) k else k) k1"
    using drain_file_frame [OF d] unfolding drain_frame_def by blast
  have own: "sendfile_fds state = [cs_sendfile_fd state]" using True by (simp add: sendfile_fds_def)
  have closed: "leaves k0 k2 (fds @ [fd])"
    if "leaves k0 k (fds @ fd # sendfile_fds state)" "same_fds (sys_close (cs_sendfile_fd state) k) k2" for k0 k2 fds
    using drop_last_owned [of k0 k fds fd "cs_sendfile_fd state"] that same_fds_conn by (simp add: own)
  show ?thesis
  proof (cases d)
    case Blocked
    then have e: "\<not> close" "state' = state1" "p' = p" "k' = k1" using assms(1) True d by (simp_all add: write_file_part_def)
    show ?thesis unfolding e
      by (rule conn_step_same) (use same Blocked s1 assms(2,3) in
        \<open>auto simp: conn_ok_def sendfile_fds_def interest_def live_def\<close>)
  next
    case Broken
    then have e: "close" "state' = state1" "p' = p" "k' = k1" using assms(1) True d by (simp_all add: write_file_part_def)
    have "sendfile_fds state1 = []" using Broken s1 by (simp add: sendfile_fds_def)
    then show ?thesis unfolding conn_step_def e
      using same Broken s1 assms(2,3) closed e(1) by (auto simp: conn_ok_def interest_def)
  next
    case Drained
    define state2 where "state2 = state1\<lparr>cs_sendfile_fd := -1\<rparr>"
    define k2 where "k2 = sys_close (cs_sendfile_fd state1) k1"
    have fin: "finish_writing state2 p k2 = ((close, state', p'), k')"
      using assms(1) True d Drained by (simp add: write_file_part_def state2_def k2_def)
    have s2: "cs_sendfile_fd state1 = cs_sendfile_fd state" "cs_phase state2 = Writing" "conn_ok (fd, state2)"
      "cs_sendfile_fd state2 = -1" "interest state2 = interest state" "live state2"
      using Drained s1 assms(2,3) by (auto simp: state2_def conn_ok_def interest_def live_def)
    have "same_fds (sys_close (cs_sendfile_fd state) k) k2"
      using same_fds_close same Drained s2(1) by (simp add: k2_def)
    then have "conn_step fd state p k False state2 p k2"
      using closed s2 by (auto simp: conn_step_def sendfile_fds_def)
    from conn_step_trans [OF this s2(5,6) finish_writing_step [OF fin s2(3,2,4)]] show ?thesis
      using assms(4) s2(5) by simp
  qed
qed

lemma process_writable_step:
  assumes "process_writable os state p k = Some ((close, state', p'), k')" "conn_ok (fd, state)" "cs_phase state = Writing"
    "p fd = Some (interest state)"
  shows "conn_step fd state p k close state' p' k'"
proof (cases "cs_write_offset state < length (cs_write_buf state)")
  case False
  with assms write_file_part_step show ?thesis by (auto simp: process_writable_def)
next
  case True
  let ?data = "drop (cs_write_offset state) (cs_write_buf state)"
  obtain r k1 where wr: "sys_write os (cs_fd state) ?data k = (r, k1)" by fastforce
  have s1: "same_fds k k1" using same_fds_calls(1) [OF wr] by blast
  show ?thesis
  proof (cases "\<exists>n. r = Wrote n \<and> n \<noteq> 0")
    case False
    then have "state' = state" "p' = p" "k' = k1"
      using assms(1) True wr by (cases r; auto simp: process_writable_def)+
    then show ?thesis using conn_step_same [OF s1 assms(2)] by simp
  next
    case more: True
    then obtain n where n: "r = Wrote n" "n \<noteq> 0" by blast
    define state1 where "state1 = state\<lparr>cs_write_offset := cs_write_offset state + n\<rparr>"
    have "n \<le> length ?data" using wire_write [OF wr [unfolded n(1)]] by simp
    then have ok: "conn_ok (fd, state1)" "cs_phase state1 = Writing" "sendfile_fds state1 = sendfile_fds state"
      "interest state1 = interest state" "live state1"
      using assms(2,3) True by (auto simp: state1_def conn_ok_def sendfile_fds_def interest_def live_def)
    then have st: "conn_step fd state p k c state1 p k1" for c by (intro conn_step_same [OF s1]) simp_all
    show ?thesis
    proof (cases "cs_write_offset state1 < length (cs_write_buf state1)")
      case blocked: True
      then have "state' = state1" "p' = p" "k' = k1"
        using assms(1) True wr n by (auto simp: process_writable_def state1_def)
      with st show ?thesis by simp
    next
      case full: False
      then have "write_file_part os state1 p k1 = Some ((close, state', p'), k')"
        using assms(1) True wr n by (auto simp: process_writable_def state1_def)
      from conn_step_trans [OF st ok(4,5) write_file_part_step [OF this ok(1,2)]] show ?thesis
        using assms(4) ok(4) by simp
    qed
  qed
qed

section \<open>A round\<close>

lemma worker_ok_kernel: "worker_ok k0 pipes w k \<Longrightarrow> kernel_ok k"
  by (auto simp: worker_ok_def leaves_def)

lemma connection_event_ok:
  assumes "connection_event os cfg acc ev w k = Some (Inr (close, w'), k')" "waits os" "worker_ok k0 pipes w k"
    "all_live gone w"
  shows "worker_ok k0 pipes w' k' \<and> all_live (gone \<union> (if close then {ev_fd ev} else {})) w'"
proof (cases "map_of (wk_conns w) (ev_fd ev)")
  case None
  with assms show ?thesis by (auto simp: connection_event_def)
next
  case (Some state)
  define fd where "fd = ev_fd ev"
  note split = worker_ok_split [OF assms(3) Some [folded fd_def]]
  obtain xs ys where s: "wk_conns w = xs @ (fd, state) # ys" "fd \<notin> set (map fst xs)"
    "\<And>state'. AList.update fd state' (wk_conns w) = xs @ (fd, state') # ys" "conn_ok (fd, state)" "fd \<notin> pipes"
    using split by metis
  have watch: "wk_poller w fd = Some (interest state)"
    using assms(3) s(5) Some by (simp add: worker_ok_def watched_def fd_def)
  have step: "worker_ok k0 pipes w' k' \<and> all_live (gone \<union> (if close then {ev_fd ev} else {})) w'"
    if "conn_step fd state (wk_poller w) k close state' p' k'"
      "w' = w\<lparr>wk_conns := AList.update fd state' (wk_conns w), wk_poller := p'\<rparr>" for state' p'
  proof
    show "worker_ok k0 pipes w' k'"
      unfolding that(2) using worker_ok_update [OF assms(3) Some [folded fd_def], of state' k' p'] that(1)
      by (simp add: conn_step_def)
    show "all_live (gone \<union> (if close then {ev_fd ev} else {})) w'"
      using assms(4) that(1) s(1,3) unfolding that(2)
      by (auto simp: all_live_def conn_step_def fd_def)
  qed
  show ?thesis
  proof (cases "cs_phase state = Reading \<and> ev_readable ev")
    case True
    with assms(1) Some obtain state' p' where
      "process_readable os cfg acc state (wk_poller w) k = Some (Inr (close, state', p'), k')"
      "w' = w\<lparr>wk_conns := AList.update fd state' (wk_conns w), wk_poller := p'\<rparr>"
      by (auto simp: connection_event_def fd_def split: option.splits sum.splits)
    with step process_readable_step [OF this(1) assms(2) worker_ok_kernel [OF assms(3)] s(4)] True watch show ?thesis by blast
  next
    case notread: False
    show ?thesis
    proof (cases "cs_phase state = Writing \<and> ev_writable ev")
      case True
      with assms(1) Some notread obtain state' p' where
        "process_writable os state (wk_poller w) k = Some ((close, state', p'), k')"
        "w' = w\<lparr>wk_conns := AList.update fd state' (wk_conns w), wk_poller := p'\<rparr>"
        by (auto simp: connection_event_def fd_def split: option.splits)
      with step process_writable_step [OF this(1) s(4)] True watch show ?thesis by blast
    next
      case False
      with assms Some notread show ?thesis by (auto simp: connection_event_def)
    qed
  qed
qed

lemma connection_events_ok:
  "connection_events os cfg acc skip evs w k = Some (Inr (to_remove, w'), k') \<Longrightarrow> waits os \<Longrightarrow> worker_ok k0 pipes w k
   \<Longrightarrow> all_live gone w \<Longrightarrow> worker_ok k0 pipes w' k' \<and> all_live (gone \<union> set to_remove) w'"
proof (induction evs arbitrary: w k gone to_remove)
  case (Cons ev evs)
  show ?case
  proof (cases "ev_fd ev \<in> skip")
    case True
    with Cons show ?thesis by simp
  next
    case False
    with Cons.prems(1) obtain close w1 k1 rest where
      ev: "connection_event os cfg acc ev w k = Some (Inr (close, w1), k1)" and
      rest: "connection_events os cfg acc skip evs w1 k1 = Some (Inr (rest, w'), k')" "to_remove = (if close then [ev_fd ev] else []) @ rest"
      by (auto split: option.splits sum.splits)
    note ok = connection_event_ok [OF ev Cons.prems(2-4)]
    have "set to_remove = (if close then {ev_fd ev} else {}) \<union> set rest" using rest(2) by simp
    with Cons.IH [OF rest(1) Cons.prems(2) conjunct1 [OF ok] conjunct2 [OF ok]] show ?thesis
      by (simp only: Un_assoc)
  qed
qed simp

lemma worker_fds_pop: "mset (worker_fds (w\<lparr>wk_queue := rest, wk_conns := wk_conns w @ [(fd, init_conn fd ip now)], wk_poller := p\<rparr>))
    = mset (fd # conn_fds (wk_conns w) @ map fst rest)"
  by (simp add: worker_fds_def sendfile_fds_def init_conn_def)

lemma update_new: "fd \<notin> set (map fst cs) \<Longrightarrow> AList.update fd v cs = cs @ [(fd, v)]"
  by (induction cs) auto

lemma try_accept_ok:
  assumes "try_accept_from_queue os w k = (w', k')" "worker_ok k0 pipes w k" "all_live gone w"
  shows "worker_ok k0 pipes w' k' \<and> all_live gone w'"
proof (cases "wk_queue w")
  case Nil
  with assms show ?thesis by (simp add: try_accept_from_queue_def)
next
  case (Cons c rest)
  obtain fd ip where c: "c = (fd, ip)" by fastforce
  have fd: "0 \<le> fd" using assms(2) Cons c by (simp add: worker_ok_def)
  have l: "leaves k0 k (worker_fds w)" using assms(2) by (simp add: worker_ok_def)
  then have new: "fd \<notin> set (map fst (wk_conns w))" "fd \<notin> pipes"
    using Cons c conn_keys [of fd "wk_conns w"] assms(2) by (auto simp: leaves_def worker_fds_def worker_ok_def)
  let ?c = "init_conn fd ip (os_time os (k_tick k))"
  have w': "w' = w\<lparr>wk_queue := rest, wk_conns := wk_conns w @ [(fd, ?c)],
      wk_poller := poller_add fd True False (wk_poller w)\<rparr>" "k' = tick k"
    using assms(1) Cons c fd update_new [OF new(1)] by (auto simp: try_accept_from_queue_def sys_time_def)
  have "leaves k0 k (fd # conn_fds (wk_conns w) @ map fst rest)"
    using l by (subst leaves_mset [of _ "worker_fds w"]) (simp_all add: worker_fds_def Cons c)
  then have "leaves k0 k' (worker_fds w')"
    unfolding w' by (subst leaves_mset [OF worker_fds_pop]) simp
  moreover have "wk_poller w' = watched pipes (wk_conns w')"
  proof -
    have none: "map_of (wk_conns w) fd = None" using new(1) by (simp add: map_of_eq_None_iff)
    have "wk_poller w = watched pipes (wk_conns w)" using assms(2) by (simp add: worker_ok_def)
    with none new(2) show ?thesis
      by (auto simp: w' watched_def poller_add_def fun_eq_iff map_add_def interest_def init_conn_def split: option.split)
  qed
  moreover have "conn_ok (fd, ?c)" "live ?c"
    by (simp_all add: conn_ok_def init_conn_def live_def)
  ultimately show ?thesis
    using assms(2,3) Cons by (auto simp: worker_ok_def all_live_def w')
qed

lemma try_accepts_ok:
  "((\<lambda>(w, k). try_accept_from_queue os w k) ^^ n) (w, k) = (w', k') \<Longrightarrow> worker_ok k0 pipes w k \<Longrightarrow> all_live gone w
   \<Longrightarrow> worker_ok k0 pipes w' k' \<and> all_live gone w'"
proof (induction n arbitrary: w' k')
  case (Suc n)
  obtain w1 k1 where "((\<lambda>(w, k). try_accept_from_queue os w k) ^^ n) (w, k) = (w1, k1)" by fastforce
  with Suc try_accept_ok [of os w1 k1 w' k'] show ?case by auto
qed simp

lemma worker_ok_same_fds: "same_fds k k' \<Longrightarrow> worker_ok k0 pipes w k \<Longrightarrow> worker_ok k0 pipes w k'"
  using same_fds_leaves by (auto simp: worker_ok_def)

lemma drain_wake_pipe_ok:
  assumes "drain_wake_pipe os fd w k = Some (w', k')" "worker_ok k0 pipes w k" "all_live gone w"
  shows "worker_ok k0 pipes w' k' \<and> all_live gone w'"
proof -
  have "worker_ok k0 pipes w k \<and> all_live gone w \<longrightarrow> worker_ok k0 pipes (fst res) (snd res) \<and> all_live gone (fst res)"
    if "drain_wake_pipe os fd w k = Some res" for res
  proof (rule drain_wake_pipe.raw_induct [where P = "\<lambda>os fd w k res. worker_ok k0 pipes w k \<and> all_live gone w \<longrightarrow>
      worker_ok k0 pipes (fst res) (snd res) \<and> all_live gone (fst res)", OF _ that], rule impI)
    fix f os fd w k res
    assume IH: "\<And>os fd w k res. f os fd w k = Some res \<Longrightarrow> worker_ok k0 pipes w k \<and> all_live gone w \<longrightarrow>
        worker_ok k0 pipes (fst res) (snd res) \<and> all_live gone (fst res)"
      and eq: "(case sys_read os fd 64 k of
          (Got s, k1) \<Rightarrow>
            if s = [] then Some (w, k1)
            else (case ((\<lambda>(w, k). try_accept_from_queue os w k) ^^ length s) (w, k1) of (w2, k2) \<Rightarrow> f os fd w2 k2)
        | (Read_fail e, k1) \<Rightarrow> Some (w, k1)) = Some res"
      and h: "worker_ok k0 pipes w k \<and> all_live gone w"
    obtain r k1 where rd: "sys_read os fd 64 k = (r, k1)" by fastforce
    have s: "same_fds k k1" using same_fds_calls(2) [OF rd] by blast
    note ok1 = worker_ok_same_fds [OF s conjunct1 [OF h]]
    show "worker_ok k0 pipes (fst res) (snd res) \<and> all_live gone (fst res)"
    proof (cases "\<exists>s. r = Got s \<and> s \<noteq> []")
      case True
      then obtain s where r: "r = Got s" "s \<noteq> []" by blast
      obtain w2 k2 where acc: "((\<lambda>(w, k). try_accept_from_queue os w k) ^^ length s) (w, k1) = (w2, k2)" by fastforce
      with eq rd r have "f os fd w2 k2 = Some res" by simp
      from IH [OF this] try_accepts_ok [OF acc ok1] h show ?thesis by blast
    next
      case False
      then have "res = (w, k1)" using eq rd by (cases r) auto
      with ok1 h show ?thesis by simp
    qed
  qed
  from this [OF assms(1)] assms(2,3) show ?thesis by simp
qed

lemma accept_events_ok:
  "accept_events os fd evs w k = Some (w', k') \<Longrightarrow> worker_ok k0 pipes w k \<Longrightarrow> all_live gone w
   \<Longrightarrow> worker_ok k0 pipes w' k' \<and> all_live gone w'"
proof (induction os fd evs w k rule: accept_events.induct)
  case (2 os fd ev evs w k)
  show ?case
  proof (cases "ev_fd ev = fd \<and> ev_readable ev")
    case True
    with 2(3) obtain w1 k1 where d: "drain_wake_pipe os fd w k = Some (w1, k1)" "accept_events os fd evs w1 k1 = Some (w', k')"
      by (auto split: option.splits)
    from 2(1) [OF True d(1) _ d(2)] drain_wake_pipe_ok [OF d(1) 2(4,5)] show ?thesis by simp
  next
    case False
    with 2 show ?thesis by auto
  qed
qed simp

lemma remove_conns_ok:
  "remove_conns fds w k = (w', k') \<Longrightarrow> worker_ok k0 pipes w k \<Longrightarrow>
   worker_ok k0 pipes w' k' \<and> set (wk_conns w') = {c \<in> set (wk_conns w). fst c \<notin> set fds}"
proof (induction fds w k arbitrary: w' k' rule: remove_conns.induct)
  case (2 fd fds w k)
  obtain w1 k1 where r: "remove_conn fd w k = (w1, k1)" by fastforce
  note ok = worker_ok_remove [OF 2(3) r]
  from 2(1) [OF r [symmetric] _ conjunct1 [OF ok]] 2(2) r ok show ?case by (auto simp: AList.delete_eq)
qed auto

lemma worker_round_ok:
  assumes "worker_round os cfg acc wake_fd shutdown_fd w k = Some (Inr (shutdown, w'), k')" "waits os"
    "worker_ok k0 {wake_fd, shutdown_fd} w k" "all_live {} w"
  shows "worker_ok k0 {wake_fd, shutdown_fd} w' k' \<and> all_live {} w'
    \<and> (\<not> shutdown \<longrightarrow> 0 < cf_timeout_seconds cfg \<longrightarrow> (\<exists>t. \<forall>(fd, state) \<in> set (wk_conns w').
        cs_phase state = Reading \<longrightarrow> os_time os t - cs_accepted_at state < cf_timeout_seconds cfg))"
proof -
  obtain events k1 where poll: "sys_poll os k = (events, k1)" by fastforce
  then have ok1: "worker_ok k0 {wake_fd, shutdown_fd} w k1"
    using worker_ok_same_fds [of k k1] assms(3) by (auto simp: sys_poll_def same_fds_def)
  show ?thesis
  proof (cases "\<exists>ev \<in> set events. ev_fd ev = shutdown_fd \<and> ev_readable ev")
    case True
    obtain r k2 where rd: "sys_read os shutdown_fd 1 k1 = (r, k2)" by fastforce
    with True assms(1) poll have "shutdown" "w' = w" "k' = k2" by (simp_all add: worker_round_def)
    with worker_ok_same_fds [of k1 k2] same_fds_calls(2) [OF rd] ok1 assms(4) show ?thesis by simp
  next
    case False
    with assms(1) poll obtain w2 k2 where acc: "accept_events os wake_fd events w k1 = Some (w2, k2)"
      by (auto simp: worker_round_def split: option.splits)
    note ok2 = accept_events_ok [OF acc ok1 assms(4)]
    then have ok3: "worker_ok k0 {wake_fd, shutdown_fd} w2 (tick k2)"
      using worker_ok_same_fds [of k2 "tick k2"] by (simp add: same_fds_def)
    let ?evs = "connection_events os cfg acc {wake_fd, shutdown_fd} events w2 (tick k2)"
    have round: "worker_round os cfg acc wake_fd shutdown_fd w k = (case ?evs of
        None \<Rightarrow> None
      | Some (Inl e, k4) \<Rightarrow> Some (Inl e, k4)
      | Some (Inr (to_remove, w4), k4) \<Rightarrow>
          (case remove_conns (to_remove @ timed_out (cf_timeout_seconds cfg) (os_time os (k_tick k2)) (wk_conns w4)) w4 k4 of
             (w5, k5) \<Rightarrow> Some (Inr (False, w5), k5)))"
      unfolding worker_round_def poll prod.case Let_def if_not_P [OF False] acc option.case sys_time_def by (rule refl)
    with assms(1) obtain to_remove w4 k4 where ev: "?evs = Some (Inr (to_remove, w4), k4)"
      by (auto split: option.splits sum.splits)
    note ok4 = connection_events_ok [OF ev assms(2) ok3 conjunct2 [OF ok2]]
    let ?gone = "to_remove @ timed_out (cf_timeout_seconds cfg) (os_time os (k_tick k2)) (wk_conns w4)"
    obtain w5 k5 where rm: "remove_conns ?gone w4 k4 = (w5, k5)" by fastforce
    with round assms(1) ev have res: "\<not> shutdown" "w' = w5" "k' = k5" by simp_all
    note ok5 = remove_conns_ok [OF rm conjunct1 [OF ok4]]
    have "all_live {} w5" using ok4 ok5 by (auto simp: all_live_def)
    moreover have "os_time os (k_tick k2) - cs_accepted_at state < cf_timeout_seconds cfg"
      if "(fd, state) \<in> set (wk_conns w5)" "cs_phase state = Reading" "0 < cf_timeout_seconds cfg" for fd state
    proof (rule ccontr)
      assume "\<not> ?thesis"
      with that ok5 have "fd \<in> set ?gone" by (force simp: timed_out_def)
      with that(1) ok5 show False by auto
    qed
    ultimately show ?thesis using ok5 res by blast
  qed
qed

text \<open>
  C7: the invariant of the event loop. A round (events of any kind, in any order, connections accepted,
  requests handled, responses under way, errors, time-outs) keeps every descriptor owned exactly
  once, by a connection, by the file it sends, or by the queue; every connection in a consistent
  state and, if it is reading, with a parser that asks for more; the poller watching each for what
  it waits for. After the round no reading connection is older than the time-out.
\<close>

theorem event_round_invariant:
  assumes "worker_round os cfg acc wake_fd shutdown_fd w k = Some (Inr (shutdown, w'), k')" "waits os"
    "worker_ok k0 {wake_fd, shutdown_fd} w k" "all_live {} w"
  shows "worker_ok k0 {wake_fd, shutdown_fd} w' k' \<and> all_live {} w'
    \<and> (\<not> shutdown \<longrightarrow> 0 < cf_timeout_seconds cfg \<longrightarrow> (\<exists>t. \<forall>(fd, state) \<in> set (wk_conns w').
        cs_phase state = Reading \<longrightarrow> os_time os t - cs_accepted_at state < cf_timeout_seconds cfg))"
  using assms by (rule worker_round_ok)

text \<open>One connection is waiting in the queue, and the wake pipe holds its byte.\<close>

definition wake_os :: os where
  "wake_os = idle_os\<lparr>os_poll := \<lambda>_. [Poll_event 0 True False],
     os_read := \<lambda>n _. if n = 1 then Got ''x'' else Read_fail EAGAIN\<rparr>"

definition queued_kernel :: kernel where
  "queued_kernel = init_kernel\<lparr>k_open := (3, Socket) # k_open init_kernel\<rparr>"

definition queued_worker :: worker where
  "queued_worker = \<lparr>wk_queue = [(3, ''10.0.0.1'')], wk_conns = [], wk_poller = watched {0, 1} []\<rparr>"

lemma queued_worker_ok: "worker_ok init_kernel {0, 1} queued_worker queued_kernel" "all_live {} queued_worker"
  by (auto simp: worker_ok_def queued_worker_def leaves_def kernel_ok_def queued_kernel_def init_kernel_def
      worker_fds_def all_live_def)

theorem event_round_invariant_witness:
  "\<exists>w' k'. worker_round wake_os default_config (\<lambda>_. True) 0 1 queued_worker queued_kernel = Some (Inr (False, w'), k')
     \<and> wk_conns w' = [(3, init_conn 3 ''10.0.0.1'' 0)] \<and> worker_ok init_kernel {0, 1} w' k'"
proof -
  have t: "k_tick queued_kernel = 0" by (simp add: queued_kernel_def init_kernel_def)
  have empty: "drain_wake_pipe wake_os 0 w k = Some (w, tick k)" if "k_tick k \<noteq> 1" for w k
    using that by (subst drain_wake_pipe.simps) (simp add: sys_read_def wake_os_def)
  obtain k1 where rd: "sys_read wake_os 0 64 (tick queued_kernel) = (Got ''x'', k1)" "k_tick k1 = 2"
    by (simp add: sys_read_def wake_os_def t)
  have "os_time wake_os n = 0" for n by (simp add: wake_os_def idle_os_def)
  then have "try_accept_from_queue wake_os queued_worker k1
      = (\<lparr>wk_queue = [], wk_conns = [(3, init_conn 3 ''10.0.0.1'' 0)],
          wk_poller = poller_add 3 True False (watched {0, 1} [])\<rparr>, tick k1)"
    by (simp add: try_accept_from_queue_def sys_time_def queued_worker_def)
  then have drain: "drain_wake_pipe wake_os 0 queued_worker (tick queued_kernel)
      = Some (\<lparr>wk_queue = [], wk_conns = [(3, init_conn 3 ''10.0.0.1'' 0)],
          wk_poller = poller_add 3 True False (watched {0, 1} [])\<rparr>, tick (tick k1))"
    using rd by (subst drain_wake_pipe.simps) (simp add: empty)
  have "waits wake_os" by (simp add: waits_def wake_os_def idle_os_def)
  moreover have "\<exists>w' k'. worker_round wake_os default_config (\<lambda>_. True) 0 1 queued_worker queued_kernel
      = Some (Inr (False, w'), k') \<and> wk_conns w' = [(3, init_conn 3 ''10.0.0.1'' 0)]"
    using drain
    by (simp add: worker_round_def sys_poll_def wake_os_def sys_time_def timed_out_def default_config_def
        init_conn_def idle_os_def)
  ultimately show ?thesis
    using event_round_invariant [OF _ _ queued_worker_ok] by blast
qed

section \<open>The end of a worker\<close>

lemma close_first_leaves:
  assumes "leaves k0 k (conn_fds ((fd, state) # conns) @ fds)"
  shows "leaves k0 (sys_close fd (close_sendfile state k)) (conn_fds conns @ fds)"
proof -
  let ?rest = "conn_fds conns @ fds"
  have l: "leaves k0 k (sendfile_fds state @ fd # ?rest)"
    using assms by (subst leaves_mset [of _ "conn_fds ((fd, state) # conns) @ fds"]) simp_all
  have "leaves k0 (close_sendfile state k) (fd # ?rest)"
    using l sys_close_leaves [OF l, of "cs_sendfile_fd state"]
    by (auto simp: close_sendfile_def sendfile_fds_def split: if_splits)
  from sys_close_leaves [OF this, of fd] show ?thesis by simp
qed

lemma close_conns_leaves:
  "leaves k0 k (conn_fds conns @ fds) \<Longrightarrow> leaves k0 (close_conns conns k) fds"
proof (induction conns arbitrary: k)
  case (Cons c conns)
  obtain fd state where c: "c = (fd, state)" by fastforce
  from Cons.IH [OF close_first_leaves [OF Cons.prems [unfolded c]]] show ?case by (simp add: c)
qed simp

lemma worker_loop_leaves:
  assumes "worker_loop os cfg acc wake_fd shutdown_fd w k = Some (Inr w', k')" "waits os"
    "worker_ok k0 {wake_fd, shutdown_fd} w k" "all_live {} w"
  shows "leaves k0 k' (map fst (wk_queue w'))"
proof -
  have "waits os \<and> worker_ok k0 {wake_fd, shutdown_fd} w k \<and> all_live {} w \<longrightarrow>
      (\<forall>w'. fst res = Inr w' \<longrightarrow> leaves k0 (snd res) (map fst (wk_queue w')))"
    if "worker_loop os cfg acc wake_fd shutdown_fd w k = Some res" for res
  proof (rule worker_loop.raw_induct [where P = "\<lambda>os cfg acc a b w k res.
      waits os \<and> worker_ok k0 {a, b} w k \<and> all_live {} w \<longrightarrow>
      (\<forall>w'. fst res = Inr w' \<longrightarrow> leaves k0 (snd res) (map fst (wk_queue w')))", OF _ that], intro impI)
    fix f os cfg acc a b w k res
    assume IH: "\<And>os cfg acc a b w k res. f os cfg acc a b w k = Some res \<Longrightarrow>
        waits os \<and> worker_ok k0 {a, b} w k \<and> all_live {} w \<longrightarrow>
        (\<forall>w'. fst res = Inr w' \<longrightarrow> leaves k0 (snd res) (map fst (wk_queue w')))"
      and eq: "(case worker_round os cfg acc a b w k of
          None \<Rightarrow> None
        | Some (Inl e, k1) \<Rightarrow> Some (Inl e, k1)
        | Some (Inr (shutdown, w1), k1) \<Rightarrow>
            if shutdown then Some (Inr (w1\<lparr>wk_conns := []\<rparr>), close_conns (wk_conns w1) k1)
            else f os cfg acc a b w1 k1) = Some res"
      and h: "waits os \<and> worker_ok k0 {a, b} w k \<and> all_live {} w"
    show "\<forall>w'. fst res = Inr w' \<longrightarrow> leaves k0 (snd res) (map fst (wk_queue w'))"
    proof (cases "worker_round os cfg acc a b w k")
      case None
      with eq show ?thesis by simp
    next
      case (Some rk)
      obtain r k1 where rk: "rk = (r, k1)" by fastforce
      show ?thesis
      proof (cases r)
        case (Inl e)
        with eq Some rk show ?thesis by auto
      next
        case (Inr x)
        then obtain shutdown w1 where x: "r = Inr (shutdown, w1)" by (cases x) auto
        note round = Some [unfolded rk x]
        have ok: "worker_ok k0 {a, b} w1 k1" "all_live {} w1" using worker_round_ok [OF round] h by blast+
        show ?thesis
        proof (cases shutdown)
          case True
          with eq round have "res = (Inr (w1\<lparr>wk_conns := []\<rparr>), close_conns (wk_conns w1) k1)" by simp
          moreover have "leaves k0 k1 (conn_fds (wk_conns w1) @ map fst (wk_queue w1))"
            using ok(1) by (simp add: worker_ok_def worker_fds_def)
          ultimately show ?thesis using close_conns_leaves by auto
        next
          case False
          with eq round have "f os cfg acc a b w1 k1 = Some res" by simp
          with IH h ok show ?thesis by blast
        qed
      qed
    qed
  qed
  from this [OF assms(1)] assms(2-4) show ?thesis by simp
qed

text \<open>
  A worker that is told to stop has closed every connection it served and every file it was
  sending, whatever happened before. The connections still in the queue stay open: nobody closes
  them.
\<close>

theorem worker_closes_all:
  assumes "run_event_loop_worker os cfg acc wake_fd shutdown_fd queue k = Some (Inr w', k')" "waits os"
    "leaves k0 k (map fst queue)" "wake_fd \<in> set (k_fds k0)" "shutdown_fd \<in> set (k_fds k0)"
    "list_all (\<lambda>(fd, ip). 0 \<le> fd) queue"
  shows "kernel_ok k' \<and> set (k_fds k') = set (k_fds k0) \<union> set (map fst (wk_queue w'))"
proof -
  let ?w = "\<lparr>wk_queue = queue, wk_conns = [],
        wk_poller = poller_add shutdown_fd True False (poller_add wake_fd True False (\<lambda>_. None))\<rparr>"
  have "wk_poller ?w = watched {wake_fd, shutdown_fd} []"
    by (auto simp: poller_add_def watched_def fun_eq_iff)
  then have "worker_ok k0 {wake_fd, shutdown_fd} ?w k" "all_live {} ?w"
    using assms(3-6) by (simp_all add: worker_ok_def worker_fds_def all_live_def)
  from worker_loop_leaves [OF assms(1) [unfolded run_event_loop_worker_def] assms(2) this] show ?thesis
    by (simp add: leaves_def)
qed

definition stop_os :: os where
  "stop_os = idle_os\<lparr>os_poll := \<lambda>_. [Poll_event 1 True False]\<rparr>"

theorem worker_closes_all_witness:
  "\<exists>w' k'. run_event_loop_worker stop_os default_config (\<lambda>_. True) 0 1 [(3, ''10.0.0.1'')] queued_kernel = Some (Inr w', k')
     \<and> set (k_fds k') = {0, 1, 2, 3}"
proof -
  have run: "\<exists>k'. run_event_loop_worker stop_os default_config (\<lambda>_. True) 0 1 [(3, ''10.0.0.1'')] queued_kernel
      = Some (Inr \<lparr>wk_queue = [(3, ''10.0.0.1'')], wk_conns = [],
          wk_poller = poller_add 1 True False (poller_add 0 True False (\<lambda>_. None))\<rparr>, k')"
    unfolding run_event_loop_worker_def
    by (subst worker_loop.simps) (simp add: worker_round_def sys_poll_def stop_os_def split: prod.split)
  have "leaves init_kernel queued_kernel [3]" "waits stop_os"
    by (auto simp: leaves_def kernel_ok_def queued_kernel_def init_kernel_def waits_def stop_os_def idle_os_def)
  with run worker_closes_all [of stop_os default_config "\<lambda>_. True" 0 1 "[(3, ''10.0.0.1'')]" queued_kernel _ _ init_kernel]
  show ?thesis by (fastforce simp: init_kernel_def)
qed

end
