(* ===== verification/Listening.thy ===== *)
theory Listening
  imports Connection_Wire
begin

text \<open>
  The threads around the connections: \<open>server/socket_setup.cpp\<close> (a listening socket),
  \<open>server/management_thread.cpp\<close> (the console command, waiting for a client or for shutdown) and the
  acceptor of \<open>server/select_mode.cpp\<close>. What the calls on sockets return is in \<open>net\<close>, and may differ
  from call to call; \<open>select\<close> on the listening socket and the shutdown pipe gives an error or says
  which of the two is readable.
\<close>

section \<open>Listening sockets\<close>

record net =
  net_socket :: "nat \<Rightarrow> bool"
  net_setsockopt :: "nat \<Rightarrow> int \<Rightarrow> bool"
  net_bind :: "nat \<Rightarrow> int \<Rightarrow> 16 word \<Rightarrow> bool"
  net_listen :: "nat \<Rightarrow> int \<Rightarrow> bool"
  net_select :: "nat \<Rightarrow> errno + bool \<times> bool"

text \<open>The process with the ports its sockets are bound to and the backlogs of those that listen.\<close>

record endpoints =
  ep_kernel :: kernel
  ep_bound :: "(int \<times> 16 word) list"
  ep_listening :: "(int \<times> int) list"

definition on_kernel :: "(kernel \<Rightarrow> kernel) \<Rightarrow> endpoints \<Rightarrow> endpoints" where
  "on_kernel f e = e\<lparr>ep_kernel := f (ep_kernel e)\<rparr>"

definition sys_socket :: "net \<Rightarrow> endpoints \<Rightarrow> int \<times> endpoints" where
  "sys_socket net e =
     (let k = ep_kernel e
      in if net_socket net (k_tick k) then (case alloc_fd Socket (tick k) of (fd, k1) \<Rightarrow> (fd, e\<lparr>ep_kernel := k1\<rparr>))
         else (-1, on_kernel tick e))"

definition sys_setsockopt :: "net \<Rightarrow> int \<Rightarrow> endpoints \<Rightarrow> bool \<times> endpoints" where
  "sys_setsockopt net fd e = (net_setsockopt net (k_tick (ep_kernel e)) fd, on_kernel tick e)"

definition sys_bind :: "net \<Rightarrow> int \<Rightarrow> 16 word \<Rightarrow> endpoints \<Rightarrow> bool \<times> endpoints" where
  "sys_bind net fd port e =
     (let ok = net_bind net (k_tick (ep_kernel e)) fd port; e1 = on_kernel tick e
      in (ok, if ok then e1\<lparr>ep_bound := (fd, port) # ep_bound e1\<rparr> else e1))"

definition sys_listen :: "net \<Rightarrow> int \<Rightarrow> int \<Rightarrow> endpoints \<Rightarrow> bool \<times> endpoints" where
  "sys_listen net fd backlog e =
     (let ok = net_listen net (k_tick (ep_kernel e)) fd; e1 = on_kernel tick e
      in (ok, if ok then e1\<lparr>ep_listening := (fd, backlog) # ep_listening e1\<rparr> else e1))"

text \<open>Closing a socket ends its listening and frees its port.\<close>

definition close_socket :: "int \<Rightarrow> endpoints \<Rightarrow> endpoints" where
  "close_socket fd e = \<lparr>ep_kernel = sys_close fd (ep_kernel e), ep_bound = filter (\<lambda>b. fst b \<noteq> fd) (ep_bound e),
     ep_listening = filter (\<lambda>l. fst l \<noteq> fd) (ep_listening e)\<rparr>"

text \<open>\<open>static_cast<uint16_t>(port)\<close> keeps the low 16 bits; \<open>htons\<close> only orders the bytes.\<close>

definition create_listen_socket :: "net \<Rightarrow> int \<Rightarrow> int \<Rightarrow> endpoints \<Rightarrow> int \<times> endpoints" where
  "create_listen_socket net port backlog e =
     (case sys_socket net e of (server_fd, e1) \<Rightarrow>
        if server_fd < 0 then (-1, e1)
        else case sys_setsockopt net server_fd e1 of (ok, e2) \<Rightarrow>
          if \<not> ok then (-1, close_socket server_fd e2)
          else case sys_bind net server_fd (word_of_int port) e2 of (ok, e3) \<Rightarrow>
            if \<not> ok then (-1, close_socket server_fd e3)
            else case sys_listen net server_fd backlog e3 of (ok, e4) \<Rightarrow>
              if \<not> ok then (-1, close_socket server_fd e4)
              else (server_fd, e4))"

section \<open>The console and the wait for clients\<close>

text \<open>The lines of standard input; the flag is \<open>accepting_connections\<close>, the byte written is 0.\<close>

fun management_thread_func :: "os \<Rightarrow> int \<Rightarrow> string list \<Rightarrow> bool \<Rightarrow> kernel \<Rightarrow> bool \<times> kernel" where
  "management_thread_func os pipe_write_fd [] accepting k = (accepting, k)"
| "management_thread_func os pipe_write_fd (line # rest) accepting k =
     (if to_lower (trim_ws line) = ''shutdown''
      then (False, snd (sys_write os pipe_write_fd [CHR 0x00] k))
      else management_thread_func os pipe_write_fd rest accepting k)"

definition wait_for_accept_or_shutdown :: "net \<Rightarrow> os \<Rightarrow> int \<Rightarrow> kernel \<Rightarrow> (bool \<times> bool) \<times> kernel" where
  "wait_for_accept_or_shutdown net os shutdown_pipe_read k =
     (case net_select net (k_tick k) of
        Inl e \<Rightarrow> if e = EINTR then ((False, False), tick k) else ((False, True), tick k)
      | Inr (listen_readable, pipe_readable) \<Rightarrow>
          if pipe_readable then ((False, True), snd (sys_read os shutdown_pipe_read 1 (tick k)))
          else ((listen_readable, False), tick k))"

section \<open>The acceptor of the event loops\<close>

definition select_acceptor_iteration ::
  "net \<Rightarrow> os \<Rightarrow> int \<Rightarrow> int \<Rightarrow> int \<Rightarrow> (nat \<Rightarrow> bool) \<Rightarrow> (int \<times> string) list \<Rightarrow> kernel
   \<Rightarrow> (bool \<times> (int \<times> string) list) \<times> kernel" where
  "select_acceptor_iteration net os listen_fd shutdown_pipe_read wake_pipe_write accepting client_queue k =
     (case wait_for_accept_or_shutdown net os shutdown_pipe_read k of ((listen_readable, shutdown_requested), k1) \<Rightarrow>
        if shutdown_requested then ((True, client_queue), k1)
        else if listen_readable \<and> accepting (k_tick k1)
        then (case accept_connection os listen_fd k1 of ((client_fd, client_ip), k2) \<Rightarrow>
                if 0 \<le> client_fd
                then ((False, client_queue @ [(client_fd, client_ip)]),
                      snd (sys_write os wake_pipe_write [CHR 0x00] k2))
                else ((False, client_queue), k2))
        else ((False, client_queue), k1))"

partial_function (option) acceptor_loop_select ::
  "net \<Rightarrow> os \<Rightarrow> int \<Rightarrow> int \<Rightarrow> int \<Rightarrow> (nat \<Rightarrow> bool) \<Rightarrow> (int \<times> string) list \<Rightarrow> kernel
   \<Rightarrow> ((int \<times> string) list \<times> kernel) option" where
  "acceptor_loop_select net os listen_fd shutdown_pipe_read wake_pipe_write accepting client_queue k =
     (case select_acceptor_iteration net os listen_fd shutdown_pipe_read wake_pipe_write accepting client_queue k of
        ((shutdown, q), k1) \<Rightarrow>
          if shutdown then Some (q, k1)
          else acceptor_loop_select net os listen_fd shutdown_pipe_read wake_pipe_write accepting q k1)"

section \<open>Sockets are set up completely or not at all\<close>

definition free_socket :: "int \<Rightarrow> endpoints \<Rightarrow> bool" where
  "free_socket fd e \<longleftrightarrow> fd \<notin> fst ` set (ep_bound e) \<and> fd \<notin> fst ` set (ep_listening e)"

text \<open>Only open descriptors are bound or listening.\<close>

definition endpoints_ok :: "endpoints \<Rightarrow> bool" where
  "endpoints_ok e \<longleftrightarrow> kernel_ok (ep_kernel e)
     \<and> fst ` set (ep_bound e) \<subseteq> set (k_fds (ep_kernel e)) \<and> fst ` set (ep_listening e) \<subseteq> set (k_fds (ep_kernel e))"

lemma on_kernel_tick [simp]:
  "ep_kernel (on_kernel tick e) = tick (ep_kernel e)" "ep_bound (on_kernel tick e) = ep_bound e"
  "ep_listening (on_kernel tick e) = ep_listening e"
  by (simp_all add: on_kernel_def)

lemma filter_fresh: "fd \<notin> fst ` set xs \<Longrightarrow> filter (\<lambda>x. fst x \<noteq> fd) xs = xs"
  by (rule filter_True) auto

lemma close_fresh_socket:
  assumes "leaves k (ep_kernel e') [fd]" "fd \<notin> fst ` set bs" "fd \<notin> fst ` set ls"
    and "ep_bound e' = bs \<or> (\<exists>p. ep_bound e' = (fd, p) # bs)"
    and "ep_listening e' = ls \<or> (\<exists>b. ep_listening e' = (fd, b) # ls)"
  shows "leaves k (ep_kernel (close_socket fd e')) []" "ep_bound (close_socket fd e') = bs"
    "ep_listening (close_socket fd e') = ls"
  using assms sys_close_leaves [OF assms(1), of fd] by (auto simp: close_socket_def filter_fresh)

lemma socket_all_or_nothing:
  assumes "endpoints_ok e" "create_listen_socket net port backlog e = (fd, e')"
  shows "endpoints_ok e' \<and>
    (if fd < 0 then fd = -1 \<and> set (k_fds (ep_kernel e')) = set (k_fds (ep_kernel e))
         \<and> ep_bound e' = ep_bound e \<and> ep_listening e' = ep_listening e
     else fd \<notin> set (k_fds (ep_kernel e)) \<and> set (k_fds (ep_kernel e')) = insert fd (set (k_fds (ep_kernel e)))
         \<and> (\<exists>p. ep_bound e' = (fd, p) # ep_bound e \<and> uint p = port mod 65536)
         \<and> ep_listening e' = (fd, backlog) # ep_listening e)"
proof -
  let ?k = "ep_kernel e"
  have ok: "kernel_ok ?k" using assms(1) by (simp add: endpoints_ok_def)
  obtain sfd e1 where s: "sys_socket net e = (sfd, e1)" by fastforce
  have keep: "endpoints_ok e'" if "leaves ?k (ep_kernel e') []" "ep_bound e' = ep_bound e" "ep_listening e' = ep_listening e"
    using that assms(1) by (simp add: endpoints_ok_def leaves_def)
  show ?thesis
  proof (cases "net_socket net (k_tick ?k)")
    case False
    then have "fd = -1" "e' = on_kernel tick e"
      using assms(2) by (simp_all add: create_listen_socket_def sys_socket_def Let_def)
    then show ?thesis using keep ok by simp
  next
    case True
    obtain k1 where a: "alloc_fd Socket (tick ?k) = (sfd, k1)" "e1 = e\<lparr>ep_kernel := k1\<rparr>"
      using s True by (auto simp: sys_socket_def Let_def split: prod.splits)
    have l: "0 \<le> sfd" "leaves ?k k1 [sfd]" using alloc_fd_leaves [OF _ a(1)] ok by simp_all
    have new: "sfd \<notin> set (k_fds ?k)" using l(2) by (simp add: leaves_def)
    then have free: "sfd \<notin> fst ` set (ep_bound e)" "sfd \<notin> fst ` set (ep_listening e)"
      using assms(1) unfolding endpoints_ok_def by blast+
    have failed: "endpoints_ok (close_socket sfd d) \<and> set (k_fds (ep_kernel (close_socket sfd d))) = set (k_fds ?k)
        \<and> ep_bound (close_socket sfd d) = ep_bound e \<and> ep_listening (close_socket sfd d) = ep_listening e"
      if "leaves ?k (ep_kernel d) [sfd]" "ep_bound d = ep_bound e \<or> (\<exists>p. ep_bound d = (sfd, p) # ep_bound e)"
        "ep_listening d = ep_listening e \<or> (\<exists>b. ep_listening d = (sfd, b) # ep_listening e)" for d
      using close_fresh_socket [OF that(1) free that(2,3)] assms(1) by (simp add: endpoints_ok_def leaves_def)
    have p: "uint (word_of_int port :: 16 word) = port mod 65536" by (simp add: uint_word_of_int)
    define d where "d = e\<lparr>ep_kernel := tick (tick k1), ep_bound := (sfd, word_of_int port) # ep_bound e\<rparr>"
    consider (bad) c where "fd = -1" "e' = close_socket sfd c" "leaves ?k (ep_kernel c) [sfd]"
        "ep_bound c = ep_bound e \<or> (\<exists>p. ep_bound c = (sfd, p) # ep_bound e)" "ep_listening c = ep_listening e"
      | (good) "fd = sfd" "leaves ?k (ep_kernel e') [sfd]" "ep_bound e' = (sfd, word_of_int port) # ep_bound e"
        "ep_listening e' = (sfd, backlog) # ep_listening e"
      using assms(2) s a(2) l
      by (auto simp: create_listen_socket_def sys_setsockopt_def sys_bind_def sys_listen_def Let_def split: if_splits)
    then show ?thesis
    proof cases
      case (bad c)
      then show ?thesis using failed [OF bad(3,4)] by simp
    next
      case good
      then have "endpoints_ok e'" using assms(1) by (auto simp: endpoints_ok_def leaves_def)
      then show ?thesis using good l(1) new p by (auto simp: leaves_def)
    qed
  qed
qed

text \<open>
  C37: \<open>create_listen_socket\<close> sets a socket up completely or not at all. Whichever call fails, it answers
  -1 with the descriptors, bound ports and listening sockets as they were; otherwise the one new
  descriptor is bound, listens with the given backlog, and its port is the configured number modulo
  65536: a configured port that does not fit is not refused.
\<close>

theorem create_listen_socket_all_or_nothing:
  assumes "endpoints_ok e" "create_listen_socket net port backlog e = (fd, e')"
  shows "endpoints_ok e' \<and>
    (if fd < 0 then fd = -1 \<and> set (k_fds (ep_kernel e')) = set (k_fds (ep_kernel e))
         \<and> ep_bound e' = ep_bound e \<and> ep_listening e' = ep_listening e
     else fd \<notin> set (k_fds (ep_kernel e)) \<and> set (k_fds (ep_kernel e')) = insert fd (set (k_fds (ep_kernel e)))
         \<and> (\<exists>p. ep_bound e' = (fd, p) # ep_bound e \<and> uint p = port mod 65536)
         \<and> ep_listening e' = (fd, backlog) # ep_listening e)"
  using socket_all_or_nothing [OF assms] .

section \<open>Commands\<close>

lemma management_thread_func_eq:
  "management_thread_func os fd lines accepting k =
     (if \<exists>line \<in> set lines. to_lower (trim_ws line) = ''shutdown''
      then (False, snd (sys_write os fd [CHR 0x00] k)) else (accepting, k))"
  by (induction lines) auto

text \<open>The command is recognised whatever the blanks around it and the case of its letters.\<close>

lemma management_examples:
  "fst (management_thread_func idle_os 9 [''status'', '' ShutDown '' @ [CHR 0x0D], ''status''] True init_kernel) = False"
  "fst (management_thread_func idle_os 9 [''shut down'', ''shutdown now''] True init_kernel) = True"
  by code_simp+

section \<open>Every client accepted is queued and announced once\<close>

lemma wait_same_fds:
  assumes "wait_for_accept_or_shutdown net os sfd k = (r, k')" shows "same_fds k k'"
  using assms by (auto simp: wait_for_accept_or_shutdown_def same_fds_def sys_read_def
      split: sum.splits prod.splits if_splits io_read.splits)

lemma accept_connection_leaves:
  assumes "accept_connection os lfd k = ((fd, ip), k')" "kernel_ok k"
  shows "if fd < 0 then fd = -1 \<and> leaves k k' [] else leaves k k' [fd]"
proof (cases "os_accept os (k_tick k) lfd")
  case None
  then have "fd = -1" "k' = tick k" using assms(1) by (simp_all add: accept_connection_def sys_accept_def)
  then show ?thesis using assms(2) by simp
next
  case (Some ip')
  obtain fd' k1 where a: "alloc_fd Socket (tick k) = (fd', k1)" by fastforce
  then have "fd = fd'" "k' = k1" using assms(1) Some by (simp_all add: accept_connection_def sys_accept_def)
  then show ?thesis using alloc_fd_leaves [OF _ a] assms(2) by simp
qed

lemma acceptor_iteration_cases:
  assumes "select_acceptor_iteration net os lfd sfd wfd acc q k = ((stop, q'), k')" "kernel_ok k"
  shows "(\<exists>new. q' = q @ new \<and> length new \<le> 1 \<and> (stop \<longrightarrow> new = []) \<and> leaves k k' (map fst new)
    \<and> (reliable os \<longrightarrow> sent_to wfd k' = sent_to wfd k @ replicate (length new) (CHR 0x00)))"
proof -
  obtain lr sr k1 where w: "wait_for_accept_or_shutdown net os sfd k = ((lr, sr), k1)" by (metis prod.collapse)
  have k1: "same_fds k k1" "sent_to wfd k1 = sent_to wfd k"
    using w by (auto simp: wait_for_accept_or_shutdown_def same_fds_def sys_read_def sent_to_def
        split: sum.splits prod.splits if_splits io_read.splits)
  have l1: "leaves k k1 []" using same_fds_leaves [OF k1(1), of k "[]"] assms(2) by simp
  show ?thesis
  proof (cases "\<not> sr \<and> lr \<and> acc (k_tick k1)")
    case False
    then have "q' = q \<and> k' = k1" using assms(1) w by (auto simp: select_acceptor_iteration_def split: if_splits)
    then show ?thesis using l1 k1 by (intro exI [of _ "[]"]) simp
  next
    case True
    show ?thesis
    proof (cases "os_accept os (k_tick k1) lfd")
      case None
      then have "q' = q \<and> k' = tick k1"
        using assms(1) w True by (auto simp: select_acceptor_iteration_def accept_connection_def sys_accept_def)
      then show ?thesis using l1 k1 by (intro exI [of _ "[]"]) (simp add: sent_to_def)
    next
      case (Some ip)
      obtain fd k2 where a: "alloc_fd Socket (tick k1) = (fd, k2)" by fastforce
      have fd: "0 \<le> fd" "leaves k1 k2 [fd]" using alloc_fd_leaves [OF _ a] leaves_ok [OF l1] by simp_all
      have s2: "sent_to wfd k2 = sent_to wfd k1" using a by (auto simp: alloc_fd_def Let_def sent_to_def)
      have e: "\<not> stop" "q' = q @ [(fd, ip)]" "k' = snd (sys_write os wfd [CHR 0x00] k2)"
        using assms(1) w True Some a fd(1)
        by (auto simp: select_acceptor_iteration_def accept_connection_def sys_accept_def)
      obtain r where wr: "sys_write os wfd [CHR 0x00] k2 = (r, k')" using e(3) by (metis prod.collapse)
      have "same_fds k2 k'" using wr by (auto simp: sys_write_def same_fds_def split: io_write.splits)
      then have "leaves k k' [fd]"
        using leaves_trans [OF l1 fd(2)] same_fds_leaves [of k2 k' k "[fd]"] by simp
      moreover have "sent_to wfd k' = sent_to wfd k @ [CHR 0x00]" if rel: "reliable os"
      proof -
        obtain n k3 where n: "sys_write os wfd [CHR 0x00] k2 = (Wrote n, k3)" "0 < n"
          using reliable_write [OF rel, of "[CHR 0x00]" wfd k2] by auto
        then have "k3 = k'" using wr by simp
        then show ?thesis using wire_write [OF n(1)] n(2) s2 k1(2) by (simp add: wire_def)
      qed
      ultimately show ?thesis using e by (intro exI [of _ "[(fd, ip)]"]) simp
    qed
  qed
qed

text \<open>
  The acceptor of the event loops. When it stops, the clients it accepted stand in the queue, each
  once, in the order of acceptance, behind those that were there; the process has exactly their
  descriptors more; and if writes succeed exactly one byte for each was written to the wake pipe.
\<close>

theorem acceptor_queues_clients:
  assumes "acceptor_loop_select net os lfd sfd wfd acc q k = Some (q', k')" "kernel_ok k"
  shows "\<exists>new. q' = q @ new \<and> distinct (map fst new) \<and> kernel_ok k'
    \<and> set (map fst new) \<inter> set (k_fds k) = {} \<and> set (k_fds k') = set (k_fds k) \<union> set (map fst new)
    \<and> (reliable os \<longrightarrow> sent_to wfd k' = sent_to wfd k @ replicate (length new) (CHR 0x00))"
proof -
  let ?R = "\<lambda>os wfd q k q' k'. \<exists>new. q' = q @ new \<and> leaves k k' (map fst new)
    \<and> (reliable os \<longrightarrow> sent_to wfd k' = sent_to wfd k @ replicate (length new) (CHR 0x00))"
  have "?R os wfd q k (fst (q', k')) (snd (q', k'))"
  proof (rule mp [OF acceptor_loop_select.raw_induct [where P = "\<lambda>net os lfd sfd wfd acc q k r.
      kernel_ok k \<longrightarrow> ?R os wfd q k (fst r) (snd r)", OF _ assms(1)] assms(2)], rule impI)
    fix f net os lfd sfd wfd acc q k r
    assume IH: "\<And>net os lfd sfd wfd acc q k r. f net os lfd sfd wfd acc q k = Some r \<Longrightarrow>
        kernel_ok k \<longrightarrow> ?R os wfd q k (fst r) (snd r)"
      and eq: "(case select_acceptor_iteration net os lfd sfd wfd acc q k of
        ((shutdown, q), k1) \<Rightarrow> if shutdown then Some (q, k1) else f net os lfd sfd wfd acc q k1) = Some r"
      and ok: "kernel_ok k"
    obtain stop q1 k1 where it: "select_acceptor_iteration net os lfd sfd wfd acc q k = ((stop, q1), k1)"
      by (metis prod.collapse)
    obtain a where a: "q1 = q @ a" "leaves k k1 (map fst a)"
      "reliable os \<longrightarrow> sent_to wfd k1 = sent_to wfd k @ replicate (length a) (CHR 0x00)"
      using acceptor_iteration_cases [OF it ok] by blast
    show "?R os wfd q k (fst r) (snd r)"
    proof (cases stop)
      case True
      then have "r = (q1, k1)" using eq it by simp
      then show ?thesis using a by (intro exI [of _ a]) simp
    next
      case False
      then have "f net os lfd sfd wfd acc q1 k1 = Some r" using eq it by simp
      then obtain b where b: "fst r = q1 @ b" "leaves k1 (snd r) (map fst b)"
        "reliable os \<longrightarrow> sent_to wfd (snd r) = sent_to wfd k1 @ replicate (length b) (CHR 0x00)"
        using IH leaves_ok [OF a(2)] by blast
      have "leaves k (snd r) (map fst (a @ b))" using leaves_trans [OF a(2) b(2)] by simp
      then show ?thesis using a b by (intro exI [of _ "a @ b"]) (simp add: replicate_add)
    qed
  qed
  then show ?thesis by (auto simp: leaves_def simp del: set_map)
qed

section \<open>Witnesses\<close>

text \<open>Everything succeeds; two clients come, then the shutdown pipe becomes readable.\<close>

definition busy_net :: net where
  "busy_net = \<lparr>net_socket = \<lambda>_. True, net_setsockopt = \<lambda>_ _. True, net_bind = \<lambda>_ _ _. True, net_listen = \<lambda>_ _. True,
     net_select = \<lambda>n. Inr (True, 6 \<le> n)\<rparr>"

definition busy_os :: os where
  "busy_os = idle_os\<lparr>os_accept := \<lambda>_ _. Some ''10.0.0.1''\<rparr>"

definition start_endpoints :: endpoints where
  "start_endpoints = \<lparr>ep_kernel = init_kernel, ep_bound = [], ep_listening = []\<rparr>"

theorem create_listen_socket_all_or_nothing_witness:
  "fst (create_listen_socket busy_net 65616 15 start_endpoints) = 3
   \<and> (\<exists>p. ep_bound (snd (create_listen_socket busy_net 65616 15 start_endpoints)) = [(3, p)] \<and> uint p = 80)"
proof -
  let ?r = "create_listen_socket busy_net 65616 15 start_endpoints"
  have ok: "endpoints_ok start_endpoints" by (simp add: endpoints_ok_def start_endpoints_def init_kernel_ok)
  have fd: "fst ?r = 3" by code_simp
  show ?thesis
    using create_listen_socket_all_or_nothing [OF ok, of busy_net 65616 15 "fst ?r" "snd ?r"] fd
    by (auto simp: start_endpoints_def)
qed

theorem acceptor_queues_clients_witness:
  "\<exists>q' k'. acceptor_loop_select busy_net busy_os 0 1 2 (\<lambda>_. True) [] init_kernel = Some (q', k')
     \<and> q' = [(3, ''10.0.0.1''), (4, ''10.0.0.1'')] \<and> distinct (map fst q') \<and> sent_to 2 k' = [CHR 0x00, CHR 0x00]"
proof -
  have "\<exists>k'. acceptor_loop_select busy_net busy_os 0 1 2 (\<lambda>_. True) [] init_kernel
      = Some ([(3, ''10.0.0.1''), (4, ''10.0.0.1'')], k')"
    by (simp add: acceptor_loop_select.simps select_acceptor_iteration_def wait_for_accept_or_shutdown_def
        busy_net_def busy_os_def idle_os_def init_kernel_def accept_connection_def sys_accept_def alloc_fd_def Let_def
        fresh_fd_def sys_write_def tick_def sys_read_def)
  then obtain k' where r: "acceptor_loop_select busy_net busy_os 0 1 2 (\<lambda>_. True) [] init_kernel
      = Some ([(3, ''10.0.0.1''), (4, ''10.0.0.1'')], k')" by blast
  have "reliable busy_os" "sent_to 2 init_kernel = []"
    by (simp_all add: reliable_def busy_os_def idle_os_def sent_to_def init_kernel_def)
  then show ?thesis
    using acceptor_queues_clients [OF r init_kernel_ok] r by (auto simp: numeral_2_eq_2)
qed

end
