(* ===== verification/Select_Shutdown.thy ===== *)
theory Select_Shutdown
  imports Config_File
begin

text \<open>
  Shutting down the event loops (\<open>run_select_loops\<close> in \<open>server/select_mode.cpp\<close> with
  \<open>server/management_thread.cpp\<close>). The management thread writes one byte to the shutdown pipe. The
  acceptor and every worker watch the reading end; a thread that finds it readable reads one byte from
  it, which blocks while the pipe is empty, and then ends; the main thread joins them all. The
  acceptor also ends when \<open>select\<close> fails. What the threads do for their connections meanwhile is in
  \<open>Event_Loop\<close> and \<open>Listening\<close>, and does not touch this pipe. No signal handler is installed, so a
  blocked \<open>read\<close> is not interrupted.
\<close>

section \<open>Threads\<close>

datatype watcher = Watching | Taking | Gone

record shutdown_state =
  sd_bytes :: nat
  sd_listening :: bool
  sd_acceptor :: watcher
  sd_workers :: "watcher list"
  sd_select_failed :: bool
  sd_returned :: bool

definition n_workers :: "config \<Rightarrow> nat" where
  "n_workers cfg = nat (max 1 (cf_n_select_loops cfg))"

definition start_select_loops :: "config \<Rightarrow> shutdown_state" where
  "start_select_loops cfg = \<lparr>sd_bytes = 0, sd_listening = True, sd_acceptor = Watching,
     sd_workers = replicate (n_workers cfg) Watching, sd_select_failed = False, sd_returned = False\<rparr>"

inductive shutdown_step :: "shutdown_state \<Rightarrow> shutdown_state \<Rightarrow> bool" where
  command: "sd_listening s \<Longrightarrow> shutdown_step s (s\<lparr>sd_bytes := Suc (sd_bytes s), sd_listening := False\<rparr>)"
| acceptor_sees: "sd_acceptor s = Watching \<Longrightarrow> 0 < sd_bytes s \<Longrightarrow> shutdown_step s (s\<lparr>sd_acceptor := Taking\<rparr>)"
| acceptor_takes: "sd_acceptor s = Taking \<Longrightarrow> sd_bytes s = Suc b
    \<Longrightarrow> shutdown_step s (s\<lparr>sd_acceptor := Gone, sd_bytes := b\<rparr>)"
| acceptor_fails: "sd_acceptor s = Watching \<Longrightarrow> shutdown_step s (s\<lparr>sd_acceptor := Gone, sd_select_failed := True\<rparr>)"
| worker_sees: "i < length (sd_workers s) \<Longrightarrow> sd_workers s ! i = Watching \<Longrightarrow> 0 < sd_bytes s
    \<Longrightarrow> shutdown_step s (s\<lparr>sd_workers := (sd_workers s)[i := Taking]\<rparr>)"
| worker_takes: "i < length (sd_workers s) \<Longrightarrow> sd_workers s ! i = Taking \<Longrightarrow> sd_bytes s = Suc b
    \<Longrightarrow> shutdown_step s (s\<lparr>sd_workers := (sd_workers s)[i := Gone], sd_bytes := b\<rparr>)"
| joined: "sd_acceptor s = Gone \<Longrightarrow> list_all (\<lambda>w. w = Gone) (sd_workers s) \<Longrightarrow> shutdown_step s (s\<lparr>sd_returned := True\<rparr>)"

abbreviation shutdown_steps :: "shutdown_state \<Rightarrow> shutdown_state \<Rightarrow> bool" where
  "shutdown_steps \<equiv> shutdown_step\<^sup>*\<^sup>*"

section \<open>One byte for all\<close>

definition gone :: "watcher list \<Rightarrow> nat" where
  "gone ws = length (filter (\<lambda>w. w = Gone) ws)"

lemma gone_update: "i < length ws \<Longrightarrow> gone (ws[i := w]) + (if ws ! i = Gone then 1 else 0) = gone ws + (if w = Gone then 1 else 0)"
proof (induction ws arbitrary: i)
  case (Cons v ws)
  show ?case
  proof (cases i)
    case (Suc j)
    then show ?thesis using Cons.IH [of j] Cons.prems by (cases "ws ! j = Gone"; cases "w = Gone") (simp_all add: gone_def)
  qed (simp add: gone_def)
qed simp

lemma gone_all: "list_all (\<lambda>w. w = Gone) ws \<Longrightarrow> gone ws = length ws"
  by (induction ws) (auto simp: gone_def)

text \<open>The byte is still to be written, in the pipe, or one thread has taken it.\<close>

definition one_byte :: "nat \<Rightarrow> shutdown_state \<Rightarrow> bool" where
  "one_byte n s \<longleftrightarrow> length (sd_workers s) = n
     \<and> sd_bytes s + gone (sd_workers s) + (if sd_acceptor s = Gone \<and> \<not> sd_select_failed s then 1 else 0)
         + (if sd_listening s then 1 else 0) = 1
     \<and> (sd_returned s \<longrightarrow> sd_acceptor s = Gone \<and> gone (sd_workers s) = n)
     \<and> (sd_select_failed s \<longrightarrow> sd_acceptor s = Gone)"

lemma one_byte_start: "one_byte (n_workers cfg) (start_select_loops cfg)"
  by (simp add: one_byte_def start_select_loops_def gone_def)

lemma one_byte_step: "shutdown_step s s' \<Longrightarrow> one_byte n s \<Longrightarrow> one_byte n s'"
proof (induction rule: shutdown_step.induct)
  case (worker_sees i s)
  then show ?case using gone_update [of i "sd_workers s" Taking] by (auto simp: one_byte_def)
next
  case (worker_takes i s b)
  then show ?case using gone_update [of i "sd_workers s" Gone] by (auto simp: one_byte_def)
qed (auto simp: one_byte_def gone_all)

lemma one_byte_steps: "shutdown_steps s s' \<Longrightarrow> one_byte n s \<Longrightarrow> one_byte n s'"
  by (induction rule: rtranclp_induct) (auto intro: one_byte_step)

text \<open>Once the byte has been taken, no worker ends any more.\<close>

definition byte_taken :: "shutdown_state \<Rightarrow> bool" where
  "byte_taken s \<longleftrightarrow> sd_bytes s = 0 \<and> \<not> sd_listening s"

lemma taken_step: "shutdown_step s s' \<Longrightarrow> byte_taken s \<Longrightarrow> byte_taken s' \<and> sd_workers s' = sd_workers s"
  by (induction rule: shutdown_step.induct) (auto simp: byte_taken_def)

lemma taken_steps: "shutdown_steps s s' \<Longrightarrow> byte_taken s \<Longrightarrow> byte_taken s' \<and> sd_workers s' = sd_workers s"
  by (induction rule: rtranclp_induct) (auto dest: taken_step)

lemma n_workers_pos: "0 < n_workers cfg"
  by (simp add: n_workers_def)

text \<open>
  C22: the event loops do not shut down. Whatever the interleaving, \<open>run_select_loops\<close> can return only with a
  single worker and after \<open>select\<close> has failed in the acceptor: the one byte written for the command ends one
  of the acceptor and the workers, and those that remain never end.
\<close>

theorem select_shutdown_hangs:
  assumes "shutdown_steps (start_select_loops cfg) s"
  shows "(sd_returned s \<longrightarrow> n_workers cfg = 1 \<and> sd_select_failed s)
    \<and> gone (sd_workers s) \<le> 1
    \<and> (byte_taken s \<longrightarrow> (\<forall>s'. shutdown_steps s s' \<longrightarrow> sd_workers s' = sd_workers s))"
proof -
  have inv: "one_byte (n_workers cfg) s" using one_byte_steps [OF assms one_byte_start] .
  then have "sd_returned s \<Longrightarrow> n_workers cfg = 1 \<and> sd_select_failed s"
    using n_workers_pos [of cfg] by (auto simp: one_byte_def split: if_splits)
  moreover have "gone (sd_workers s) \<le> 1" using inv by (auto simp: one_byte_def)
  ultimately show ?thesis using taken_steps by blast
qed

text \<open>The command is given, the acceptor takes the byte, and the worker that saw it too is left.\<close>

theorem select_shutdown_hangs_witness:
  "\<exists>s. shutdown_steps (start_select_loops default_config) s \<and> sd_acceptor s = Gone \<and> sd_workers s = [Taking]
     \<and> (\<forall>s'. shutdown_steps s s' \<longrightarrow> sd_workers s' = [Taking])"
proof -
  let ?s0 = "start_select_loops default_config"
  let ?s1 = "?s0\<lparr>sd_bytes := 1, sd_listening := False\<rparr>"
  let ?s2 = "?s1\<lparr>sd_acceptor := Taking\<rparr>"
  let ?s3 = "?s2\<lparr>sd_workers := [Taking]\<rparr>"
  let ?s4 = "?s3\<lparr>sd_acceptor := Gone, sd_bytes := 0\<rparr>"
  have w: "sd_workers ?s0 = [Watching]"
    by (simp add: start_select_loops_def n_workers_def default_config_def)
  have 1: "shutdown_step ?s0 ?s1" using shutdown_step.command [of ?s0] by (simp add: start_select_loops_def)
  have 2: "shutdown_step ?s1 ?s2" by (rule shutdown_step.acceptor_sees) (simp_all add: start_select_loops_def)
  have 3: "shutdown_step ?s2 ?s3" using shutdown_step.worker_sees [of 0 ?s2] w by simp
  have 4: "shutdown_step ?s3 ?s4" by (rule shutdown_step.acceptor_takes) simp_all
  have run: "shutdown_steps ?s0 ?s4" using 1 2 3 4 by (meson converse_rtranclp_into_rtranclp rtranclp.rtrancl_refl)
  have "byte_taken ?s4" by (simp add: byte_taken_def)
  then show ?thesis using select_shutdown_hangs [OF run] run by (intro exI [of _ ?s4]) simp
qed

end
