(* ===== verification/Loop_Interleaving.thy ===== *)
theory Loop_Interleaving
  imports Event_Loop_Invariant Listening Select_Shutdown
begin

text \<open>
  The acceptor and all event loops at once (\<open>run_select_loops\<close> in \<open>server/select_mode.cpp\<close>). They share
  the queue of clients, the wake pipe and the descriptors of the process. Here each thread has a program
  counter, and one step is one operation of its loop: polling, one read of the wake pipe, taking one
  client from the queue under \<open>queue_mutex\<close>, one connection event, closing one connection. The threads
  take their steps in any order. The operations are those of \<open>Event_Loop\<close> and \<open>Listening\<close>; that the
  steps of one loop, taken without interruption, are the loop modelled there is proved below.
\<close>

section \<open>What the threads are given\<close>

record setting =
  se_net :: net
  se_os :: os
  se_config :: config
  se_accepting :: "nat \<Rightarrow> bool"
  se_listen_fd :: int
  se_shutdown_fd :: int
  se_wake_read :: int
  se_wake_write :: int

definition se_pipes :: "setting \<Rightarrow> int set" where
  "se_pipes S = {se_wake_read S, se_shutdown_fd S}"

section \<open>One event loop, step by step\<close>

text \<open>
  \<open>Draining n evs events\<close>: looking through \<open>evs\<close>, what is left of \<open>events\<close>, for the wake pipe, with \<open>n\<close> of the
  bytes read last still to be handled. \<open>Serving evs to_remove now\<close>: the connection events that are left,
  and what is to be removed after them. \<open>Closing\<close>: the loop has been told to stop.
\<close>

datatype loop_pc =
    Polling
  | Draining nat "poll_event list" "poll_event list"
  | Serving "poll_event list" "int list" int
  | Removing "int list"
  | Closing
  | Ended

fun loop_step :: "setting \<Rightarrow> loop_pc \<Rightarrow> worker \<Rightarrow> kernel \<Rightarrow> ((cxx_exn + loop_pc \<times> worker) \<times> kernel) option" where
  "loop_step S Polling w k =
     (let (events, k1) = sys_poll (se_os S) k
      in if \<exists>ev \<in> set events. ev_fd ev = se_shutdown_fd S \<and> ev_readable ev
         then Some (Inr (Closing, w), snd (sys_read (se_os S) (se_shutdown_fd S) 1 k1))
         else Some (Inr (Draining 0 events events, w), k1))"
| "loop_step S (Draining (Suc n) evs events) w k =
     (case try_accept_from_queue (se_os S) w k of (w1, k1) \<Rightarrow> Some (Inr (Draining n evs events, w1), k1))"
| "loop_step S (Draining 0 (ev # evs) events) w k =
     (if ev_fd ev = se_wake_read S \<and> ev_readable ev
      then (case sys_read (se_os S) (se_wake_read S) 64 k of
              (Read_fail e, k1) \<Rightarrow> Some (Inr (Draining 0 evs events, w), k1)
            | (Got s, k1) \<Rightarrow>
                if s = [] then Some (Inr (Draining 0 evs events, w), k1)
                else Some (Inr (Draining (length s) (ev # evs) events, w), k1))
      else Some (Inr (Draining 0 evs events, w), k))"
| "loop_step S (Draining 0 [] events) w k =
     (case sys_time (se_os S) k of (now, k1) \<Rightarrow> Some (Inr (Serving events [] now, w), k1))"
| "loop_step S (Serving (ev # evs) to_remove now) w k =
     (if ev_fd ev \<in> se_pipes S then Some (Inr (Serving evs to_remove now, w), k)
      else (case connection_event (se_os S) (se_config S) (se_accepting S) ev w k of
              None \<Rightarrow> None
            | Some (Inl e, k1) \<Rightarrow> Some (Inl e, k1)
            | Some (Inr (close, w1), k1) \<Rightarrow>
                Some (Inr (Serving evs (to_remove @ (if close then [ev_fd ev] else [])) now, w1), k1)))"
| "loop_step S (Serving [] to_remove now) w k =
     Some (Inr (Removing (to_remove @ timed_out (cf_timeout_seconds (se_config S)) now (wk_conns w)), w), k)"
| "loop_step S (Removing (fd # fds)) w k =
     (case remove_conn fd w k of (w1, k1) \<Rightarrow> Some (Inr (Removing fds, w1), k1))"
| "loop_step S (Removing []) w k = Some (Inr (Polling, w), k)"
| "loop_step S Closing w k =
     (case wk_conns w of
        [] \<Rightarrow> Some (Inr (Ended, w), k)
      | (fd, state) # conns \<Rightarrow> Some (Inr (Closing, w\<lparr>wk_conns := conns\<rparr>), sys_close fd (close_sendfile state k)))"
| "loop_step S Ended w k = Some (Inr (Ended, w), k)"

section \<open>The acceptor, step by step\<close>

datatype acceptor_pc = Waiting | Announcing | Stopped

text \<open>Putting the client into the queue, and writing the byte for it, are two steps.\<close>

fun acceptor_step ::
  "setting \<Rightarrow> acceptor_pc \<Rightarrow> (int \<times> string) list \<Rightarrow> kernel \<Rightarrow> (acceptor_pc \<times> (int \<times> string) list \<times> nat) \<times> kernel" where
  "acceptor_step S Waiting q k =
     (case wait_for_accept_or_shutdown (se_net S) (se_os S) (se_shutdown_fd S) k of
        ((listen_readable, shutdown_requested), k1) \<Rightarrow>
          if shutdown_requested then ((Stopped, q, 0), k1)
          else if listen_readable \<and> se_accepting S (k_tick k1)
          then (case accept_connection (se_os S) (se_listen_fd S) k1 of ((client_fd, client_ip), k2) \<Rightarrow>
                  if 0 \<le> client_fd then ((Announcing, q @ [(client_fd, client_ip)], 0), k2)
                  else ((Waiting, q, 0), k2))
          else ((Waiting, q, 0), k1))"
| "acceptor_step S Announcing q k =
     (case sys_write (se_os S) (se_wake_write S) [CHR 0x00] k of
        (Wrote n, k1) \<Rightarrow> ((Waiting, q, n), k1)
      | (Write_fail e, k1) \<Rightarrow> ((Waiting, q, 0), k1))"
| "acceptor_step S Stopped q k = ((Stopped, q, 0), k)"

section \<open>All threads\<close>

record event_loop =
  el_pc :: loop_pc
  el_conns :: "(int \<times> conn_state) list"
  el_poller :: poller

text \<open>\<open>sy_wake\<close> is the number of bytes in the wake pipe; \<open>sy_accepted\<close> and \<open>sy_closed\<close> record the history.\<close>

record loop_system =
  sy_queue :: "(int \<times> string) list"
  sy_wake :: nat
  sy_acceptor :: acceptor_pc
  sy_loops :: "event_loop list"
  sy_kernel :: kernel
  sy_accepted :: "int list"
  sy_closed :: "int list"

definition as_worker :: "(int \<times> string) list \<Rightarrow> event_loop \<Rightarrow> worker" where
  "as_worker q l = \<lparr>wk_queue = q, wk_conns = el_conns l, wk_poller = el_poller l\<rparr>"

definition from_worker :: "loop_pc \<Rightarrow> worker \<Rightarrow> event_loop" where
  "from_worker pc w = \<lparr>el_pc = pc, el_conns = wk_conns w, el_poller = wk_poller w\<rparr>"

definition start_loops :: "setting \<Rightarrow> kernel \<Rightarrow> loop_system" where
  "start_loops S k =
     \<lparr>sy_queue = [], sy_wake = 0, sy_acceptor = Waiting,
      sy_loops = replicate (n_workers (se_config S))
        \<lparr>el_pc = Polling, el_conns = [],
         el_poller = poller_add (se_shutdown_fd S) True False (poller_add (se_wake_read S) True False (\<lambda>_. None))\<rparr>,
      sy_kernel = k, sy_accepted = [], sy_closed = []\<rparr>"

text \<open>The bytes of the wake pipe that a loop has read and not yet handled.\<close>

fun tokens :: "loop_pc \<Rightarrow> nat" where
  "tokens (Draining n evs events) = n"
| "tokens _ = 0"

definition acceptor_moves :: "setting \<Rightarrow> loop_system \<Rightarrow> loop_system" where
  "acceptor_moves S s =
     (case acceptor_step S (sy_acceptor s) (sy_queue s) (sy_kernel s) of ((pc, q, n), k) \<Rightarrow>
        s\<lparr>sy_acceptor := pc, sy_queue := q, sy_wake := sy_wake s + n, sy_kernel := k,
          sy_accepted := sy_accepted s @ map fst (drop (length (sy_queue s)) q)\<rparr>)"

definition loop_moves :: "nat \<Rightarrow> loop_pc \<Rightarrow> worker \<Rightarrow> kernel \<Rightarrow> loop_system \<Rightarrow> loop_system" where
  "loop_moves i pc w k s =
     (let l = sy_loops s ! i
      in s\<lparr>sy_queue := wk_queue w, sy_wake := sy_wake s - (tokens pc - tokens (el_pc l)),
           sy_loops := (sy_loops s)[i := from_worker pc w], sy_kernel := k,
           sy_closed := sy_closed s @ filter (\<lambda>fd. fd \<notin> set (map fst (wk_conns w))) (map fst (el_conns l))\<rparr>)"

text \<open>
  No more bytes come out of the wake pipe than are in it. An exception that leaves a loop ends the
  process, so there is no step for it.
\<close>

inductive system_step :: "setting \<Rightarrow> loop_system \<Rightarrow> loop_system \<Rightarrow> bool" for S :: setting where
  acceptor: "system_step S s (acceptor_moves S s)"
| event_loop: "i < length (sy_loops s) \<Longrightarrow>
    loop_step S (el_pc (sy_loops s ! i)) (as_worker (sy_queue s) (sy_loops s ! i)) (sy_kernel s) = Some (Inr (pc, w), k) \<Longrightarrow>
    tokens pc - tokens (el_pc (sy_loops s ! i)) \<le> sy_wake s \<Longrightarrow>
    system_step S s (loop_moves i pc w k s)"

inductive system_reachable :: "setting \<Rightarrow> kernel \<Rightarrow> loop_system \<Rightarrow> bool" for S :: setting and k0 :: kernel where
  start: "system_reachable S k0 (start_loops S k0)"
| step: "system_reachable S k0 s \<Longrightarrow> system_step S s s' \<Longrightarrow> system_reachable S k0 s'"

section \<open>One loop keeps its invariant at every step\<close>

text \<open>The connections about to be removed need not be live.\<close>

fun doomed :: "loop_pc \<Rightarrow> int set" where
  "doomed (Serving evs to_remove now) = set to_remove"
| "doomed (Removing fds) = set fds"
| "doomed Closing = UNIV"
| "doomed Ended = UNIV"
| "doomed _ = {}"

definition stopping :: "loop_pc \<Rightarrow> bool" where
  "stopping pc \<longleftrightarrow> pc = Closing \<or> pc = Ended"

definition conns_ok :: "int set \<Rightarrow> loop_pc \<Rightarrow> worker \<Rightarrow> bool" where
  "conns_ok pipes pc w \<longleftrightarrow> list_all conn_ok (wk_conns w) \<and> all_live (doomed pc) w
     \<and> (\<not> stopping pc \<longrightarrow> wk_poller w = watched pipes (wk_conns w)) \<and> (pc = Ended \<longrightarrow> wk_conns w = [])"

definition fds_ok :: "kernel \<Rightarrow> int set \<Rightarrow> worker \<Rightarrow> kernel \<Rightarrow> bool" where
  "fds_ok k0 pipes w k \<longleftrightarrow> leaves k0 k (worker_fds w) \<and> list_all (\<lambda>(fd, ip). 0 \<le> fd) (wk_queue w)
     \<and> pipes \<subseteq> set (k_fds k0)"

lemma running_iff: "\<not> stopping pc \<Longrightarrow> fds_ok k0 pipes w k \<and> conns_ok pipes pc w \<longleftrightarrow> worker_ok k0 pipes w k \<and> all_live (doomed pc) w"
  by (auto simp: fds_ok_def conns_ok_def worker_ok_def stopping_def)

lemma stopping_simps [simp]: "stopping Closing" "stopping Ended" "\<not> stopping Polling" "\<not> stopping (Draining n evs events)"
  "\<not> stopping (Serving evs rm now)" "\<not> stopping (Removing fds)"
  by (simp_all add: stopping_def)

lemma loop_step_running:
  assumes "loop_step S pc w k = Some (Inr (pc', w'), k')" "waits (se_os S)" "\<not> stopping pc"
    "worker_ok k0 (se_pipes S) w k" "all_live (doomed pc) w"
  shows "worker_ok k0 (se_pipes S) w' k' \<and> all_live (doomed pc') w'"
proof -
  have keep: "worker_ok k0 (se_pipes S) w k1" if "same_fds k k1" for k1 using worker_ok_same_fds [OF that assms(4)] .
  have more: "all_live (doomed pc) w \<Longrightarrow> doomed pc \<subseteq> A \<Longrightarrow> all_live A w" for A by (auto simp: all_live_def)
  show ?thesis
  proof (cases pc)
    case Polling
    obtain events k1 where p: "sys_poll (se_os S) k = (events, k1)" by fastforce
    have k1: "same_fds k k1" using p by (auto simp: sys_poll_def same_fds_def)
    obtain r k2 where rd: "sys_read (se_os S) (se_shutdown_fd S) 1 k1 = (r, k2)" by fastforce
    have k2: "same_fds k k2" using same_fds_trans [OF k1] same_fds_calls(2) [OF rd] by blast
    show ?thesis using assms(1,5) p rd keep k1 k2 Polling by (auto simp: all_live_def split: if_splits)
  next
    case (Draining n evs events)
    show ?thesis
    proof (cases n)
      case (Suc m)
      obtain w1 k1 where t: "try_accept_from_queue (se_os S) w k = (w1, k1)" by fastforce
      with try_accept_ok [OF t assms(4,5)] assms(1) Draining Suc show ?thesis by auto
    next
      case 0
      obtain r k1 where rd: "sys_read (se_os S) (se_wake_read S) 64 k = (r, k1)" by fastforce
      have k1: "same_fds k k1" using same_fds_calls(2) [OF rd] by blast
      have t: "same_fds k (tick k)" by (simp add: same_fds_def)
      show ?thesis
      proof (cases evs)
        case Nil
        with assms Draining 0 keep [OF t] show ?thesis by (auto simp: sys_time_def)
      next
        case (Cons ev evs')
        with assms Draining 0 keep [OF k1] rd show ?thesis by (auto split: if_splits io_read.splits)
      qed
    qed
  next
    case (Serving evs rm now)
    show ?thesis
    proof (cases evs)
      case Nil
      with assms Serving more show ?thesis by auto
    next
      case (Cons ev evs')
      show ?thesis
      proof (cases "ev_fd ev \<in> se_pipes S")
        case True
        with assms Serving Cons show ?thesis by auto
      next
        case False
        with assms(1) Serving Cons obtain close where
          ev: "connection_event (se_os S) (se_config S) (se_accepting S) ev w k = Some (Inr (close, w'), k')"
          and pc': "pc' = Serving evs' (rm @ (if close then [ev_fd ev] else [])) now"
          by (auto split: option.splits sum.splits)
        have "set rm \<union> (if close then {ev_fd ev} else {}) = doomed pc'" using pc' by simp
        with connection_event_ok [OF ev assms(2,4), of "set rm"] assms(5) Serving show ?thesis by simp
      qed
    qed
  next
    case (Removing fds)
    show ?thesis
    proof (cases fds)
      case Nil
      with assms Removing show ?thesis by auto
    next
      case (Cons fd fds')
      obtain w1 k1 where r: "remove_conn fd w k = (w1, k1)" by fastforce
      note ok = worker_ok_remove [OF assms(4) r]
      have "w' = w1" "k' = k1" "pc' = Removing fds'" using assms(1) Removing Cons r by simp_all
      with ok assms(5) Removing Cons show ?thesis by (auto simp: all_live_def AList.delete_eq)
    qed
  qed (use assms(3) in simp_all)
qed

lemma loop_step_ok:
  assumes "loop_step S pc w k = Some (Inr (pc', w'), k')" "waits (se_os S)"
    "fds_ok k0 (se_pipes S) w k" "conns_ok (se_pipes S) pc w"
  shows "fds_ok k0 (se_pipes S) w' k' \<and> conns_ok (se_pipes S) pc' w'"
proof (cases "stopping pc")
  case False
  then have "worker_ok k0 (se_pipes S) w' k' \<and> all_live (doomed pc') w'"
    using loop_step_running [OF assms(1,2) False] running_iff [OF False] assms(3,4) by blast
  moreover have "pc' \<noteq> Ended"
    using assms(1) False by (cases "(S, pc, w, k)" rule: loop_step.cases)
      (auto simp: Let_def split: prod.splits if_splits option.splits sum.splits io_read.splits)
  ultimately show ?thesis by (auto simp: fds_ok_def conns_ok_def worker_ok_def)
next
  case True
  then consider "pc = Closing" | "pc = Ended" by (auto simp: stopping_def)
  then show ?thesis
  proof cases
    case 1
    show ?thesis
    proof (cases "wk_conns w")
      case Nil
      with 1 assms show ?thesis by (auto simp: conns_ok_def all_live_def)
    next
      case (Cons c conns)
      obtain fd state where c: "c = (fd, state)" by fastforce
      have e: "pc' = Closing" "w' = w\<lparr>wk_conns := conns\<rparr>" "k' = sys_close fd (close_sendfile state k)"
        using assms(1) 1 Cons c by simp_all
      have "leaves k0 k' (conn_fds conns @ map fst (wk_queue w))"
        unfolding e by (rule close_first_leaves) (use assms(3) Cons c in \<open>simp add: fds_ok_def worker_fds_def\<close>)
      then show ?thesis using assms(3,4) e Cons by (auto simp: fds_ok_def conns_ok_def worker_fds_def all_live_def)
    qed
  next
    case 2
    with assms show ?thesis by simp
  qed
qed

section \<open>Where a client goes\<close>

text \<open>
  In a step a loop takes at most one client from the front of the queue, drops at most one of its
  connections, and hands no other on.
\<close>

definition keys :: "worker \<Rightarrow> int list" where
  "keys w = map fst (wk_conns w)"

lemma connection_event_keys:
  assumes "connection_event os cfg acc ev w k = Some (Inr (close, w'), k')"
  shows "keys w' = keys w \<and> wk_queue w' = wk_queue w"
proof (cases "map_of (wk_conns w) (ev_fd ev)")
  case None
  with assms show ?thesis by (simp add: connection_event_def)
next
  case (Some state)
  then have "ev_fd ev \<in> set (map fst (wk_conns w))" by (metis map_of_eq_None_iff option.distinct(1) set_map)
  then have "keys (w\<lparr>wk_conns := AList.update (ev_fd ev) s (wk_conns w), wk_poller := p\<rparr>) = keys w" for s p
    by (simp add: keys_def update_keys)
  with assms Some show ?thesis by (auto simp: connection_event_def split: if_splits option.splits sum.splits)
qed

lemma delete_keys: "map fst (AList.delete fd cs) = filter (\<lambda>x. x \<noteq> fd) (map fst cs)"
  by (induction cs) auto

lemma remove_conn_keys:
  "remove_conn fd w k = (w', k') \<Longrightarrow> keys w' = filter (\<lambda>x. x \<noteq> fd) (keys w) \<and> wk_queue w' = wk_queue w"
proof (cases "map_of (wk_conns w) fd")
  case None
  assume r: "remove_conn fd w k = (w', k')"
  have "fd \<notin> set (keys w)" using None by (simp add: keys_def map_of_eq_None_iff)
  then have "filter (\<lambda>x. x \<noteq> fd) (keys w) = keys w" by (intro filter_True) auto
  with None r show ?thesis by (simp add: remove_conn_def)
qed (auto simp: remove_conn_def keys_def delete_keys)

lemma fds_ok_distinct: "fds_ok k0 pipes w k \<Longrightarrow> distinct (keys w)"
  using conn_fds_distinct [of "wk_conns w"] by (auto simp: fds_ok_def leaves_def worker_fds_def keys_def)

lemma loop_step_moves:
  assumes "loop_step S pc w k = Some (Inr (pc', w'), k')" "fds_ok k0 (se_pipes S) w k"
  obtains (same) "keys w' = keys w" "wk_queue w' = wk_queue w" "tokens pc \<le> tokens pc'"
    | (starved) "keys w' = keys w" "wk_queue w = []" "wk_queue w' = []" "tokens pc = Suc (tokens pc')"
    | (taken) fd ip where "wk_queue w = (fd, ip) # wk_queue w'" "keys w' = keys w @ [fd]" "fd \<notin> set (keys w)"
        "tokens pc = Suc (tokens pc')"
    | (dropped) fd where "keys w' = filter (\<lambda>x. x \<noteq> fd) (keys w)" "wk_queue w' = wk_queue w" "tokens pc \<le> tokens pc'"
proof (cases "(S, pc, w, k)" rule: loop_step.cases)
  case (2 S n evs events w k)
  obtain w1 k1 where t: "try_accept_from_queue (se_os S) w k = (w1, k1)" by fastforce
  then have e: "w' = w1" "tokens pc = Suc (tokens pc')" using assms(1) 2 by auto
  show thesis
  proof (cases "wk_queue w")
    case Nil
    with t e 2 show thesis by (intro starved) (auto simp: try_accept_from_queue_def)
  next
    case (Cons c rest)
    obtain fd ip where c: "c = (fd, ip)" by fastforce
    have fd: "0 \<le> fd" using assms(2) Cons c 2 by (simp add: fds_ok_def)
    have new: "fd \<notin> set (map fst (wk_conns w))"
      using assms(2) Cons c 2 conn_keys [of fd "wk_conns w"] by (auto simp: fds_ok_def leaves_def worker_fds_def)
    have "wk_queue w' = rest" "keys w' = keys w @ [fd]"
      using t e Cons c fd update_new [OF new] by (auto simp: try_accept_from_queue_def sys_time_def keys_def)
    then show thesis using taken [of fd ip] Cons c new e 2 by (simp add: keys_def)
  qed
next
  case (5 S ev evs to_remove now w k)
  show thesis
  proof (cases "ev_fd ev \<in> se_pipes S")
    case True
    with assms(1) 5 same show thesis by auto
  next
    case False
    with assms(1) 5 obtain close where
      "connection_event (se_os S) (se_config S) (se_accepting S) ev w k = Some (Inr (close, w'), k')"
      by (auto split: option.splits sum.splits)
    from connection_event_keys [OF this] 5 same show thesis by auto
  qed
next
  case (7 S fd fds w k)
  obtain w1 k1 where r: "remove_conn fd w k = (w1, k1)" by fastforce
  with remove_conn_keys [OF r] assms(1) 7 show thesis by (intro dropped [of fd]) auto
next
  case (9 S w k)
  show thesis
  proof (cases "wk_conns w")
    case Nil
    with assms(1) 9 same show thesis by auto
  next
    case (Cons c conns)
    obtain fd state where c: "c = (fd, state)" by fastforce
    have "keys w = fd # map fst conns" "fd \<notin> set (map fst conns)"
      using fds_ok_distinct [OF assms(2)] Cons c 9 by (auto simp: keys_def)
    moreover have "w' = w\<lparr>wk_conns := conns\<rparr>" using assms(1) 9 Cons c by simp
    moreover have "filter (\<lambda>x. x \<noteq> fd) (map fst conns) = map fst conns" using calculation(2) by (intro filter_True) auto
    ultimately show thesis using 9 by (intro dropped [of fd]) (auto simp: keys_def)
  qed
qed (use assms(1) same in \<open>auto simp: Let_def split: prod.splits if_splits io_read.splits\<close>)

lemma split_keys: "mset xs = mset (filter (\<lambda>x. x \<in> A) xs) + mset (filter (\<lambda>x. x \<notin> A) xs)"
  by (simp add: multiset_partition [symmetric])

lemma loop_step_clients:
  assumes "loop_step S pc w k = Some (Inr (pc', w'), k')" "fds_ok k0 (se_pipes S) w k"
  shows "\<exists>popped. wk_queue w = popped @ wk_queue w'
    \<and> mset (map fst popped) + mset (keys w) = mset (keys w') + mset (filter (\<lambda>fd. fd \<notin> set (keys w')) (keys w))
    \<and> (tokens pc \<le> length (wk_queue w) \<longrightarrow> length popped = tokens pc - tokens pc')"
proof (rule loop_step_moves [OF assms], goal_cases)
  case 1
  then show ?case by (intro exI [of _ "[]"]) simp
next
  case 2
  then show ?case by (intro exI [of _ "[]"]) simp
next
  case (3 fd ip)
  then have "filter (\<lambda>fd. fd \<notin> set (keys w')) (keys w) = []" by (simp add: filter_empty_conv)
  with 3 show ?case by (intro exI [of _ "[(fd, ip)]"]) simp
next
  case (4 fd)
  then have "filter (\<lambda>fd. fd \<in> set (keys w')) (keys w) = keys w'" by (auto intro: filter_cong)
  with split_keys [of "keys w" "set (keys w')"] 4(2,3) show ?case by (intro exI [of _ "[]"]) (simp only:, simp)
qed

section \<open>All threads keep the invariant\<close>

definition served_fds :: "event_loop list \<Rightarrow> int list" where
  "served_fds ls = concat (map (\<lambda>l. conn_fds (el_conns l)) ls)"

definition clients :: "event_loop list \<Rightarrow> int list" where
  "clients ls = concat (map (\<lambda>l. map fst (el_conns l)) ls)"

definition owned_fds :: "loop_system \<Rightarrow> int list" where
  "owned_fds s = served_fds (sy_loops s) @ map fst (sy_queue s)"

definition all_tokens :: "event_loop list \<Rightarrow> nat" where
  "all_tokens ls = sum_list (map (\<lambda>l. tokens (el_pc l)) ls)"

definition announcing :: "acceptor_pc \<Rightarrow> nat" where
  "announcing pc = (if pc = Announcing then 1 else 0)"

definition system_ok :: "setting \<Rightarrow> kernel \<Rightarrow> loop_system \<Rightarrow> bool" where
  "system_ok S k0 s \<longleftrightarrow> leaves k0 (sy_kernel s) (owned_fds s) \<and> list_all (\<lambda>(fd, ip). 0 \<le> fd) (sy_queue s)
     \<and> (\<forall>l \<in> set (sy_loops s). conns_ok (se_pipes S) (el_pc l) (as_worker [] l))"

definition history_ok :: "loop_system \<Rightarrow> bool" where
  "history_ok s \<longleftrightarrow> (\<exists>taken. sy_accepted s = taken @ map fst (sy_queue s)
     \<and> mset taken = mset (clients (sy_loops s)) + mset (sy_closed s))"

definition tokens_ok :: "loop_system \<Rightarrow> bool" where
  "tokens_ok s \<longleftrightarrow> length (sy_queue s) = sy_wake s + all_tokens (sy_loops s) + announcing (sy_acceptor s)"

text \<open>One byte can always be written to the wake pipe, if only after waiting.\<close>

definition wakes :: "setting \<Rightarrow> bool" where
  "wakes S \<longleftrightarrow> (\<forall>t. \<exists>n > 0. os_write (se_os S) t (se_wake_write S) = Wrote n)"

lemma loops_simps [simp]:
  "served_fds [] = []" "served_fds (l # ls) = conn_fds (el_conns l) @ served_fds ls" "served_fds (us @ vs) = served_fds us @ served_fds vs"
  "clients [] = []" "clients (l # ls) = map fst (el_conns l) @ clients ls" "clients (us @ vs) = clients us @ clients vs"
  "all_tokens [] = 0" "all_tokens (l # ls) = tokens (el_pc l) + all_tokens ls" "all_tokens (us @ vs) = all_tokens us + all_tokens vs"
  by (simp_all add: served_fds_def clients_def all_tokens_def)

lemma as_worker_simps [simp]:
  "wk_queue (as_worker q l) = q" "wk_conns (as_worker q l) = el_conns l" "wk_poller (as_worker q l) = el_poller l"
  "keys (as_worker q l) = map fst (el_conns l)" "worker_fds (as_worker q l) = conn_fds (el_conns l) @ map fst q"
  by (simp_all add: as_worker_def keys_def worker_fds_def)

lemma from_worker_simps [simp]:
  "el_pc (from_worker pc w) = pc" "el_conns (from_worker pc w) = wk_conns w" "el_poller (from_worker pc w) = wk_poller w"
  by (simp_all add: from_worker_def)

lemma conns_ok_queue: "wk_conns w = wk_conns w' \<Longrightarrow> wk_poller w = wk_poller w' \<Longrightarrow> conns_ok pipes pc w = conns_ok pipes pc w'"
  by (simp add: conns_ok_def all_live_def)

lemma acceptor_step_cases:
  assumes "acceptor_step S pc q k = ((pc', q', n), k')" "kernel_ok k"
  shows "\<exists>new. q' = q @ new \<and> leaves k k' (map fst new) \<and> list_all (\<lambda>(fd, ip). 0 \<le> fd) new
    \<and> (wakes S \<longrightarrow> length new + announcing pc = n + announcing pc')"
proof (cases pc)
  case Waiting
  obtain lr sr k1 where w: "wait_for_accept_or_shutdown (se_net S) (se_os S) (se_shutdown_fd S) k = ((lr, sr), k1)"
    by (metis prod.collapse)
  have "same_fds k k1" by (rule wait_same_fds [OF w])
  then have l1: "leaves k k1 []" using same_fds_leaves [of k k1 k "[]"] assms(2) by simp
  show ?thesis
  proof (cases "\<not> sr \<and> lr \<and> se_accepting S (k_tick k1)")
    case False
    then have "pc' \<noteq> Announcing" "q' = q" "k' = k1" "n = 0" using assms(1) w Waiting by (simp_all split: if_splits)
    then show ?thesis using l1 Waiting by (intro exI [of _ "[]"]) (simp add: announcing_def)
  next
    case True
    obtain fd ip k2 where a: "accept_connection (se_os S) (se_listen_fd S) k1 = ((fd, ip), k2)" by (metis prod.collapse)
    have acc: "if fd < 0 then leaves k1 k2 [] else leaves k1 k2 [fd]"
      using accept_connection_leaves [OF a leaves_ok [OF l1]] by (cases "fd < 0") auto
    show ?thesis
    proof (cases "0 \<le> fd")
      case neg: False
      then have "pc' = Waiting" "q' = q" "k' = k2" "n = 0" using assms(1) w a Waiting True by simp_all
      then show ?thesis using acc neg leaves_trans [OF l1, of k2 "[]"] Waiting by (intro exI [of _ "[]"]) (simp add: announcing_def)
    next
      case client: True
      then have "pc' = Announcing" "q' = q @ [(fd, ip)]" "n = 0" "k' = k2" using assms(1) w a Waiting True by auto
      then show ?thesis using acc client leaves_trans [OF l1, of k2 "[fd]"] Waiting
        by (intro exI [of _ "[(fd, ip)]"]) (simp add: announcing_def)
    qed
  qed
next
  case Announcing
  obtain r k1 where wr: "sys_write (se_os S) (se_wake_write S) [CHR 0x00] k = (r, k1)" by fastforce
  then have "same_fds k k1" using same_fds_calls(1) by blast
  then have l1: "leaves k k1 []" using same_fds_leaves [of k k1 k "[]"] assms(2) by simp
  have "\<exists>m. r = Wrote m \<and> m = 1" if up: "wakes S"
  proof -
    obtain m where "0 < m" "os_write (se_os S) (k_tick k) (se_wake_write S) = Wrote m" using up by (auto simp: wakes_def)
    then show ?thesis using wr by (auto simp: sys_write_def)
  qed
  moreover have "q' = q" "k' = k1" "pc' = Waiting" "n = (case r of Wrote m \<Rightarrow> m | Write_fail e \<Rightarrow> 0)"
    using assms(1) wr Announcing by (simp_all split: io_write.splits)
  ultimately show ?thesis using l1 Announcing by (intro exI [of _ "[]"]) (auto simp: announcing_def)
next
  case Stopped
  then show ?thesis using assms by (intro exI [of _ "[]"]) (simp add: announcing_def)
qed

lemma acceptor_moves_ok:
  assumes "system_ok S k0 s"
  shows "system_ok S k0 (acceptor_moves S s)"
    and "history_ok s \<Longrightarrow> history_ok (acceptor_moves S s)"
    and "wakes S \<Longrightarrow> tokens_ok s \<Longrightarrow> tokens_ok (acceptor_moves S s)"
proof -
  have l: "leaves k0 (sy_kernel s) (owned_fds s)" using assms by (simp add: system_ok_def)
  obtain pc q n k where a: "acceptor_step S (sy_acceptor s) (sy_queue s) (sy_kernel s) = ((pc, q, n), k)"
    by (metis prod.collapse)
  obtain new where new: "q = sy_queue s @ new" "leaves (sy_kernel s) k (map fst new)" "list_all (\<lambda>(fd, ip). 0 \<le> fd) new"
    "wakes S \<longrightarrow> length new + announcing (sy_acceptor s) = n + announcing pc"
    using acceptor_step_cases [OF a leaves_ok [OF l]] by blast
  have s': "acceptor_moves S s = s\<lparr>sy_acceptor := pc, sy_queue := sy_queue s @ new, sy_wake := sy_wake s + n,
      sy_kernel := k, sy_accepted := sy_accepted s @ map fst new\<rparr>"
    using a new(1) by (simp add: acceptor_moves_def)
  show "system_ok S k0 (acceptor_moves S s)"
    using assms leaves_trans [OF l new(2)] new(3) by (simp add: system_ok_def s' owned_fds_def)
  show "history_ok s \<Longrightarrow> history_ok (acceptor_moves S s)" by (auto simp: history_ok_def s')
  show "wakes S \<Longrightarrow> tokens_ok s \<Longrightarrow> tokens_ok (acceptor_moves S s)" using new(4) by (simp add: tokens_ok_def s')
qed

lemma loop_moves_ok:
  assumes "i < length (sy_loops s)"
    "loop_step S (el_pc (sy_loops s ! i)) (as_worker (sy_queue s) (sy_loops s ! i)) (sy_kernel s) = Some (Inr (pc, w), k)"
    "tokens pc - tokens (el_pc (sy_loops s ! i)) \<le> sy_wake s"
    "system_ok S k0 s" "waits (se_os S)" "se_pipes S \<subseteq> set (k_fds k0)"
  shows "system_ok S k0 (loop_moves i pc w k s)"
    and "history_ok s \<Longrightarrow> history_ok (loop_moves i pc w k s)"
    and "tokens_ok s \<Longrightarrow> tokens_ok (loop_moves i pc w k s)"
proof -
  obtain us l vs where ls: "sy_loops s = us @ l # vs" "sy_loops s ! i = l" "\<And>x. (sy_loops s)[i := x] = us @ x # vs"
    using list_update_split [OF assms(1) refl] by metis
  let ?w = "as_worker (sy_queue s) l"
  let ?rest = "served_fds us @ served_fds vs"
  have step: "loop_step S (el_pc l) ?w (sy_kernel s) = Some (Inr (pc, w), k)" using assms(2) ls(2) by simp
  have "leaves k0 (sy_kernel s) (owned_fds s)" using assms(4) by (simp add: system_ok_def)
  then have l: "leaves k0 (sy_kernel s) (?rest @ worker_fds ?w)"
    by (subst leaves_mset [of _ "owned_fds s"]) (simp_all add: owned_fds_def ls(1))
  then have rest: "distinct ?rest" "set ?rest \<inter> set (k_fds k0) = {}" by (auto simp: leaves_def simp del: set_map)
  have fds: "fds_ok (plus_fds ?rest k0) (se_pipes S) ?w (sy_kernel s)"
    using l assms(4,6) unfolding fds_ok_def leaves_frame [OF rest] plus_fds_set by (auto simp: system_ok_def)
  have conns: "conns_ok (se_pipes S) (el_pc l) ?w"
    using assms(4) ls(1) conns_ok_queue [of ?w "as_worker [] l"] by (simp add: system_ok_def)
  have ok: "fds_ok (plus_fds ?rest k0) (se_pipes S) w k" "conns_ok (se_pipes S) pc w"
    using loop_step_ok [OF step assms(5) fds conns] by simp_all
  have s': "loop_moves i pc w k s = s\<lparr>sy_queue := wk_queue w, sy_wake := sy_wake s - (tokens pc - tokens (el_pc l)),
      sy_loops := us @ from_worker pc w # vs, sy_kernel := k,
      sy_closed := sy_closed s @ filter (\<lambda>fd. fd \<notin> set (keys w)) (keys ?w)\<rparr>"
    using ls by (simp add: loop_moves_def keys_def)
  have "leaves k0 k (?rest @ worker_fds w)" using ok(1) unfolding fds_ok_def leaves_frame [OF rest] by simp
  then have "leaves k0 k (owned_fds (loop_moves i pc w k s))"
    by (subst leaves_mset [of _ "?rest @ worker_fds w"]) (simp_all add: owned_fds_def worker_fds_def s')
  moreover have "conns_ok (se_pipes S) pc (as_worker [] (from_worker pc w))"
    using ok(2) conns_ok_queue [of w "as_worker [] (from_worker pc w)"] by simp
  ultimately show "system_ok S k0 (loop_moves i pc w k s)"
    using assms(4) ok(1) ls(1) by (auto simp: system_ok_def fds_ok_def s')
  obtain popped where p: "sy_queue s = popped @ wk_queue w"
    "mset (map fst popped) + mset (keys ?w) = mset (keys w) + mset (filter (\<lambda>fd. fd \<notin> set (keys w)) (keys ?w))"
    "tokens (el_pc l) \<le> length (sy_queue s) \<longrightarrow> length popped = tokens (el_pc l) - tokens pc"
    using loop_step_clients [OF step fds] by auto
  show "history_ok (loop_moves i pc w k s)" if h: "history_ok s"
  proof -
    obtain taken where t: "sy_accepted s = taken @ map fst (sy_queue s)"
      "mset taken = mset (clients (sy_loops s)) + mset (sy_closed s)" using h by (auto simp: history_ok_def)
    have "mset (taken @ map fst popped) = mset (clients us) + mset (clients vs) + mset (sy_closed s)
        + (mset (map fst popped) + mset (keys ?w))"
      by (simp add: t(2) ls(1) del: mset_map)
    then have "mset (taken @ map fst popped)
        = mset (clients (sy_loops (loop_moves i pc w k s))) + mset (sy_closed (loop_moves i pc w k s))"
      unfolding p(2) by (simp add: s' keys_def del: mset_map mset_filter)
    then show ?thesis unfolding history_ok_def
      by (intro exI [of _ "taken @ map fst popped"]) (simp add: s' t(1) p(1) del: mset_append)
  qed
  show "tokens_ok (loop_moves i pc w k s)" if "tokens_ok s"
    using that p(1,3) assms(3) ls(1,2) by (simp add: tokens_ok_def s')
qed

section \<open>The steps of one loop are the loop of the code\<close>

inductive loop_rel :: "setting \<Rightarrow> loop_pc \<times> worker \<times> kernel \<Rightarrow> loop_pc \<times> worker \<times> kernel \<Rightarrow> bool" for S :: setting where
  "pc \<noteq> Ended \<Longrightarrow> loop_step S pc w k = Some (Inr (pc', w'), k') \<Longrightarrow> loop_rel S (pc, w, k) (pc', w', k')"

inductive_simps loop_rel_simps: "loop_rel S (pc, w, k) (pc', w', k')"

abbreviation loop_run :: "setting \<Rightarrow> loop_pc \<times> worker \<times> kernel \<Rightarrow> loop_pc \<times> worker \<times> kernel \<Rightarrow> bool" where
  "loop_run S \<equiv> (loop_rel S)\<^sup>*\<^sup>*"

lemma loop_run_step:
  "pc \<noteq> Ended \<Longrightarrow> loop_step S pc w k = Some (Inr (pc1, w1), k1) \<Longrightarrow> loop_run S (pc1, w1, k1) c \<Longrightarrow> loop_run S (pc, w, k) c"
  by (meson converse_rtranclp_into_rtranclp loop_rel.intros)

lemma run_pops:
  "((\<lambda>(w, k). try_accept_from_queue (se_os S) w k) ^^ n) (w, k) = (w', k')
   \<Longrightarrow> loop_run S (Draining n evs events, w, k) (Draining 0 evs events, w', k')"
proof (induction n arbitrary: w k)
  case (Suc n)
  obtain w1 k1 where t: "try_accept_from_queue (se_os S) w k = (w1, k1)" by fastforce
  have "((\<lambda>(w, k). try_accept_from_queue (se_os S) w k) ^^ n) (w1, k1) = (w', k')"
    using Suc.prems t by (simp add: funpow_swap1)
  from Suc.IH [OF this] show ?case by (rule loop_run_step [rotated 2]) (simp_all add: t)
qed simp

lemma run_drain:
  assumes "drain_wake_pipe (se_os S) (se_wake_read S) w k = Some (w', k')"
    and ev: "ev_fd ev = se_wake_read S" "ev_readable ev"
  shows "loop_run S (Draining 0 (ev # evs) events, w, k) (Draining 0 evs events, w', k')"
proof -
  let ?P = "\<lambda>os fd w k r. os = se_os S \<and> fd = se_wake_read S \<longrightarrow>
      loop_run S (Draining 0 (ev # evs) events, w, k) (Draining 0 evs events, fst r, snd r)"
  have "?P (se_os S) (se_wake_read S) w k (w', k')"
  proof (rule drain_wake_pipe.raw_induct [where P = ?P, OF _ assms(1)], rule impI)
    fix f os fd w k r
    assume IH: "\<And>os fd w k r. f os fd w k = Some r \<Longrightarrow> ?P os fd w k r"
      and eq: "(case sys_read os fd 64 k of
          (Got s, k1) \<Rightarrow>
            if s = [] then Some (w, k1)
            else (case ((\<lambda>(w, k). try_accept_from_queue os w k) ^^ length s) (w, k1) of (w2, k2) \<Rightarrow> f os fd w2 k2)
        | (Read_fail e, k1) \<Rightarrow> Some (w, k1)) = Some r"
      and h: "os = se_os S \<and> fd = se_wake_read S"
    obtain x k1 where rd: "sys_read os fd 64 k = (x, k1)" by fastforce
    show "loop_run S (Draining 0 (ev # evs) events, w, k) (Draining 0 evs events, fst r, snd r)"
    proof (cases "\<exists>s. x = Got s \<and> s \<noteq> []")
      case True
      then obtain s where s: "x = Got s" "s \<noteq> []" by blast
      obtain w2 k2 where p: "((\<lambda>(w, k). try_accept_from_queue os w k) ^^ length s) (w, k1) = (w2, k2)" by fastforce
      have "f os fd w2 k2 = Some r" using eq rd s p by simp
      then have "loop_run S (Draining 0 (ev # evs) events, w2, k2) (Draining 0 evs events, fst r, snd r)" using IH h by blast
      with run_pops [of "length s" S w k1 w2 k2 "ev # evs" events] p h
      have "loop_run S (Draining (length s) (ev # evs) events, w, k1) (Draining 0 evs events, fst r, snd r)" by simp
      then show ?thesis by (rule loop_run_step [rotated 2]) (use rd s ev h in simp_all)
    next
      case False
      then have "r = (w, k1)" "loop_step S (Draining 0 (ev # evs) events) w k = Some (Inr (Draining 0 evs events, w), k1)"
        using eq rd ev h by (cases x; auto)+
      then show ?thesis using loop_run_step [of "Draining 0 (ev # evs) events"] by fastforce
    qed
  qed
  then show ?thesis by simp
qed

lemma run_accept:
  "accept_events (se_os S) (se_wake_read S) evs w k = Some (w', k')
   \<Longrightarrow> loop_run S (Draining 0 evs events, w, k) (Draining 0 [] events, w', k')"
proof (induction evs arbitrary: w k)
  case (Cons ev evs)
  show ?case
  proof (cases "ev_fd ev = se_wake_read S \<and> ev_readable ev")
    case True
    with Cons.prems obtain w1 k1 where d: "drain_wake_pipe (se_os S) (se_wake_read S) w k = Some (w1, k1)"
      "accept_events (se_os S) (se_wake_read S) evs w1 k1 = Some (w', k')"
      by (auto split: option.splits)
    from rtranclp_trans [OF run_drain [OF d(1)] Cons.IH [OF d(2)]] True show ?thesis by blast
  next
    case False
    with Cons.prems have "accept_events (se_os S) (se_wake_read S) evs w k = Some (w', k')" by auto
    from Cons.IH [OF this] show ?thesis by (rule loop_run_step [rotated 2]) (use False in auto)
  qed
qed simp

lemma run_serve:
  "connection_events (se_os S) (se_config S) (se_accepting S) (se_pipes S) evs w k = Some (Inr (to_remove, w'), k')
   \<Longrightarrow> loop_run S (Serving evs rm now, w, k) (Serving [] (rm @ to_remove) now, w', k')"
proof (induction evs arbitrary: w k rm to_remove)
  case (Cons ev evs)
  show ?case
  proof (cases "ev_fd ev \<in> se_pipes S")
    case True
    with Cons.prems have "connection_events (se_os S) (se_config S) (se_accepting S) (se_pipes S) evs w k
        = Some (Inr (to_remove, w'), k')" by simp
    from Cons.IH [OF this] show ?thesis by (rule loop_run_step [rotated 2]) (use True in simp_all)
  next
    case False
    with Cons.prems obtain close w1 k1 rest where
      ev: "connection_event (se_os S) (se_config S) (se_accepting S) ev w k = Some (Inr (close, w1), k1)" and
      rest: "connection_events (se_os S) (se_config S) (se_accepting S) (se_pipes S) evs w1 k1 = Some (Inr (rest, w'), k')"
        "to_remove = (if close then [ev_fd ev] else []) @ rest"
      by (auto split: option.splits sum.splits)
    from Cons.IH [OF rest(1), of "rm @ (if close then [ev_fd ev] else [])"]
    have "loop_run S (Serving evs (rm @ (if close then [ev_fd ev] else [])) now, w1, k1)
        (Serving [] (rm @ to_remove) now, w', k')" by (simp add: rest(2))
    then show ?thesis by (rule loop_run_step [rotated 2]) (use False ev in simp_all)
  qed
qed simp

lemma run_remove:
  "remove_conns fds w k = (w', k') \<Longrightarrow> loop_run S (Removing fds, w, k) (Polling, w', k')"
proof (induction fds arbitrary: w k)
  case Nil
  then show ?case by (auto intro!: loop_run_step [OF _ _ rtranclp.rtrancl_refl])
next
  case (Cons fd fds)
  obtain w1 k1 where r: "remove_conn fd w k = (w1, k1)" by fastforce
  with Cons.prems have "remove_conns fds w1 k1 = (w', k')" by simp
  from Cons.IH [OF this] show ?case by (rule loop_run_step [rotated 2]) (simp_all add: r)
qed

lemma run_close:
  "loop_run S (Closing, w, k) (Ended, w\<lparr>wk_conns := []\<rparr>, close_conns (wk_conns w) k)"
proof (induction "wk_conns w" arbitrary: w k)
  case Nil
  then have "w\<lparr>wk_conns := []\<rparr> = w" by (cases w) simp
  then show ?case using Nil by (auto intro!: loop_run_step [OF _ _ rtranclp.rtrancl_refl] simp: Nil [symmetric])
next
  case (Cons c conns)
  obtain fd state where c: "c = (fd, state)" by fastforce
  from Cons.hyps(1) [of "w\<lparr>wk_conns := conns\<rparr>" "sys_close fd (close_sendfile state k)"]
  have "loop_run S (Closing, w\<lparr>wk_conns := conns\<rparr>, sys_close fd (close_sendfile state k))
      (Ended, w\<lparr>wk_conns := []\<rparr>, close_conns (wk_conns w) k)" by (simp add: Cons.hyps(2) [symmetric] c)
  then show ?case by (rule loop_run_step [rotated 2]) (simp_all add: Cons.hyps(2) [symmetric] c)
qed

lemma run_round:
  assumes "worker_round (se_os S) (se_config S) (se_accepting S) (se_wake_read S) (se_shutdown_fd S) w k
      = Some (Inr (shutdown, w'), k')"
  shows "loop_run S (Polling, w, k) (if shutdown then Closing else Polling, w', k')"
proof -
  obtain events k1 where poll: "sys_poll (se_os S) k = (events, k1)" by fastforce
  show ?thesis
  proof (cases "\<exists>ev \<in> set events. ev_fd ev = se_shutdown_fd S \<and> ev_readable ev")
    case True
    with assms poll have "shutdown" "loop_step S Polling w k = Some (Inr (Closing, w'), k')"
      by (simp_all add: worker_round_def)
    then show ?thesis by (auto intro: loop_run_step [OF _ _ rtranclp.rtrancl_refl])
  next
    case False
    with assms poll obtain w2 k2 where acc: "accept_events (se_os S) (se_wake_read S) events w k1 = Some (w2, k2)"
      by (auto simp: worker_round_def split: option.splits)
    obtain now k3 where now: "sys_time (se_os S) k2 = (now, k3)" by fastforce
    have "worker_round (se_os S) (se_config S) (se_accepting S) (se_wake_read S) (se_shutdown_fd S) w k =
      (case connection_events (se_os S) (se_config S) (se_accepting S) {se_wake_read S, se_shutdown_fd S} events w2 k3 of
        None \<Rightarrow> None
      | Some (Inl e, k4) \<Rightarrow> Some (Inl e, k4)
      | Some (Inr (to_remove, w4), k4) \<Rightarrow>
          (case remove_conns (to_remove @ timed_out (cf_timeout_seconds (se_config S)) now (wk_conns w4)) w4 k4 of
             (w5, k5) \<Rightarrow> Some (Inr (False, w5), k5)))"
      unfolding worker_round_def poll prod.case Let_def if_not_P [OF False] acc option.case now by (rule refl)
    with assms obtain to_remove w4 k4 where
      ev: "connection_events (se_os S) (se_config S) (se_accepting S) (se_pipes S) events w2 k3 = Some (Inr (to_remove, w4), k4)"
      and rm: "remove_conns (to_remove @ timed_out (cf_timeout_seconds (se_config S)) now (wk_conns w4)) w4 k4 = (w', k')"
      and shutdown: "\<not> shutdown"
      by (auto simp: se_pipes_def split: option.splits sum.splits prod.splits)
    have "loop_run S (Serving [] to_remove now, w4, k4) (Polling, w', k')"
      by (rule loop_run_step [OF _ _ run_remove [OF rm]]) simp_all
    then have "loop_run S (Serving events [] now, w2, k3) (Polling, w', k')"
      using run_serve [OF ev, of "[]" now] by (metis append_Nil rtranclp_trans)
    then have "loop_run S (Draining 0 [] events, w2, k2) (Polling, w', k')"
      by (rule loop_run_step [rotated 2]) (simp_all add: now)
    with run_accept [OF acc] have "loop_run S (Draining 0 events events, w, k1) (Polling, w', k')"
      by (rule rtranclp_trans)
    then have "loop_run S (Polling, w, k) (Polling, w', k')"
      by (rule loop_run_step [rotated 2]) (use poll False in auto)
    then show ?thesis using shutdown by simp
  qed
qed

lemma run_loop:
  assumes "worker_loop (se_os S) (se_config S) (se_accepting S) (se_wake_read S) (se_shutdown_fd S) w k = Some (Inr w', k')"
  shows "loop_run S (Polling, w, k) (Ended, w', k')"
proof -
  let ?h = "\<lambda>os cfg acc a b. os = se_os S \<and> cfg = se_config S \<and> acc = se_accepting S \<and> a = se_wake_read S \<and> b = se_shutdown_fd S"
  let ?P = "\<lambda>os cfg acc a b w k (res :: (cxx_exn + worker) \<times> kernel). ?h os cfg acc a b \<longrightarrow>
      (\<forall>w'. fst res = Inr w' \<longrightarrow> loop_run S (Polling, w, k) (Ended, w', snd res))"
  have "?P (se_os S) (se_config S) (se_accepting S) (se_wake_read S) (se_shutdown_fd S) w k (Inr w', k')"
  proof (rule worker_loop.raw_induct [where P = ?P, OF _ assms], intro impI allI)
    fix f os cfg acc a b w k res w'
    assume IH: "\<And>os cfg acc a b w k res. f os cfg acc a b w k = Some res \<Longrightarrow> ?P os cfg acc a b w k res"
      and eq: "(case worker_round os cfg acc a b w k of
          None \<Rightarrow> None
        | Some (Inl e, k1) \<Rightarrow> Some (Inl e, k1)
        | Some (Inr (shutdown, w1), k1) \<Rightarrow>
            if shutdown then Some (Inr (w1\<lparr>wk_conns := []\<rparr>), close_conns (wk_conns w1) k1)
            else f os cfg acc a b w1 k1) = Some res"
      and h: "?h os cfg acc a b" and w': "fst res = Inr w'"
    obtain shutdown w1 k1 where rd: "worker_round os cfg acc a b w k = Some (Inr (shutdown, w1), k1)"
    proof (cases "worker_round os cfg acc a b w k")
      case None
      with eq show thesis by simp
    next
      case (Some rk)
      obtain r k1 where rk: "rk = (r, k1)" by fastforce
      show thesis
      proof (cases r)
        case (Inl e)
        with Some rk eq w' show thesis by auto
      next
        case (Inr x)
        then obtain b w1 where "r = Inr (b, w1)" by (cases x) auto
        with Some rk show thesis using that by simp
      qed
    qed
    have run: "loop_run S (Polling, w, k) (if shutdown then Closing else Polling, w1, k1)"
      by (rule run_round) (use rd h in simp)
    show "loop_run S (Polling, w, k) (Ended, w', snd res)"
    proof (cases shutdown)
      case True
      with eq rd have "res = (Inr (w1\<lparr>wk_conns := []\<rparr>), close_conns (wk_conns w1) k1)" by simp
      with run True w' rtranclp_trans [OF _ run_close, of S "(Polling, w, k)" w1 k1] show ?thesis by simp
    next
      case False
      with eq rd have "f os cfg acc a b w1 k1 = Some res" by simp
      from IH [OF this] h w' have "loop_run S (Polling, w1, k1) (Ended, w', snd res)" by blast
      with run False show ?thesis by simp
    qed
  qed
  then show ?thesis by simp
qed

text \<open>
  Conversely: what is left of the loop at each value of the program counter, in terms of the functions
  of \<open>Event_Loop\<close>. A step does not change it.
\<close>

fun after_removal :: "setting \<Rightarrow> worker \<times> kernel \<Rightarrow> ((cxx_exn + worker) \<times> kernel) option" where
  "after_removal S (w, k) =
     worker_loop (se_os S) (se_config S) (se_accepting S) (se_wake_read S) (se_shutdown_fd S) w k"

definition after_serving ::
  "setting \<Rightarrow> int list \<Rightarrow> int \<Rightarrow> ((cxx_exn + int list \<times> worker) \<times> kernel) option \<Rightarrow> ((cxx_exn + worker) \<times> kernel) option" where
  "after_serving S rm now r =
     (case r of
        None \<Rightarrow> None
      | Some (Inl e, k) \<Rightarrow> Some (Inl e, k)
      | Some (Inr (to_remove, w), k) \<Rightarrow>
          after_removal S (remove_conns (rm @ to_remove @ timed_out (cf_timeout_seconds (se_config S)) now (wk_conns w)) w k))"

definition after_draining ::
  "setting \<Rightarrow> poll_event list \<Rightarrow> (worker \<times> kernel) option \<Rightarrow> ((cxx_exn + worker) \<times> kernel) option" where
  "after_draining S events r =
     (case r of
        None \<Rightarrow> None
      | Some (w, k) \<Rightarrow>
          (case sys_time (se_os S) k of (now, k1) \<Rightarrow>
             after_serving S [] now
               (connection_events (se_os S) (se_config S) (se_accepting S) (se_pipes S) events w k1)))"

fun rest_of_loop :: "setting \<Rightarrow> loop_pc \<Rightarrow> worker \<Rightarrow> kernel \<Rightarrow> ((cxx_exn + worker) \<times> kernel) option" where
  "rest_of_loop S Polling w k = after_removal S (w, k)"
| "rest_of_loop S (Draining n evs events) w k =
     (case ((\<lambda>(w, k). try_accept_from_queue (se_os S) w k) ^^ n) (w, k) of (w1, k1) \<Rightarrow>
        after_draining S events (accept_events (se_os S) (se_wake_read S) evs w1 k1))"
| "rest_of_loop S (Serving evs rm now) w k =
     after_serving S rm now (connection_events (se_os S) (se_config S) (se_accepting S) (se_pipes S) evs w k)"
| "rest_of_loop S (Removing fds) w k = after_removal S (remove_conns fds w k)"
| "rest_of_loop S Closing w k = Some (Inr (w\<lparr>wk_conns := []\<rparr>), close_conns (wk_conns w) k)"
| "rest_of_loop S Ended w k = Some (Inr w, k)"

lemma worker_loop_after:
  assumes "sys_poll (se_os S) k = (events, k1)"
  shows "worker_loop (se_os S) (se_config S) (se_accepting S) (se_wake_read S) (se_shutdown_fd S) w k =
    (if \<exists>ev \<in> set events. ev_fd ev = se_shutdown_fd S \<and> ev_readable ev
     then Some (Inr (w\<lparr>wk_conns := []\<rparr>), close_conns (wk_conns w) (snd (sys_read (se_os S) (se_shutdown_fd S) 1 k1)))
     else after_draining S events (accept_events (se_os S) (se_wake_read S) events w k1))"
proof (cases "\<exists>ev \<in> set events. ev_fd ev = se_shutdown_fd S \<and> ev_readable ev")
  case True
  then show ?thesis by (subst worker_loop.simps) (simp add: worker_round_def assms)
next
  case False
  show ?thesis unfolding if_not_P [OF False]
    by (subst worker_loop.simps)
      (simp add: worker_round_def assms if_not_P [OF False] after_draining_def after_serving_def se_pipes_def del: bex_simps
        split: option.split sum.split prod.split)
qed

lemma accept_wake_event:
  assumes "ev_fd ev = fd" "ev_readable ev" "sys_read os fd 64 k = (r, k1)"
  shows "accept_events os fd (ev # evs) w k = (case r of
      Read_fail e \<Rightarrow> accept_events os fd evs w k1
    | Got s \<Rightarrow> if s = [] then accept_events os fd evs w k1
        else (case ((\<lambda>(w, k). try_accept_from_queue os w k) ^^ length s) (w, k1) of (w2, k2) \<Rightarrow> accept_events os fd (ev # evs) w2 k2))"
  using assms by (simp add: drain_wake_pipe.simps [of os fd w k] split: io_read.split prod.split)

lemma loop_step_rest:
  assumes "loop_step S pc w k = Some (Inr (pc', w'), k')"
  shows "rest_of_loop S pc w k = rest_of_loop S pc' w' k'"
proof (cases "(S, pc, w, k)" rule: loop_step.cases)
  case (1 S w k)
  obtain events k1 where poll: "sys_poll (se_os S) k = (events, k1)" by fastforce
  with assms 1 worker_loop_after [OF poll, of w] show ?thesis by (auto split: if_splits)
next
  case (2 S n evs events w k)
  with assms show ?thesis by (auto simp: funpow_swap1 split: prod.splits)
next
  case (3 S ev evs events w k)
  show ?thesis
  proof (cases "ev_fd ev = se_wake_read S \<and> ev_readable ev")
    case True
    obtain r k1 where rd: "sys_read (se_os S) (se_wake_read S) 64 k = (r, k1)" by fastforce
    with assms 3 True accept_wake_event [OF _ _ rd, of ev evs w] show ?thesis
      by (auto split: io_read.splits if_splits prod.splits simp del: accept_events.simps)
  next
    case False
    with assms 3 show ?thesis by auto
  qed
next
  case (4 S events w k)
  with assms show ?thesis by (auto simp: after_draining_def sys_time_def)
next
  case (5 S ev evs to_remove now w k)
  show ?thesis
  proof (cases "ev_fd ev \<in> se_pipes S")
    case True
    with assms 5 show ?thesis by auto
  next
    case False
    with assms 5 obtain close where
      ev: "connection_event (se_os S) (se_config S) (se_accepting S) ev w k = Some (Inr (close, w'), k')"
        "pc' = Serving evs (to_remove @ (if close then [ev_fd ev] else [])) now"
      by (auto split: option.splits sum.splits)
    with 5 False show ?thesis
      by (simp add: after_serving_def split: option.split sum.split prod.split)
  qed
next
  case (6 S to_remove now w k)
  with assms show ?thesis by (auto simp: after_serving_def)
next
  case (9 S w k)
  with assms show ?thesis by (cases "wk_conns w") auto
qed (use assms in \<open>auto split: prod.splits\<close>)

lemma loop_run_rest:
  "loop_run S c c' \<Longrightarrow> rest_of_loop S (fst c) (fst (snd c)) (snd (snd c)) = rest_of_loop S (fst c') (fst (snd c')) (snd (snd c'))"
  by (induction rule: rtranclp_induct) (auto elim!: loop_rel.cases dest!: loop_step_rest)

definition fresh_worker :: "setting \<Rightarrow> (int \<times> string) list \<Rightarrow> worker" where
  "fresh_worker S queue = \<lparr>wk_queue = queue, wk_conns = [],
     wk_poller = poller_add (se_shutdown_fd S) True False (poller_add (se_wake_read S) True False (\<lambda>_. None))\<rparr>"

lemma loop_steps_worker:
  "run_event_loop_worker (se_os S) (se_config S) (se_accepting S) (se_wake_read S) (se_shutdown_fd S) queue k = Some (Inr w', k')
   \<longleftrightarrow> loop_run S (Polling, fresh_worker S queue, k) (Ended, w', k')"
  using run_loop [of S "fresh_worker S queue" k w' k'] loop_run_rest [of S "(Polling, fresh_worker S queue, k)" "(Ended, w', k')"]
  by (auto simp: run_event_loop_worker_def fresh_worker_def)

section \<open>The acceptor's two steps\<close>

lemma acceptor_steps_iteration:
  "select_acceptor_iteration (se_net S) (se_os S) (se_listen_fd S) (se_shutdown_fd S) (se_wake_write S) (se_accepting S) q k =
     (case acceptor_step S Waiting q k of ((pc, q1, n), k1) \<Rightarrow>
        ((pc = Stopped, q1), if pc = Announcing then snd (acceptor_step S Announcing q1 k1) else k1))"
  by (auto simp: select_acceptor_iteration_def split: prod.split io_write.split)

section \<open>Properties\<close>

lemma start_ok:
  assumes "kernel_ok k0"
  shows "system_ok S k0 (start_loops S k0)" "history_ok (start_loops S k0)" "tokens_ok (start_loops S k0)"
proof -
  have "poller_add a True False (poller_add b True False (\<lambda>_. None)) = watched {b, a} []" for a b
    by (auto simp: poller_add_def watched_def fun_eq_iff)
  moreover have "served_fds (replicate n l) = []" "clients (replicate n l) = []" "all_tokens (replicate n l) = 0"
    if "el_conns l = []" "el_pc l = Polling" for n l
    using that by (induction n) simp_all
  ultimately show "system_ok S k0 (start_loops S k0)" "history_ok (start_loops S k0)" "tokens_ok (start_loops S k0)"
    using assms
    by (simp_all add: system_ok_def history_ok_def tokens_ok_def start_loops_def owned_fds_def conns_ok_def all_live_def
        se_pipes_def announcing_def)
qed

lemma system_invariant:
  assumes "system_reachable S k0 s" "waits (se_os S)" "kernel_ok k0" "se_pipes S \<subseteq> set (k_fds k0)"
  shows "system_ok S k0 s \<and> history_ok s \<and> (wakes S \<longrightarrow> tokens_ok s)"
  using assms
proof (induction rule: system_reachable.induct)
  case start
  then show ?case using start_ok by simp
next
  case (step s s')
  note ok = step.IH [OF step.prems]
  from step.hyps(2) show ?case
  proof cases
    case acceptor
    with ok acceptor_moves_ok show ?thesis by blast
  next
    case (event_loop i pc w k)
    from loop_moves_ok [OF event_loop(2-4) _ step.prems(1,3)] ok event_loop(1) show ?thesis by blast
  qed
qed

text \<open>
  C8: However the acceptor and any number of event loops interleave, every client accepted is in exactly
  one place: in the queue, with one loop, or closed. Clients leave the queue in the order of
  acceptance; the descriptors the process has beyond those it started with are exactly those of the
  queue, of the connections of all loops and of the files they send, none of them owned twice; and
  each loop's connections and poller agree. No lock guards anything but the queue.
\<close>

theorem clients_owned_once:
  assumes "system_reachable S k0 s" "waits (se_os S)" "kernel_ok k0" "se_pipes S \<subseteq> set (k_fds k0)"
  shows "kernel_ok (sy_kernel s) \<and> distinct (owned_fds s) \<and> set (owned_fds s) \<inter> set (k_fds k0) = {}
    \<and> set (k_fds (sy_kernel s)) = set (k_fds k0) \<union> set (owned_fds s)
    \<and> (\<exists>taken. sy_accepted s = taken @ map fst (sy_queue s) \<and> mset taken = mset (clients (sy_loops s)) + mset (sy_closed s))
    \<and> (\<forall>l \<in> set (sy_loops s). conns_ok (se_pipes S) (el_pc l) (as_worker [] l))"
  using system_invariant [OF assms] by (simp add: system_ok_def leaves_def history_ok_def)

text \<open>
  C15: no client is forgotten in the queue. At every moment there are as many clients in the queue as
  bytes that stand for them: in the wake pipe, read by a loop and not yet handled, or about to be written
  by the acceptor. So a loop that has read a byte always finds a client, and while clients wait, some
  loop is about to take one, the acceptor is about to write, or the wake pipe is not empty and every loop
  that has not been stopped watches it.
\<close>

theorem queued_clients_announced:
  assumes "system_reachable S k0 s" "waits (se_os S)" "kernel_ok k0" "se_pipes S \<subseteq> set (k_fds k0)" "wakes S"
  shows "length (sy_queue s) = sy_wake s + all_tokens (sy_loops s) + announcing (sy_acceptor s)
    \<and> (\<forall>l \<in> set (sy_loops s). 0 < tokens (el_pc l) \<longrightarrow> sy_queue s \<noteq> [])
    \<and> (sy_queue s \<noteq> [] \<longrightarrow> sy_acceptor s = Announcing \<or> (\<exists>l \<in> set (sy_loops s). 0 < tokens (el_pc l)) \<or> 0 < sy_wake s)
    \<and> (\<forall>l \<in> set (sy_loops s). \<not> stopping (el_pc l) \<longrightarrow> el_poller l (se_wake_read S) = Some (True, False))"
proof -
  have inv: "system_ok S k0 s" "tokens_ok s" using system_invariant [OF assms(1-4)] assms(5) by simp_all
  then have eq: "length (sy_queue s) = sy_wake s + all_tokens (sy_loops s) + announcing (sy_acceptor s)"
    by (simp add: tokens_ok_def)
  have "tokens (el_pc l) \<le> all_tokens (sy_loops s)" if "l \<in> set (sy_loops s)" for l
    using that by (auto simp: all_tokens_def intro!: member_le_sum_list)
  then have token: "sy_queue s \<noteq> []" if "l \<in> set (sy_loops s)" "0 < tokens (el_pc l)" for l
    using that eq by fastforce
  have none: "all_tokens (sy_loops s) = 0" if "\<not> (\<exists>l \<in> set (sy_loops s). 0 < tokens (el_pc l))"
    using that by (simp add: all_tokens_def)
  then have waiting: "sy_acceptor s = Announcing \<or> (\<exists>l \<in> set (sy_loops s). 0 < tokens (el_pc l)) \<or> 0 < sy_wake s"
    if "sy_queue s \<noteq> []" using that eq none by (cases "\<exists>l \<in> set (sy_loops s). 0 < tokens (el_pc l)") (simp_all add: announcing_def flip: length_greater_0_conv split: if_splits)
  have "el_poller l (se_wake_read S) = Some (True, False)" if "l \<in> set (sy_loops s)" "\<not> stopping (el_pc l)" for l
    using inv(1) that by (simp add: system_ok_def conns_ok_def watched_def se_pipes_def)
  with eq token waiting show ?thesis by blast
qed


section \<open>Witnesses\<close>

text \<open>Two event loops; one client is accepted and announced, and the second loop takes it.\<close>

definition pair_setting :: setting where
  "pair_setting = \<lparr>se_net = busy_net,
     se_os = busy_os\<lparr>os_poll := \<lambda>_. [Poll_event 0 True False], os_read := \<lambda>_ _. Got ''x''\<rparr>,
     se_config = default_config\<lparr>cf_n_select_loops := 2\<rparr>, se_accepting = \<lambda>_. True, se_listen_fd = 9,
     se_shutdown_fd = 1, se_wake_read = 0, se_wake_write = 2\<rparr>"

lemma pair_setting_ok: "waits (se_os pair_setting)" "se_pipes pair_setting \<subseteq> set (k_fds init_kernel)" "wakes pair_setting"
  by (auto simp: pair_setting_def waits_def busy_os_def idle_os_def se_pipes_def init_kernel_def wakes_def)

lemma pair_run:
  "\<exists>s. system_reachable pair_setting init_kernel s \<and> sy_queue s = [] \<and> sy_accepted s = [3]
     \<and> map (\<lambda>l. map fst (el_conns l)) (sy_loops s) = [[], [3]]"
  "\<exists>s. system_reachable pair_setting init_kernel s \<and> sy_queue s = [(3, ''10.0.0.1'')] \<and> sy_wake s = 1
     \<and> sy_acceptor s = Waiting \<and> length (sy_loops s) = 2"
proof -
  let ?S = pair_setting
  let ?s0 = "start_loops ?S init_kernel"
  let ?s2 = "acceptor_moves ?S (acceptor_moves ?S ?s0)"
  have r2: "system_reachable ?S init_kernel ?s2"
    by (rule system_reachable.step [OF system_reachable.step [OF system_reachable.start system_step.acceptor] system_step.acceptor])
  have two: "n_workers (se_config ?S) = 2" by (simp add: pair_setting_def n_workers_def)
  have s2: "sy_queue ?s2 = [(3, ''10.0.0.1'')]" "sy_wake ?s2 = 1" "sy_acceptor ?s2 = Waiting" "sy_accepted ?s2 = [3]"
    "sy_loops ?s2 = sy_loops ?s0"
    by (simp_all add: acceptor_moves_def start_loops_def pair_setting_def wait_for_accept_or_shutdown_def busy_net_def
        busy_os_def idle_os_def init_kernel_def accept_connection_def sys_accept_def alloc_fd_def Let_def fresh_fd_def
        sys_write_def tick_def)
  then show "\<exists>s. system_reachable ?S init_kernel s \<and> sy_queue s = [(3, ''10.0.0.1'')] \<and> sy_wake s = 1
     \<and> sy_acceptor s = Waiting \<and> length (sy_loops s) = 2"
    using r2 two by (intro exI [of _ ?s2]) (simp add: start_loops_def)
  define l where "l = sy_loops ?s0 ! 1"
  have ls: "sy_loops ?s2 = [l, l]" using two s2(5) by (simp add: start_loops_def numeral_2_eq_2 l_def)
  have l: "el_pc l = Polling" "el_conns l = []" by (simp_all add: l_def start_loops_def two)
  define evs where "evs = [Poll_event 0 True False]"
  obtain k3 where p3: "loop_step ?S Polling (as_worker (sy_queue ?s2) l) (sy_kernel ?s2)
      = Some (Inr (Draining 0 evs evs, as_worker (sy_queue ?s2) l), k3)"
    by (simp add: sys_poll_def pair_setting_def evs_def)
  define s3 where "s3 = loop_moves 1 (Draining 0 evs evs) (as_worker (sy_queue ?s2) l) k3 ?s2"
  have r3: "system_reachable ?S init_kernel s3" unfolding s3_def
    by (rule system_reachable.step [OF r2 system_step.event_loop]) (use p3 ls l in simp_all)
  have s3: "sy_queue s3 = sy_queue ?s2" "sy_wake s3 = 1" "sy_accepted s3 = [3]" "sy_loops s3 = [l, l\<lparr>el_pc := Draining 0 evs evs\<rparr>]"
    "sy_kernel s3 = k3"
    using ls s2 by (simp_all add: s3_def loop_moves_def from_worker_def as_worker_def)
  obtain k4 where p4: "loop_step ?S (Draining 0 evs evs) (as_worker (sy_queue s3) (sy_loops s3 ! 1)) k3
      = Some (Inr (Draining 1 evs evs, as_worker (sy_queue s3) (sy_loops s3 ! 1)), k4)"
    by (simp add: sys_read_def pair_setting_def evs_def)
  define s4 where "s4 = loop_moves 1 (Draining 1 evs evs) (as_worker (sy_queue s3) (sy_loops s3 ! 1)) k4 s3"
  have r4: "system_reachable ?S init_kernel s4" unfolding s4_def
    by (rule system_reachable.step [OF r3 system_step.event_loop]) (use p4 s3 in simp_all)
  have s4: "sy_queue s4 = [(3, ''10.0.0.1'')]" "sy_accepted s4 = [3]" "sy_loops s4 = [l, l\<lparr>el_pc := Draining 1 evs evs\<rparr>]"
    "sy_kernel s4 = k4"
    using s3 s2 by (simp_all add: s4_def loop_moves_def from_worker_def as_worker_def)
  obtain w5 k5 where p5: "loop_step ?S (Draining 1 evs evs) (as_worker (sy_queue s4) (sy_loops s4 ! 1)) k4
      = Some (Inr (Draining 0 evs evs, w5), k5)" "wk_queue w5 = []" "map fst (wk_conns w5) = [3]"
    using s4 l by (simp add: try_accept_from_queue_def sys_time_def)
  define s5 where "s5 = loop_moves 1 (Draining 0 evs evs) w5 k5 s4"
  have "system_reachable ?S init_kernel s5" unfolding s5_def
    by (rule system_reachable.step [OF r4 system_step.event_loop]) (use p5 s4 in simp_all)
  then show "\<exists>s. system_reachable ?S init_kernel s \<and> sy_queue s = [] \<and> sy_accepted s = [3]
     \<and> map (\<lambda>l. map fst (el_conns l)) (sy_loops s) = [[], [3]]"
    using p5 s4 l by (intro exI [of _ s5]) (simp add: s5_def loop_moves_def)
qed

theorem clients_owned_once_witness:
  "\<exists>s. system_reachable pair_setting init_kernel s \<and> sy_accepted s = [3] \<and> sy_queue s = []
     \<and> map (\<lambda>l. map fst (el_conns l)) (sy_loops s) = [[], [3]] \<and> sy_closed s = [] \<and> distinct (owned_fds s)"
proof -
  obtain s where s: "system_reachable pair_setting init_kernel s" "sy_queue s = []" "sy_accepted s = [3]"
    "map (\<lambda>l. map fst (el_conns l)) (sy_loops s) = [[], [3]]" using pair_run(1) by (elim exE conjE)
  note all = clients_owned_once [OF s(1) pair_setting_ok(1) init_kernel_ok pair_setting_ok(2)]
  then have ok: "distinct (owned_fds s)" by (elim conjE)
  from all have hist: "\<exists>taken. sy_accepted s = taken @ map fst (sy_queue s)
      \<and> mset taken = mset (clients (sy_loops s)) + mset (sy_closed s)" by (elim conjE)
  have "clients (sy_loops s) = [3]" using s(4) by (simp add: clients_def)
  with hist have "sy_closed s = []" by (simp add: s(2,3))
  with ok show ?thesis using s by (intro exI [of _ s]) simp
qed

theorem queued_clients_announced_witness:
  "\<exists>s. system_reachable pair_setting init_kernel s \<and> length (sy_queue s) = 1 \<and> sy_wake s = 1
     \<and> all_tokens (sy_loops s) = 0 \<and> announcing (sy_acceptor s) = 0 \<and> length (sy_loops s) = 2"
proof -
  obtain s where s: "system_reachable pair_setting init_kernel s" "sy_queue s = [(3, ''10.0.0.1'')]" "sy_wake s = 1"
    "sy_acceptor s = Waiting" "length (sy_loops s) = 2" using pair_run(2) by (elim exE conjE)
  have "length (sy_queue s) = sy_wake s + all_tokens (sy_loops s) + announcing (sy_acceptor s)"
    using queued_clients_announced [OF s(1) pair_setting_ok(1) init_kernel_ok pair_setting_ok(2,3)] by (rule conjunct1)
  then show ?thesis using s by (intro exI [of _ s]) (simp add: announcing_def)
qed

end
