(* ===== verification/Thread_Pool.thy ===== *)
theory Thread_Pool
  imports Connection_Properties
begin

text \<open>
  \<open>server/thread_pool_mode.cpp\<close>: an acceptor thread fills a queue, \<open>n\<close> workers serve from it, and at
  shutdown the main thread appends one sentinel (\<open>-1\<close>) per worker. Each critical section (the code
  under \<open>queue_mutex\<close>) is one step of an interleaved step relation. A worker that finds the queue empty
  sleeps on the condition variable until it is notified; it may also wake up spuriously. What a
  worker does with a connection is \<open>handle_connection\<close>; here it is the time between taking a
  connection and closing it. \<open>tp_accepted\<close> and \<open>tp_closed\<close> record the history.
\<close>

section \<open>State\<close>

datatype pool_worker = Checking | Asleep | Serving int string | Exited

datatype main_thread = Join_acceptor | Notifying | Join_workers | Returned

record pool =
  tp_queue :: "(int \<times> string) list"
  tp_accepting :: bool
  tp_workers :: "pool_worker list"
  tp_main :: main_thread
  tp_accepted :: "int list"
  tp_closed :: "int list"

definition init_pool :: "nat \<Rightarrow> pool" where
  "init_pool n = \<lparr>tp_queue = [], tp_accepting = True, tp_workers = replicate n Checking, tp_main = Join_acceptor,
     tp_accepted = [], tp_closed = []\<rparr>"

section \<open>The critical sections\<close>

text \<open>\<open>notify_one\<close> wakes the sleeper the system chooses, if there is any.\<close>

definition notify_one :: "nat \<Rightarrow> pool_worker list \<Rightarrow> pool_worker list" where
  "notify_one j ws = (if j < length ws \<and> ws ! j = Asleep then ws[j := Checking] else ws)"

definition notify_all :: "pool_worker list \<Rightarrow> pool_worker list" where
  "notify_all ws = map (\<lambda>w. if w = Asleep then Checking else w) ws"

definition acceptor_iteration :: "bool \<times> bool \<Rightarrow> int \<times> string \<Rightarrow> nat \<Rightarrow> pool \<Rightarrow> pool" where
  "acceptor_iteration ready client j s =
     (let (listen_readable, shutdown_requested) = ready; (client_fd, client_ip) = client
      in if shutdown_requested then s\<lparr>tp_accepting := False\<rparr>
         else if listen_readable \<and> 0 \<le> client_fd
         then s\<lparr>tp_queue := tp_queue s @ [(client_fd, client_ip)], tp_workers := notify_one j (tp_workers s),
                tp_accepted := tp_accepted s @ [client_fd]\<rparr>
         else s)"

text \<open>A worker that holds the mutex: sleep, stop, or take the connection at the front.\<close>

definition worker_dequeue :: "nat \<Rightarrow> pool \<Rightarrow> pool" where
  "worker_dequeue i s =
     (case tp_queue s of
        [] \<Rightarrow> s\<lparr>tp_workers := (tp_workers s)[i := Asleep]\<rparr>
      | (client_fd, client_ip) # rest \<Rightarrow>
          if client_fd = -1 then s\<lparr>tp_queue := rest, tp_workers := (tp_workers s)[i := Exited]\<rparr>
          else s\<lparr>tp_queue := rest, tp_workers := (tp_workers s)[i := Serving client_fd client_ip]\<rparr>)"

definition worker_done :: "nat \<Rightarrow> int \<Rightarrow> pool \<Rightarrow> pool" where
  "worker_done i client_fd s =
     s\<lparr>tp_workers := (tp_workers s)[i := Checking], tp_closed := tp_closed s @ [client_fd]\<rparr>"

text \<open>What happens between taking a connection and \<open>worker_done\<close>.\<close>

definition worker_serve ::
  "os \<Rightarrow> config \<Rightarrow> int \<Rightarrow> string \<Rightarrow> (nat \<Rightarrow> bool) \<Rightarrow> kernel \<Rightarrow> ((cxx_exn + unit) \<times> kernel) option" where
  "worker_serve os cfg client_fd client_ip accepting k =
     (case handle_connection os cfg client_fd client_ip accepting k of
        None \<Rightarrow> None
      | Some (Inl e, k1) \<Rightarrow> Some (Inl e, k1)
      | Some (Inr u, k1) \<Rightarrow> Some (Inr u, sys_close client_fd k1))"

definition push_sentinels :: "nat \<Rightarrow> pool \<Rightarrow> pool" where
  "push_sentinels n s = s\<lparr>tp_queue := tp_queue s @ replicate n (-1, []), tp_main := Notifying\<rparr>"

section \<open>Interleaving\<close>

inductive pool_step :: "nat \<Rightarrow> pool \<Rightarrow> pool \<Rightarrow> bool" for n :: nat where
  accept: "tp_accepting s \<Longrightarrow> 0 \<le> fd \<Longrightarrow> (Asleep \<in> set (tp_workers s) \<Longrightarrow> j < n \<and> tp_workers s ! j = Asleep)
    \<Longrightarrow> pool_step n s (acceptor_iteration (True, False) (fd, ip) j s)"
| stop_accepting: "tp_accepting s \<Longrightarrow> pool_step n s (acceptor_iteration (False, True) client j s)"
| dequeue: "i < n \<Longrightarrow> tp_workers s ! i = Checking \<Longrightarrow> pool_step n s (worker_dequeue i s)"
| served: "i < n \<Longrightarrow> tp_workers s ! i = Serving fd ip \<Longrightarrow> pool_step n s (worker_done i fd s)"
| sentinels: "tp_main s = Join_acceptor \<Longrightarrow> \<not> tp_accepting s \<Longrightarrow> pool_step n s (push_sentinels n s)"
| wake_all: "tp_main s = Notifying
    \<Longrightarrow> pool_step n s (s\<lparr>tp_workers := notify_all (tp_workers s), tp_main := Join_workers\<rparr>)"
| joined: "tp_main s = Join_workers \<Longrightarrow> list_all (\<lambda>w. w = Exited) (tp_workers s)
    \<Longrightarrow> pool_step n s (s\<lparr>tp_main := Returned\<rparr>)"

inductive spurious_wakeup :: "nat \<Rightarrow> pool \<Rightarrow> pool \<Rightarrow> bool" for n :: nat where
  "i < n \<Longrightarrow> tp_workers s ! i = Asleep \<Longrightarrow> spurious_wakeup n s (s\<lparr>tp_workers := (tp_workers s)[i := Checking]\<rparr>)"

inductive pool_reachable :: "nat \<Rightarrow> pool \<Rightarrow> bool" for n :: nat where
  init: "pool_reachable n (init_pool n)"
| step: "pool_reachable n s \<Longrightarrow> pool_step n s s' \<or> spurious_wakeup n s s' \<Longrightarrow> pool_reachable n s'"

inductive_cases pool_stepE: "pool_step n s s'"
inductive_cases spuriousE: "spurious_wakeup n s s'"

section \<open>The invariant\<close>

definition serving :: "pool_worker list \<Rightarrow> int list" where
  "serving ws = concat (map (\<lambda>w. case w of Serving fd ip \<Rightarrow> [fd] | _ \<Rightarrow> []) ws)"

definition exited :: "pool_worker list \<Rightarrow> nat" where
  "exited ws = length (filter (\<lambda>w. w = Exited) ws)"

abbreviation sentinel :: "int \<times> string" where
  "sentinel \<equiv> (-1, [])"

lemma serving_simps [simp]:
  "serving [] = []" "serving (us @ vs) = serving us @ serving vs" "serving (Serving fd ip # ws) = fd # serving ws"
  "serving (Checking # ws) = serving ws" "serving (Asleep # ws) = serving ws" "serving (Exited # ws) = serving ws"
  by (simp_all add: serving_def)

lemma exited_simps [simp]:
  "exited [] = 0" "exited (us @ vs) = exited us + exited vs"
  "exited (w # ws) = (if w = Exited then Suc (exited ws) else exited ws)"
  by (simp_all add: exited_def)

lemma serving_replicate [simp]: "serving (replicate n Checking) = []" "exited (replicate n Checking) = 0"
  by (induction n) auto

lemma notify_one_keeps: "serving (notify_one j ws) = serving ws" "exited (notify_one j ws) = exited ws"
    "length (notify_one j ws) = length ws"
proof -
  have "serving (ws[j := Checking]) = serving ws \<and> exited (ws[j := Checking]) = exited ws"
    if sleeper: "j < length ws" "ws ! j = Asleep"
  proof -
    obtain us vs where "ws = us @ Asleep # vs" "ws[j := Checking] = us @ Checking # vs"
      by (rule list_update_split [OF sleeper]) blast
    then show ?thesis by simp
  qed
  then show "serving (notify_one j ws) = serving ws" "exited (notify_one j ws) = exited ws"
    "length (notify_one j ws) = length ws"
    by (auto simp: notify_one_def)
qed

lemma notify_all_keeps: "serving (notify_all ws) = serving ws" "exited (notify_all ws) = exited ws"
    "length (notify_all ws) = length ws" "Asleep \<notin> set (notify_all ws)"
  by (induction ws) (auto simp: notify_all_def serving_def exited_def split: pool_worker.splits)

lemma exited_le: "exited ws \<le> length ws"
  by (simp add: exited_def)

lemma all_exited: "exited ws = length ws \<longleftrightarrow> list_all (\<lambda>w. w = Exited) ws"
proof (induction ws)
  case (Cons w ws)
  then show ?case using exited_le [of ws] by auto
qed simp

lemma some_exited: "0 < exited ws \<longleftrightarrow> Exited \<in> set ws"
  by (induction ws) auto

text \<open>The shape of a state: \<open>cs\<close> the clients in the queue, \<open>m\<close> the sentinels behind them.\<close>

definition pool_shape :: "nat \<Rightarrow> (int \<times> string) list \<Rightarrow> nat \<Rightarrow> pool \<Rightarrow> bool" where
  "pool_shape n cs m s \<longleftrightarrow> length (tp_workers s) = n
     \<and> tp_queue s = cs @ replicate m sentinel \<and> list_all (\<lambda>c. 0 \<le> fst c) cs
     \<and> mset (tp_accepted s) = mset (tp_closed s) + mset (serving (tp_workers s)) + mset (map fst cs)
     \<and> m + exited (tp_workers s) = (if tp_main s = Join_acceptor then 0 else n)
     \<and> (0 < exited (tp_workers s) \<longrightarrow> cs = [])"

definition pool_awake :: "pool \<Rightarrow> bool" where
  "pool_awake s \<longleftrightarrow> (tp_main s \<noteq> Join_acceptor \<longrightarrow> \<not> tp_accepting s)
     \<and> (tp_main s = Join_acceptor \<longrightarrow> tp_queue s \<noteq> [] \<longrightarrow> \<not> list_all (\<lambda>w. w = Asleep) (tp_workers s))
     \<and> (tp_main s = Join_workers \<or> tp_main s = Returned \<longrightarrow> Asleep \<notin> set (tp_workers s))
     \<and> (tp_main s = Returned \<longrightarrow> list_all (\<lambda>w. w = Exited) (tp_workers s))"

lemma dequeue_shape:
  assumes shape: "pool_shape n cs m s" and i: "i < n" "tp_workers s ! i = Checking"
  shows "\<exists>cs' m'. pool_shape n cs' m' (worker_dequeue i s)"
proof -
  have "i < length (tp_workers s)" using shape i by (simp add: pool_shape_def)
  then obtain us vs where ws: "tp_workers s = us @ Checking # vs" "\<And>x. (tp_workers s)[i := x] = us @ x # vs"
    by (rule list_update_split [OF _ i(2)]) blast
  show ?thesis
  proof (cases cs)
    case (Cons c rest)
    then have "pool_shape n rest m (worker_dequeue i s)"
      using shape ws by (cases c) (auto simp: pool_shape_def worker_dequeue_def)
    then show ?thesis by blast
  next
    case Nil
    show ?thesis
    proof (cases m)
      case 0
      then have "pool_shape n [] 0 (worker_dequeue i s)"
        using shape ws Nil by (auto simp: pool_shape_def worker_dequeue_def)
      then show ?thesis by blast
    next
      case (Suc k)
      then have "pool_shape n [] k (worker_dequeue i s)"
        using shape ws Nil by (auto simp: pool_shape_def worker_dequeue_def)
      then show ?thesis by blast
    qed
  qed
qed

lemma done_shape:
  assumes shape: "pool_shape n cs m s" and i: "i < n" "tp_workers s ! i = Serving fd ip"
  shows "pool_shape n cs m (worker_done i fd s)"
proof -
  have "i < length (tp_workers s)" using shape i by (simp add: pool_shape_def)
  then obtain us vs where ws: "tp_workers s = us @ Serving fd ip # vs" "\<And>x. (tp_workers s)[i := x] = us @ x # vs"
    by (rule list_update_split [OF _ i(2)]) blast
  show ?thesis using shape ws by (simp add: pool_shape_def worker_done_def)
qed

lemma wakeup_shape:
  assumes shape: "pool_shape n cs m s" and i: "i < n" "tp_workers s ! i = Asleep"
  shows "pool_shape n cs m (s\<lparr>tp_workers := (tp_workers s)[i := Checking]\<rparr>)"
proof -
  have "i < length (tp_workers s)" using shape i by (simp add: pool_shape_def)
  then obtain us vs where ws: "tp_workers s = us @ Asleep # vs" "\<And>x. (tp_workers s)[i := x] = us @ x # vs"
    by (rule list_update_split [OF _ i(2)]) blast
  show ?thesis using shape ws by (simp add: pool_shape_def)
qed

lemma pool_step_shape:
  assumes step: "pool_step n s s'" and shape: "pool_shape n cs m s" and awake: "pool_awake s"
  shows "\<exists>cs' m'. pool_shape n cs' m' s'"
  using step
proof (cases rule: pool_step.cases)
  case (accept fd j ip)
  then have "pool_shape n (cs @ [(fd, ip)]) m s'"
    using shape awake by (auto simp: pool_shape_def pool_awake_def acceptor_iteration_def notify_one_keeps)
  then show ?thesis by blast
next
  case (sentinels)
  then have "pool_shape n cs n s'"
    using shape by (auto simp: pool_shape_def push_sentinels_def)
  then show ?thesis by blast
next
  case (dequeue i)
  then show ?thesis using dequeue_shape [OF shape] by blast
next
  case (served i fd ip)
  then show ?thesis using done_shape [OF shape] by blast
qed (use shape in \<open>auto simp: pool_shape_def acceptor_iteration_def notify_all_keeps\<close>)

lemma not_all_asleep: "i < length ws \<Longrightarrow> ws ! i \<noteq> Asleep \<Longrightarrow> \<not> list_all (\<lambda>w. w = Asleep) ws"
  by (auto simp: list_all_length)

lemma notify_one_awake:
  assumes "Asleep \<in> set ws \<Longrightarrow> j < length ws \<and> ws ! j = Asleep" "0 < length ws"
  shows "\<not> list_all (\<lambda>w. w = Asleep) (notify_one j ws)"
proof (cases "Asleep \<in> set ws")
  case True
  then have "notify_one j ws ! j = Checking" "j < length (notify_one j ws)"
    using assms by (auto simp: notify_one_def)
  then show ?thesis using not_all_asleep by fastforce
next
  case False
  then have "ws ! j \<noteq> Asleep \<or> \<not> j < length ws" "ws ! 0 \<noteq> Asleep"
    using assms(2) by (metis nth_mem)+
  then have "notify_one j ws ! 0 \<noteq> Asleep" by (auto simp: notify_one_def)
  moreover have "0 < length (notify_one j ws)" using assms(2) by (simp add: notify_one_keeps)
  ultimately show ?thesis using not_all_asleep by blast
qed

lemma not_asleep_update: "Asleep \<notin> set ws \<Longrightarrow> x \<noteq> Asleep \<Longrightarrow> Asleep \<notin> set (ws[i := x])"
  using set_update_subset_insert by fastforce

text \<open>While the main thread waits for the workers, a worker that has not stopped finds a sentinel.\<close>

lemma queue_for_running:
  assumes "pool_shape n cs m s" "tp_main s \<noteq> Join_acceptor" "i < n" "tp_workers s ! i \<noteq> Exited"
  shows "tp_queue s \<noteq> []"
proof
  assume "tp_queue s = []"
  then have "exited (tp_workers s) = length (tp_workers s)"
    using assms by (auto simp: pool_shape_def)
  then show False using assms by (simp add: all_exited list_all_length pool_shape_def)
qed

lemma dequeue_keeps: "tp_main (worker_dequeue i s) = tp_main s" "tp_accepting (worker_dequeue i s) = tp_accepting s"
  by (auto simp: worker_dequeue_def split: list.split)

lemma dequeue_awake:
  assumes awake: "pool_awake s" and shape: "pool_shape n cs m s" and i: "i < n" "tp_workers s ! i = Checking"
  shows "pool_awake (worker_dequeue i s)"
proof -
  have len: "i < length (tp_workers s)" using shape i by (simp add: pool_shape_def)
  have running: "\<not> list_all (\<lambda>w. w = Exited) (tp_workers s)" using len i(2) by (auto simp: list_all_length)
  show ?thesis
  proof (cases "tp_queue s")
    case Nil
    then have "tp_main s = Join_acceptor \<or> tp_main s = Notifying"
      using awake queue_for_running [OF shape _ i(1)] i(2) running by (cases "tp_main s") (auto simp: pool_awake_def)
    then show ?thesis using awake Nil by (auto simp: pool_awake_def worker_dequeue_def)
  next
    case (Cons c rest)
    let ?w = "tp_workers (worker_dequeue i s) ! i"
    have w: "?w \<noteq> Asleep" "tp_workers (worker_dequeue i s) = (tp_workers s)[i := ?w]"
      using Cons len by (auto simp: worker_dequeue_def split: if_splits prod.splits)
    have "\<not> list_all (\<lambda>w. w = Asleep) (tp_workers (worker_dequeue i s))"
      using w len not_all_asleep [of i "tp_workers (worker_dequeue i s)"] by (metis length_list_update)
    moreover have "tp_main s \<noteq> Returned" using awake running by (auto simp: pool_awake_def)
    ultimately show ?thesis
      using awake w not_asleep_update [of "tp_workers s" ?w i] by (auto simp: pool_awake_def dequeue_keeps)
  qed
qed

lemma update_awake:
  assumes "pool_awake s" "i < length (tp_workers s)" "tp_workers s ! i \<noteq> Exited" "x \<noteq> Asleep"
    and "tp_workers s' = (tp_workers s)[i := x]" "tp_main s' = tp_main s" "tp_accepting s' = tp_accepting s"
  shows "pool_awake s'"
proof -
  have "\<not> list_all (\<lambda>w. w = Asleep) (tp_workers s')" using assms not_all_asleep [of i "tp_workers s'"] by simp
  moreover have "tp_main s \<noteq> Returned" using assms by (auto simp: pool_awake_def list_all_length)
  ultimately show ?thesis using assms not_asleep_update [of "tp_workers s" x i] by (auto simp: pool_awake_def)
qed

lemma pool_step_awake:
  assumes step: "pool_step n s s'" and shape: "pool_shape n cs m s" and awake: "pool_awake s" and n: "0 < n"
  shows "pool_awake s'"
  using step
proof (cases rule: pool_step.cases)
  case (accept fd j ip)
  have "\<not> list_all (\<lambda>w. w = Asleep) (notify_one j (tp_workers s))"
    by (rule notify_one_awake) (use accept shape n in \<open>auto simp: pool_shape_def\<close>)
  moreover have "tp_main s = Join_acceptor" using awake accept by (auto simp: pool_awake_def)
  ultimately show ?thesis
    using accept by (auto simp: pool_awake_def acceptor_iteration_def)
next
  case (dequeue i)
  then show ?thesis using dequeue_awake [OF awake shape] by blast
next
  case (served i fd ip)
  have "pool_awake (worker_done i fd s)"
    by (rule update_awake [OF awake, of i Checking]) (use served shape in \<open>auto simp: pool_shape_def worker_done_def\<close>)
  then show ?thesis using served by simp
qed (use awake in \<open>auto simp: pool_awake_def acceptor_iteration_def push_sentinels_def notify_all_keeps\<close>)

lemma spurious_keeps:
  assumes "spurious_wakeup n s s'" "pool_shape n cs m s" "pool_awake s"
  shows "pool_shape n cs m s' \<and> pool_awake s'"
  using assms(1)
proof cases
  case (1 i)
  have "pool_awake s'"
    by (rule update_awake [OF assms(3), of i Checking]) (use 1 assms(2) in \<open>auto simp: pool_shape_def\<close>)
  then show ?thesis using wakeup_shape [OF assms(2)] 1 by blast
qed

lemma pool_reachable_inv: "pool_reachable n s \<Longrightarrow> 0 < n \<Longrightarrow> (\<exists>cs m. pool_shape n cs m s) \<and> pool_awake s"
proof (induction rule: pool_reachable.induct)
  case init
  have "pool_shape n [] 0 (init_pool n)" by (simp add: pool_shape_def init_pool_def)
  moreover have "pool_awake (init_pool n)" by (simp add: pool_awake_def init_pool_def)
  ultimately show ?case by blast
next
  case (step s s')
  then obtain cs m where "pool_shape n cs m s" "pool_awake s" by blast
  then show ?case
    using step pool_step_shape pool_step_awake spurious_keeps by blast
qed

section \<open>Shutdown\<close>

primrec worker_weight :: "pool_worker \<Rightarrow> nat" where
  "worker_weight Checking = 1"
| "worker_weight Asleep = 0"
| "worker_weight (Serving fd ip) = 2"
| "worker_weight Exited = 0"

definition pool_measure :: "nat \<Rightarrow> pool \<Rightarrow> nat" where
  "pool_measure n s = 3 * length (tp_queue s) + sum_list (map worker_weight (tp_workers s))
     + (case tp_main s of Join_acceptor \<Rightarrow> 4 * n + 3 | Notifying \<Rightarrow> n + 2 | Join_workers \<Rightarrow> 1 | Returned \<Rightarrow> 0)"

lemma notify_all_weight: "sum_list (map worker_weight (notify_all ws)) \<le> sum_list (map worker_weight ws) + length ws"
proof (induction ws)
  case (Cons w ws)
  then show ?case by (cases w) (auto simp: notify_all_def)
qed (simp add: notify_all_def)

lemma update_weight:
  assumes "i < length ws" "ws ! i = w"
  shows "sum_list (map worker_weight (ws[i := x])) + worker_weight w = sum_list (map worker_weight ws) + worker_weight x"
proof -
  obtain us vs where "ws = us @ w # vs" "\<And>x. ws[i := x] = us @ x # vs"
    by (rule list_update_split [OF assms]) blast
  then show ?thesis by simp
qed

lemma pool_measure_decreases:
  assumes step: "pool_step n s s'" and stopped: "\<not> tp_accepting s" and len: "length (tp_workers s) = n"
  shows "pool_measure n s' < pool_measure n s"
  using step
proof (cases rule: pool_step.cases)
  case (dequeue i)
  then have "sum_list (map worker_weight ((tp_workers s)[i := x])) + 1 = sum_list (map worker_weight (tp_workers s)) + worker_weight x" for x
    using update_weight [of i "tp_workers s" Checking] len by simp
  from this [of Asleep] this [of Exited] this [of "Serving _ _"] show ?thesis
    using dequeue by (auto simp: pool_measure_def worker_dequeue_def split: list.split main_thread.split)
next
  case (served i fd ip)
  then show ?thesis
    using update_weight [of i "tp_workers s" "Serving fd ip" Checking] len
    by (simp add: pool_measure_def worker_done_def split: main_thread.split)
next
  case wake_all
  then show ?thesis using notify_all_weight [of "tp_workers s"] len by (simp add: pool_measure_def)
qed (use stopped in \<open>auto simp: pool_measure_def push_sentinels_def\<close>)

lemma step_keeps_stopped: "pool_step n s s' \<Longrightarrow> \<not> tp_accepting s \<Longrightarrow> \<not> tp_accepting s'"
  by (erule pool_step.cases)
    (auto simp: acceptor_iteration_def worker_dequeue_def worker_done_def push_sentinels_def split: list.split)

lemma stopped_progress:
  assumes shape: "pool_shape n cs m s" and awake: "pool_awake s" and stopped: "\<not> tp_accepting s"
    and unfinished: "tp_main s \<noteq> Returned"
  shows "\<exists>s'. pool_step n s s'"
proof (cases "tp_main s")
  case Join_workers
  show ?thesis
  proof (cases "list_all (\<lambda>w. w = Exited) (tp_workers s)")
    case True
    then show ?thesis using Join_workers pool_step.joined by blast
  next
    case False
    then obtain i where i: "i < n" "tp_workers s ! i \<noteq> Exited" "i < length (tp_workers s)"
      using shape by (auto simp: list_all_length pool_shape_def)
    then have "tp_workers s ! i \<noteq> Asleep" using awake Join_workers by (metis nth_mem pool_awake_def)
    then show ?thesis using i pool_step.dequeue pool_step.served by (cases "tp_workers s ! i") blast+
  qed
qed (use stopped unfinished pool_step.sentinels pool_step.wake_all in blast)+

text \<open>When the main thread has joined every worker, nothing is left.\<close>

lemma returned_clean:
  assumes "pool_shape n cs m s" "pool_awake s" "0 < n" "tp_main s = Returned"
  shows "tp_queue s = [] \<and> mset (tp_closed s) = mset (tp_accepted s)"
proof -
  have "list_all (\<lambda>w. w = Exited) (tp_workers s)" using assms by (simp add: pool_awake_def)
  moreover from this have "exited (tp_workers s) = n"
    using all_exited [of "tp_workers s"] assms(1) by (simp add: pool_shape_def)
  moreover have "serving ws = []" if "list_all (\<lambda>w. w = Exited) ws" for ws
    using that by (induction ws) auto
  ultimately show ?thesis using assms by (auto simp: pool_shape_def)
qed

text \<open>C10: the pool serves what it accepts: in every state reached by any interleaving of the acceptor, the
  workers and the main thread, each accepted connection is in the queue, with one worker or closed,
  each exactly once; and once \<open>run_thread_pool\<close> has returned, every accepted connection was closed.\<close>

theorem pool_serves_all:
  assumes "pool_reachable n s" "0 < n"
  shows "mset (tp_accepted s) = mset (tp_closed s) + mset (serving (tp_workers s))
           + mset (filter (\<lambda>fd. fd \<noteq> -1) (map fst (tp_queue s)))
       \<and> (tp_main s = Returned \<longrightarrow> tp_queue s = [] \<and> mset (tp_closed s) = mset (tp_accepted s))"
proof -
  obtain cs m where inv: "pool_shape n cs m s" "pool_awake s"
    using pool_reachable_inv [OF assms] by blast
  have "filter (\<lambda>fd. fd \<noteq> -1) (map fst cs) = map fst cs" if "list_all (\<lambda>c. 0 \<le> fst c) cs" for cs :: "(int \<times> string) list"
    using that by (induction cs) auto
  then show ?thesis using inv returned_clean [OF inv assms(2)] by (simp add: pool_shape_def)
qed



section \<open>Serving\<close>

text \<open>Serving a connection closes its descriptor and leaves every other one as it was.\<close>

lemma worker_serve_closes:
  assumes "worker_serve os cfg fd ip acc k = Some (Inr (), k')" "waits os" "kernel_ok k" "fd \<in> set (k_fds k)"
  shows "kernel_ok k' \<and> set (k_fds k') = set (k_fds k) - {fd}"
proof -
  obtain k1 where k1: "handle_connection os cfg fd ip acc k = Some (Inr (), k1)" "k' = sys_close fd k1"
    using assms(1) by (auto simp: worker_serve_def split: option.splits sum.splits)
  have l: "leaves k k1 []"
    using plain.serves_leaves [OF connection_loop_serves [OF k1(1) [unfolded handle_connection_def]]] assms(2,3) by simp
  show ?thesis using close_client [OF l assms(4)] k1(2) by simp
qed

section \<open>A run of the pool\<close>

text \<open>Two workers; one connection is accepted while both sleep and is served while the acceptor stops.\<close>

definition run_start :: pool where
  "run_start = (init_pool 2)\<lparr>tp_workers := [Asleep, Asleep]\<rparr>"

definition run_waiting :: pool where
  "run_waiting = acceptor_iteration (True, False) (7, ''10.0.0.1'') 0 run_start"

definition run_stopped :: pool where
  "run_stopped = acceptor_iteration (False, True) (0, []) 0 run_waiting"

definition run_returned :: pool where
  "run_returned = (worker_dequeue 1 (worker_dequeue 0 ((push_sentinels 2 (worker_done 0 7 (worker_dequeue 0 run_stopped)))
     \<lparr>tp_workers := [Checking, Checking], tp_main := Join_workers\<rparr>)))\<lparr>tp_main := Returned\<rparr>"

lemmas run_defs = run_start_def run_waiting_def run_stopped_def run_returned_def init_pool_def acceptor_iteration_def
  worker_dequeue_def worker_done_def push_sentinels_def notify_one_def notify_all_def

lemma run_waiting_reachable: "pool_reachable 2 run_waiting"
proof -
  let ?a = "worker_dequeue 0 (init_pool 2)"
  have two: "replicate 2 x = [x, x]" for x :: "'a" by (simp add: numeral_2_eq_2)
  have "pool_reachable 2 ?a"
    by (rule pool_reachable.step [OF pool_reachable.init], rule disjI1, rule pool_step.dequeue) (simp_all add: init_pool_def)
  then have "pool_reachable 2 (worker_dequeue 1 ?a)"
    by (rule pool_reachable.step, intro disjI1 pool_step.dequeue) (simp_all add: run_defs two)
  moreover have "worker_dequeue 1 ?a = run_start" by (simp add: run_defs two)
  ultimately have start: "pool_reachable 2 run_start" by simp
  show ?thesis
    unfolding run_waiting_def
    by (rule pool_reachable.step [OF start], rule disjI1, rule pool_step.accept) (simp_all add: run_defs)
qed

lemma run_stopped_reachable: "pool_reachable 2 run_stopped"
  unfolding run_stopped_def
  by (rule pool_reachable.step [OF run_waiting_reachable], intro disjI1 pool_step.stop_accepting) (simp add: run_defs)

lemma run_returned_reachable: "pool_reachable 2 run_returned"
proof -
  have 1: "pool_reachable 2 (worker_dequeue 0 run_stopped)"
    by (rule pool_reachable.step [OF run_stopped_reachable], intro disjI1 pool_step.dequeue) (simp_all add: run_defs)
  have 2: "pool_reachable 2 (worker_done 0 7 (worker_dequeue 0 run_stopped))"
    by (rule pool_reachable.step [OF 1], intro disjI1 pool_step.served [of _ _ _ _ "''10.0.0.1''"]) (simp_all add: run_defs)
  let ?p = "push_sentinels 2 (worker_done 0 7 (worker_dequeue 0 run_stopped))"
  have 3: "pool_reachable 2 ?p"
    by (rule pool_reachable.step [OF 2], intro disjI1 pool_step.sentinels) (simp_all add: run_defs)
  let ?j = "?p\<lparr>tp_workers := [Checking, Checking], tp_main := Join_workers\<rparr>"
  have "notify_all (tp_workers ?p) = [Checking, Checking]" by (simp add: run_defs)
  then have 4: "pool_reachable 2 ?j"
    using pool_reachable.step [OF 3, of "?p\<lparr>tp_workers := notify_all (tp_workers ?p), tp_main := Join_workers\<rparr>"]
      pool_step.wake_all [of ?p 2] by (simp add: push_sentinels_def)
  have 5: "pool_reachable 2 (worker_dequeue 0 ?j)"
    by (rule pool_reachable.step [OF 4], intro disjI1 pool_step.dequeue) simp_all
  have 6: "pool_reachable 2 (worker_dequeue 1 (worker_dequeue 0 ?j))"
    by (rule pool_reachable.step [OF 5], intro disjI1 pool_step.dequeue) (simp_all add: run_defs numeral_2_eq_2)
  show ?thesis
    unfolding run_returned_def
    by (rule pool_reachable.step [OF 6], intro disjI1 pool_step.joined) (simp_all add: run_defs numeral_2_eq_2)
qed

theorem pool_serves_all_witness: "tp_accepted run_returned = [7] \<and> mset (tp_closed run_returned) = {#7#}"
proof -
  have "tp_main run_returned = Returned" "tp_accepted run_returned = [7]"
    by (simp_all add: run_defs numeral_2_eq_2)
  moreover have "mset (tp_closed run_returned) = mset (tp_accepted run_returned)"
    using pool_serves_all [OF run_returned_reachable zero_less_numeral] calculation(1) by blast
  ultimately show ?thesis by simp
qed



end
