(* ===== verification/Pool_Interleaving.thy ===== *)
theory Pool_Interleaving
  imports Thread_Pool Listening
begin

text \<open>
  The thread mode with its kernel: the pool of \<open>Thread_Pool\<close> whose workers really read, answer and close.
  A worker that has a connection goes through it in three operations (read a request, handle it,
  write the response), each one step; the steps of all threads interleave. That these steps are
  \<open>handle_connection\<close>, and that the pool seen from outside is that of \<open>Thread_Pool\<close>, is proved below.
\<close>

section \<open>A connection, step by step\<close>

datatype conn_pc =
    Fetching request_parser
  | Answering http_request request_parser
  | Delivering response_package request_parser
  | Over

fun connection_step ::
  "os \<Rightarrow> config \<Rightarrow> int \<Rightarrow> string option \<Rightarrow> (nat \<Rightarrow> bool) \<Rightarrow> conn_pc \<Rightarrow> kernel \<Rightarrow> ((cxx_exn + conn_pc) \<times> kernel) option" where
  "connection_step os cfg fd ip accepting (Fetching parser) k =
     (case next_request os fd parser k of
        None \<Rightarrow> None
      | Some (Connection_over, k1) \<Rightarrow> Some (Inr Over, k1)
      | Some (Request_read parser', k1) \<Rightarrow>
          (case get_request parser' of (req, parser'') \<Rightarrow> Some (Inr (Answering req parser''), k1)))"
| "connection_step os cfg fd ip accepting (Answering req parser) k =
     (case process_request os cfg req ip (accepting (k_tick k)) k of
        None \<Rightarrow> None
      | Some (Inl e, k1) \<Rightarrow> Some (Inl e, k1)
      | Some (Inr pkg, k1) \<Rightarrow> Some (Inr (Delivering pkg parser), k1))"
| "connection_step os cfg fd ip accepting (Delivering pkg parser) k =
     (case write_response os fd pkg k of
        None \<Rightarrow> None
      | Some k1 \<Rightarrow> Some (Inr (if rp_close_after pkg then Over else Fetching parser), k1))"
| "connection_step os cfg fd ip accepting Over k = Some (Inr Over, k)"

section \<open>The steps of a connection are handle_connection\<close>

inductive connection_rel :: "os \<Rightarrow> config \<Rightarrow> int \<Rightarrow> string option \<Rightarrow> (nat \<Rightarrow> bool) \<Rightarrow> conn_pc \<times> kernel \<Rightarrow> conn_pc \<times> kernel \<Rightarrow> bool"
  for os cfg fd ip accepting where
  "pc \<noteq> Over \<Longrightarrow> connection_step os cfg fd ip accepting pc k = Some (Inr pc', k')
   \<Longrightarrow> connection_rel os cfg fd ip accepting (pc, k) (pc', k')"

abbreviation connection_run :: "os \<Rightarrow> config \<Rightarrow> int \<Rightarrow> string option \<Rightarrow> (nat \<Rightarrow> bool) \<Rightarrow> conn_pc \<times> kernel \<Rightarrow> conn_pc \<times> kernel \<Rightarrow> bool" where
  "connection_run os cfg fd ip accepting \<equiv> (connection_rel os cfg fd ip accepting)\<^sup>*\<^sup>*"

lemma connection_run_step:
  "pc \<noteq> Over \<Longrightarrow> connection_step os cfg fd ip acc pc k = Some (Inr pc1, k1) \<Longrightarrow> connection_run os cfg fd ip acc (pc1, k1) c
   \<Longrightarrow> connection_run os cfg fd ip acc (pc, k) c"
  by (meson converse_rtranclp_into_rtranclp connection_rel.intros)

text \<open>What is left to do at each point, in terms of \<open>connection_loop\<close>.\<close>

definition after_delivery ::
  "os \<Rightarrow> config \<Rightarrow> int \<Rightarrow> string option \<Rightarrow> (nat \<Rightarrow> bool) \<Rightarrow> response_package \<Rightarrow> request_parser \<Rightarrow> kernel option
   \<Rightarrow> ((cxx_exn + unit) \<times> kernel) option" where
  "after_delivery os cfg fd ip acc pkg parser r =
     (case r of
        None \<Rightarrow> None
      | Some k \<Rightarrow> if rp_close_after pkg then Some (Inr (), k) else connection_loop os cfg fd ip acc parser k)"

definition after_answer ::
  "os \<Rightarrow> config \<Rightarrow> int \<Rightarrow> string option \<Rightarrow> (nat \<Rightarrow> bool) \<Rightarrow> request_parser \<Rightarrow> ((cxx_exn + response_package) \<times> kernel) option
   \<Rightarrow> ((cxx_exn + unit) \<times> kernel) option" where
  "after_answer os cfg fd ip acc parser r =
     (case r of
        None \<Rightarrow> None
      | Some (Inl e, k) \<Rightarrow> Some (Inl e, k)
      | Some (Inr pkg, k) \<Rightarrow> after_delivery os cfg fd ip acc pkg parser (write_response os fd pkg k))"

fun rest_of_connection ::
  "os \<Rightarrow> config \<Rightarrow> int \<Rightarrow> string option \<Rightarrow> (nat \<Rightarrow> bool) \<Rightarrow> conn_pc \<Rightarrow> kernel \<Rightarrow> ((cxx_exn + unit) \<times> kernel) option" where
  "rest_of_connection os cfg fd ip acc (Fetching parser) k = connection_loop os cfg fd ip acc parser k"
| "rest_of_connection os cfg fd ip acc (Answering req parser) k =
     after_answer os cfg fd ip acc parser (process_request os cfg req ip (acc (k_tick k)) k)"
| "rest_of_connection os cfg fd ip acc (Delivering pkg parser) k =
     after_delivery os cfg fd ip acc pkg parser (write_response os fd pkg k)"
| "rest_of_connection os cfg fd ip acc Over k = Some (Inr (), k)"

lemma connection_loop_eq:
  "connection_loop os cfg fd ip acc parser k =
     (case next_request os fd parser k of
        None \<Rightarrow> None
      | Some (Connection_over, k1) \<Rightarrow> Some (Inr (), k1)
      | Some (Request_read p1, k1) \<Rightarrow>
          (case get_request p1 of (req, p2) \<Rightarrow> rest_of_connection os cfg fd ip acc (Answering req p2) k1))"
  by (subst connection_loop.simps)
    (simp add: after_answer_def after_delivery_def split: option.split read_outcome.split prod.split sum.split)

lemma connection_step_rest:
  assumes "connection_step os cfg fd ip acc pc k = Some (Inr pc', k')"
  shows "rest_of_connection os cfg fd ip acc pc k = rest_of_connection os cfg fd ip acc pc' k'"
proof (cases pc)
  case (Fetching parser)
  with assms show ?thesis
    by (simp add: connection_loop_eq [of os cfg fd ip acc parser k] del: rest_of_connection.simps(2)
        split: option.splits read_outcome.splits prod.splits)
next
  case (Answering req parser)
  with assms show ?thesis by (auto simp: after_answer_def split: option.splits sum.splits)
next
  case (Delivering pkg parser)
  with assms show ?thesis by (auto simp: after_delivery_def split: option.splits)
qed (use assms in simp)

lemma connection_run_rest:
  "connection_run os cfg fd ip acc c c' \<Longrightarrow>
   rest_of_connection os cfg fd ip acc (fst c) (snd c) = rest_of_connection os cfg fd ip acc (fst c') (snd c')"
  by (induction rule: rtranclp_induct) (auto elim!: connection_rel.cases dest!: connection_step_rest)

lemma connection_loop_run:
  assumes "connection_loop os cfg fd ip acc p k = Some res" "fst res = Inr ()"
  shows "connection_run os cfg fd ip acc (Fetching p, k) (Over, snd res)"
proof (rule mp [OF connection_loop.raw_induct [where P = "\<lambda>os cfg fd ip acc p k res.
    fst res = Inr () \<longrightarrow> connection_run os cfg fd ip acc (Fetching p, k) (Over, snd res)", OF _ assms(1)] assms(2)], rule impI)
  fix f os cfg fd ip acc p k res
  assume IH: "\<And>os cfg fd ip acc p k res. f os cfg fd ip acc p k = Some res \<Longrightarrow>
      fst res = Inr () \<longrightarrow> connection_run os cfg fd ip acc (Fetching p, k) (Over, snd res)"
    and eq: "(case next_request os fd p k of
        None \<Rightarrow> None
      | Some (Request_read parser', k1) \<Rightarrow>
          (case get_request parser' of (req, parser'') \<Rightarrow>
            (case process_request os cfg req ip (acc (k_tick k1)) k1 of
               None \<Rightarrow> None
             | Some (Inl e, k2) \<Rightarrow> Some (Inl e, k2)
             | Some (Inr pkg, k2) \<Rightarrow>
                 (case write_response os fd pkg k2 of
                    None \<Rightarrow> None
                  | Some k3 \<Rightarrow>
                      if rp_close_after pkg then Some (Inr (), k3)
                      else f os cfg fd ip acc parser'' k3)))
      | Some (Connection_over, k1) \<Rightarrow> Some (Inr (), k1)) = Some res"
    and ok: "fst res = Inr ()"
  note step = connection_run_step [where c = "(Over, snd res)"]
  obtain out k1 where nr: "next_request os fd p k = Some (out, k1)"
    using eq by (cases "next_request os fd p k") auto
  show "connection_run os cfg fd ip acc (Fetching p, k) (Over, snd res)"
  proof (cases out)
    case Connection_over
    then have "snd res = k1" using eq nr by auto
    then show ?thesis using nr Connection_over by (intro step [of "Fetching p"]) auto
  next
    case (Request_read p1)
    obtain req p2 where g: "get_request p1 = (req, p2)" by fastforce
    from eq nr Request_read g ok obtain pkg k2 k3 where
      s: "process_request os cfg req ip (acc (k_tick k1)) k1 = Some (Inr pkg, k2)" "write_response os fd pkg k2 = Some k3"
      "(if rp_close_after pkg then Some (Inr (), k3) else f os cfg fd ip acc p2 k3) = Some res"
      by (auto split: option.splits sum.splits)
    have last: "connection_run os cfg fd ip acc (if rp_close_after pkg then Over else Fetching p2, k3) (Over, snd res)"
    proof (cases "rp_close_after pkg")
      case True
      with s(3) have "snd res = k3" by auto
      with True show ?thesis by simp
    next
      case False
      with s(3) have "f os cfg fd ip acc p2 k3 = Some res" by simp
      with mp [OF IH [OF this] ok] False show ?thesis by simp
    qed
    have "connection_run os cfg fd ip acc (Delivering pkg p2, k2) (Over, snd res)"
      by (rule step [OF _ _ last]) (use s(2) in simp_all)
    then have "connection_run os cfg fd ip acc (Answering req p2, k1) (Over, snd res)"
      by (rule step [rotated 2]) (use s(1) in simp_all)
    then show ?thesis by (rule step [rotated 2]) (use nr Request_read g in simp_all)
  qed
qed

text \<open>
  The steps of a connection are the code's loop: going from the first read to the end, without
  an exception, is \<open>handle_connection\<close> returning, with the same calls made.
\<close>

theorem connection_steps_handle:
  "handle_connection os cfg fd client_ip acc k = Some (Inr (), k')
   \<longleftrightarrow> connection_run os cfg fd (if client_ip = [] then None else Some client_ip) acc (Fetching init_parser, k) (Over, k')"
  using connection_loop_run [of os cfg fd "if client_ip = [] then None else Some client_ip" acc init_parser k "(Inr (), k')"]
    connection_run_rest [of os cfg fd "if client_ip = [] then None else Some client_ip" acc "(Fetching init_parser, k)" "(Over, k')"]
  by (auto simp: handle_connection_def)

section \<open>All threads of the thread mode\<close>

record thread_setting =
  th_net :: net
  th_os :: os
  th_config :: config
  th_accepting :: "nat \<Rightarrow> bool"
  th_listen_fd :: int
  th_shutdown_fd :: int
  th_shutdown_write :: int

text \<open>\<open>ts_at\<close>: where each worker is in its connection, if it has one.\<close>

record thread_system =
  ts_pool :: pool
  ts_at :: "conn_pc list"
  ts_kernel :: kernel

definition n_threads :: "thread_setting \<Rightarrow> nat" where
  "n_threads T = nat (cf_n_threads (th_config T))"

definition start_threads :: "thread_setting \<Rightarrow> kernel \<Rightarrow> thread_system" where
  "start_threads T k =
     \<lparr>ts_pool = init_pool (n_threads T), ts_at = replicate (n_threads T) Over, ts_kernel = k\<rparr>"

definition acceptor_turn :: "thread_setting \<Rightarrow> nat \<Rightarrow> thread_system \<Rightarrow> thread_system" where
  "acceptor_turn T j s =
     (case wait_for_accept_or_shutdown (th_net T) (th_os T) (th_shutdown_fd T) (ts_kernel s) of
        ((listen_readable, shutdown_requested), k1) \<Rightarrow>
          (case (if \<not> shutdown_requested \<and> listen_readable then accept_connection (th_os T) (th_listen_fd T) k1
                 else ((-1, []), k1)) of
             (client, k2) \<Rightarrow>
               s\<lparr>ts_pool := acceptor_iteration (listen_readable, shutdown_requested) client j (ts_pool s), ts_kernel := k2\<rparr>))"

text \<open>\<open>command\<close>: the management thread writes to the shutdown pipe.\<close>

inductive thread_step :: "thread_setting \<Rightarrow> thread_system \<Rightarrow> thread_system \<Rightarrow> bool" for T :: thread_setting where
  acceptor: "tp_accepting (ts_pool s) \<Longrightarrow>
    (Asleep \<in> set (tp_workers (ts_pool s)) \<Longrightarrow> j < n_threads T \<and> tp_workers (ts_pool s) ! j = Asleep) \<Longrightarrow>
    thread_step T s (acceptor_turn T j s)"
| dequeue: "i < n_threads T \<Longrightarrow> tp_workers (ts_pool s) ! i = Checking \<Longrightarrow>
    thread_step T s (s\<lparr>ts_pool := worker_dequeue i (ts_pool s), ts_at := (ts_at s)[i := Fetching init_parser]\<rparr>)"
| serve: "i < n_threads T \<Longrightarrow> tp_workers (ts_pool s) ! i = Serving fd ip \<Longrightarrow>
    connection_step (th_os T) (th_config T) fd (if ip = [] then None else Some ip) (th_accepting T) (ts_at s ! i) (ts_kernel s)
      = Some (Inr pc, k) \<Longrightarrow>
    thread_step T s (s\<lparr>ts_at := (ts_at s)[i := pc], ts_kernel := k\<rparr>)"
| finish: "i < n_threads T \<Longrightarrow> tp_workers (ts_pool s) ! i = Serving fd ip \<Longrightarrow> ts_at s ! i = Over \<Longrightarrow>
    thread_step T s (s\<lparr>ts_pool := worker_done i fd (ts_pool s), ts_kernel := sys_close fd (ts_kernel s)\<rparr>)"
| sentinels: "tp_main (ts_pool s) = Join_acceptor \<Longrightarrow> \<not> tp_accepting (ts_pool s) \<Longrightarrow>
    thread_step T s (s\<lparr>ts_pool := push_sentinels (n_threads T) (ts_pool s)\<rparr>)"
| wake_all: "tp_main (ts_pool s) = Notifying \<Longrightarrow>
    thread_step T s (s\<lparr>ts_pool := (ts_pool s)\<lparr>tp_workers := notify_all (tp_workers (ts_pool s)), tp_main := Join_workers\<rparr>\<rparr>)"
| joined: "tp_main (ts_pool s) = Join_workers \<Longrightarrow> list_all (\<lambda>w. w = Exited) (tp_workers (ts_pool s)) \<Longrightarrow>
    thread_step T s (s\<lparr>ts_pool := (ts_pool s)\<lparr>tp_main := Returned\<rparr>\<rparr>)"
| command: "thread_step T s (s\<lparr>ts_kernel := snd (sys_write (th_os T) (th_shutdown_write T) [CHR 0x00] (ts_kernel s))\<rparr>)"
| spurious: "spurious_wakeup (n_threads T) (ts_pool s) p \<Longrightarrow> thread_step T s (s\<lparr>ts_pool := p\<rparr>)"

inductive threads_reachable :: "thread_setting \<Rightarrow> kernel \<Rightarrow> thread_system \<Rightarrow> bool" for T :: thread_setting and k0 :: kernel where
  start: "threads_reachable T k0 (start_threads T k0)"
| step: "threads_reachable T k0 s \<Longrightarrow> thread_step T s s' \<Longrightarrow> threads_reachable T k0 s'"

section \<open>Seen from outside, it is the pool\<close>

lemma thread_step_pool:
  assumes "thread_step T s s'"
  shows "ts_pool s' = ts_pool s \<or> pool_step (n_threads T) (ts_pool s) (ts_pool s')
    \<or> spurious_wakeup (n_threads T) (ts_pool s) (ts_pool s')"
  using assms
proof cases
  case (acceptor j)
  obtain lr sr k1 where w: "wait_for_accept_or_shutdown (th_net T) (th_os T) (th_shutdown_fd T) (ts_kernel s) = ((lr, sr), k1)"
    by (metis prod.collapse)
  obtain fd ip k2 where c: "(if \<not> sr \<and> lr then accept_connection (th_os T) (th_listen_fd T) k1 else ((-1, []), k1)) = ((fd, ip), k2)"
    by (metis prod.collapse)
  have p: "ts_pool s' = acceptor_iteration (lr, sr) (fd, ip) j (ts_pool s)"
    using acceptor(1) w c by (simp add: acceptor_turn_def)
  consider (stop) sr | (client) "\<not> sr" "lr" "0 \<le> fd" | (nobody) "\<not> sr" "\<not> (lr \<and> 0 \<le> fd)" by blast
  then show ?thesis
  proof cases
    case stop
    then have "ts_pool s' = acceptor_iteration (False, True) (fd, ip) j (ts_pool s)" by (simp add: p acceptor_iteration_def)
    then show ?thesis using pool_step.stop_accepting [OF acceptor(2)] by metis
  next
    case client
    then show ?thesis using pool_step.accept [OF acceptor(2) _ acceptor(3)] p by simp
  next
    case nobody
    then have "ts_pool s' = ts_pool s" by (auto simp: p acceptor_iteration_def)
    then show ?thesis by simp
  qed
qed (auto intro: pool_step.intros)

lemma threads_pool_reachable: "threads_reachable T k0 s \<Longrightarrow> pool_reachable (n_threads T) (ts_pool s)"
proof (induction rule: threads_reachable.induct)
  case start
  then show ?case by (simp add: start_threads_def pool_reachable.init)
next
  case (step s s')
  then show ?case using thread_step_pool [OF step.hyps(2)] pool_reachable.step by metis
qed

section \<open>Who owns which descriptor\<close>

definition owned_at :: "conn_pc \<Rightarrow> int list" where
  "owned_at pc = (case pc of Delivering pkg parser \<Rightarrow> owned_pkg pkg | _ \<Rightarrow> [])"

definition worker_owns :: "pool_worker \<times> conn_pc \<Rightarrow> int list" where
  "worker_owns x = (case x of (w, pc) \<Rightarrow> (case w of Serving fd ip \<Rightarrow> fd # owned_at pc | _ \<Rightarrow> []))"

definition thread_fds :: "(pool_worker \<times> conn_pc) list \<Rightarrow> int list" where
  "thread_fds xs = concat (map worker_owns xs)"

definition waiting_fds :: "(int \<times> string) list \<Rightarrow> int list" where
  "waiting_fds q = filter (\<lambda>fd. fd \<noteq> -1) (map fst q)"

definition ts_owned :: "thread_system \<Rightarrow> int list" where
  "ts_owned s = thread_fds (zip (tp_workers (ts_pool s)) (ts_at s)) @ waiting_fds (tp_queue (ts_pool s))"

lemma owned_at_simps [simp]:
  "owned_at (Fetching p) = []" "owned_at (Answering q p) = []" "owned_at Over = []" "owned_at (Delivering pkg p) = owned_pkg pkg"
  by (simp_all add: owned_at_def)

lemma worker_owns_simps [simp]:
  "worker_owns (Serving fd ip, pc) = fd # owned_at pc" "worker_owns (Checking, pc) = []" "worker_owns (Asleep, pc) = []"
  "worker_owns (Exited, pc) = []"
  by (simp_all add: worker_owns_def)

lemma thread_fds_simps [simp]:
  "thread_fds [] = []" "thread_fds (x # xs) = worker_owns x @ thread_fds xs" "thread_fds (xs @ ys) = thread_fds xs @ thread_fds ys"
  by (simp_all add: thread_fds_def)

lemma waiting_fds_simps [simp]:
  "waiting_fds [] = []" "waiting_fds ((fd, ip) # q) = (if fd = -1 then [] else [fd]) @ waiting_fds q"
  "waiting_fds (q @ q') = waiting_fds q @ waiting_fds q'" "waiting_fds (replicate n sentinel) = []"
  by (simp_all add: waiting_fds_def filter_empty_conv)

text \<open>One worker among the others.\<close>

lemma worker_split:
  assumes "i < length ws" "length pcs = length ws"
  obtains us vs where "zip ws pcs = us @ (ws ! i, pcs ! i) # vs" "\<And>w pc. zip (ws[i := w]) (pcs[i := pc]) = us @ (w, pc) # vs"
    "\<And>w. zip (ws[i := w]) pcs = us @ (w, pcs ! i) # vs" "\<And>pc. zip ws (pcs[i := pc]) = us @ (ws ! i, pc) # vs"
proof -
  have i: "i < length (zip ws pcs)" "zip ws pcs ! i = (ws ! i, pcs ! i)" using assms by simp_all
  obtain us vs where s: "zip ws pcs = us @ (ws ! i, pcs ! i) # vs" "\<And>x. (zip ws pcs)[i := x] = us @ x # vs"
    using list_update_split [OF i] by metis
  have u: "zip (ws[i := w]) (pcs[i := pc]) = us @ (w, pc) # vs" for w pc
    using s(2) by (simp add: zip_update)
  show thesis using that [OF s(1) u] u [of _ "pcs ! i"] u [of "ws ! i"] by simp
qed

lemma idle_change:
  assumes "length pcs = length ws" "i < length ws" "ws ! i = Asleep"
  shows "thread_fds (zip (ws[i := Checking]) pcs) = thread_fds (zip ws pcs)"
proof -
  obtain us vs where "zip ws pcs = us @ (ws ! i, pcs ! i) # vs" "zip (ws[i := Checking]) pcs = us @ (Checking, pcs ! i) # vs"
    using worker_split [OF assms(2,1)] by metis
  then show ?thesis using assms(3) by simp
qed

lemma notify_one_fds: "length pcs = length ws \<Longrightarrow> thread_fds (zip (notify_one j ws) pcs) = thread_fds (zip ws pcs)"
  using idle_change by (simp add: notify_one_def)

lemma notify_all_fds: "length pcs = length ws \<Longrightarrow> thread_fds (zip (notify_all ws) pcs) = thread_fds (zip ws pcs)"
  by (induction pcs ws rule: list_induct2) (auto simp: notify_all_def)

lemma connection_step_owns:
  assumes "connection_step os cfg fd ip acc pc k = Some (Inr pc', k')" "waits os" "leaves k0 k (owned_at pc)"
  shows "leaves k0 k' (owned_at pc')"
proof (cases pc)
  case (Fetching parser)
  then obtain out k1 where nr: "next_request os fd parser k = Some (out, k1)" "k1 = k'" "owned_at pc' = []"
    using assms(1) by (auto split: option.splits read_outcome.splits prod.splits)
  have "leaves k k' []" using read_result_leaves [OF next_request_result [OF nr(1)] leaves_ok [OF assms(3)]] nr(2) by simp
  from leaves_trans [OF assms(3) this] show ?thesis using Fetching nr(3) by simp
next
  case (Answering req parser)
  then obtain pkg where p: "process_request os cfg req ip (acc (k_tick k)) k = Some (Inr pkg, k')" "pc' = Delivering pkg parser"
    using assms(1) by (auto split: option.splits sum.splits)
  from leaves_trans [OF assms(3) process_request_leaves [OF assms(2) leaves_ok [OF assms(3)] p(1)]] show ?thesis
    using Answering p(2) by simp
next
  case (Delivering pkg parser)
  then have "write_response os fd pkg k = Some k'" "owned_at pc' = []"
    using assms(1) by (auto split: option.splits)
  with write_response_closes [OF _ this(1), of k0] assms(3) Delivering show ?thesis by simp
qed (use assms in simp)

definition threads_ok :: "kernel \<Rightarrow> thread_system \<Rightarrow> bool" where
  "threads_ok k0 s \<longleftrightarrow> leaves k0 (ts_kernel s) (ts_owned s) \<and> length (ts_at s) = length (tp_workers (ts_pool s))"

lemma acceptor_turn_ok:
  assumes "threads_ok k0 s"
  shows "threads_ok k0 (acceptor_turn T j s)"
proof -
  have l: "leaves k0 (ts_kernel s) (ts_owned s)" "length (ts_at s) = length (tp_workers (ts_pool s))"
    using assms by (simp_all add: threads_ok_def)
  obtain lr sr k1 where w: "wait_for_accept_or_shutdown (th_net T) (th_os T) (th_shutdown_fd T) (ts_kernel s) = ((lr, sr), k1)"
    by (metis prod.collapse)
  have l1: "leaves k0 k1 (ts_owned s)" using wait_same_fds [OF w] l(1) same_fds_leaves by blast
  show ?thesis
  proof (cases "\<not> sr \<and> lr")
    case False
    then have "acceptor_turn T j s = s\<lparr>ts_pool := acceptor_iteration (lr, sr) (-1, []) j (ts_pool s), ts_kernel := k1\<rparr>"
      by (simp only: acceptor_turn_def w prod.case if_False)
    with False l1 l(2) show ?thesis by (auto simp: threads_ok_def ts_owned_def acceptor_iteration_def)
  next
    case True
    obtain fd ip k2 where a: "accept_connection (th_os T) (th_listen_fd T) k1 = ((fd, ip), k2)" by (metis prod.collapse)
    have e: "acceptor_turn T j s = s\<lparr>ts_pool := acceptor_iteration (lr, sr) (fd, ip) j (ts_pool s), ts_kernel := k2\<rparr>"
      using True by (simp add: acceptor_turn_def w a)
    note k2 = accept_connection_leaves [OF a leaves_ok [OF l1]]
    show ?thesis
    proof (cases "fd < 0")
      case neg: True
      then have "leaves k0 k2 (ts_owned s)" using k2 leaves_trans [OF l1, of k2 "[]"] by simp
      with neg True l(2) show ?thesis by (simp add: e threads_ok_def ts_owned_def acceptor_iteration_def)
    next
      case False
      then have "leaves k0 k2 (ts_owned s @ [fd])" using k2 leaves_trans [OF l1, of k2 "[fd]"] by simp
      with False True l(2) show ?thesis
        by (simp add: e threads_ok_def ts_owned_def acceptor_iteration_def notify_one_fds notify_one_keeps)
    qed
  qed
qed

lemma thread_step_ok:
  assumes "thread_step T s s'" "threads_ok k0 s" "waits (th_os T)" "length (tp_workers (ts_pool s)) = n_threads T"
  shows "threads_ok k0 s'"
proof -
  have l: "leaves k0 (ts_kernel s) (ts_owned s)" "length (ts_at s) = length (tp_workers (ts_pool s))"
    using assms(2) by (simp_all add: threads_ok_def)
  show ?thesis using assms(1)
  proof cases
    case (acceptor j)
    then show ?thesis using acceptor_turn_ok [OF assms(2)] by simp
  next
    case (dequeue i)
    have i: "i < length (tp_workers (ts_pool s))" using dequeue(2) assms(4) by simp
    obtain us vs where z: "zip (tp_workers (ts_pool s)) (ts_at s) = us @ (tp_workers (ts_pool s) ! i, ts_at s ! i) # vs"
      "\<And>w pc. zip ((tp_workers (ts_pool s))[i := w]) ((ts_at s)[i := pc]) = us @ (w, pc) # vs"
      using worker_split [OF i l(2)] by metis
    have "mset (ts_owned s') = mset (ts_owned s)"
      using dequeue(3) by (auto simp: dequeue(1) ts_owned_def worker_dequeue_def z split: list.split)
    then show ?thesis
      using l leaves_mset [of "ts_owned s'" "ts_owned s"] by (auto simp: dequeue(1) threads_ok_def worker_dequeue_def split: list.split)
  next
    case (serve i fd ip pc k)
    have i: "i < length (tp_workers (ts_pool s))" using serve(2) assms(4) by simp
    obtain us vs where z: "zip (tp_workers (ts_pool s)) (ts_at s) = us @ (Serving fd ip, ts_at s ! i) # vs"
      "\<And>pc. zip (tp_workers (ts_pool s)) ((ts_at s)[i := pc]) = us @ (Serving fd ip, pc) # vs"
      using worker_split [OF i l(2)] serve(3) by metis
    let ?rest = "thread_fds us @ fd # thread_fds vs @ waiting_fds (tp_queue (ts_pool s))"
    have "leaves k0 (ts_kernel s) (?rest @ owned_at (ts_at s ! i))"
      using l(1) by (subst leaves_mset [of _ "ts_owned s"]) (simp_all add: ts_owned_def z)
    note f = leaves_framed [OF this]
    have "leaves k0 k (?rest @ owned_at pc)"
      using f connection_step_owns [OF serve(4) assms(3)] by blast
    then have "leaves k0 k (ts_owned s')"
      by (subst leaves_mset [of _ "?rest @ owned_at pc"]) (simp_all add: serve(1) ts_owned_def z)
    then show ?thesis using l(2) by (simp add: threads_ok_def serve(1))
  next
    case (finish i fd ip)
    have i: "i < length (tp_workers (ts_pool s))" using finish(2) assms(4) by simp
    obtain us vs where z: "zip (tp_workers (ts_pool s)) (ts_at s) = us @ (Serving fd ip, Over) # vs"
      "\<And>w. zip ((tp_workers (ts_pool s))[i := w]) (ts_at s) = us @ (w, Over) # vs"
      using worker_split [OF i l(2)] finish(3,4) by metis
    let ?rest = "thread_fds us @ thread_fds vs @ waiting_fds (tp_queue (ts_pool s))"
    have "leaves k0 (ts_kernel s) (fd # ?rest)"
      using l(1) by (subst leaves_mset [of _ "ts_owned s"]) (simp_all add: ts_owned_def z)
    from sys_close_leaves [OF this, of fd] have "leaves k0 (sys_close fd (ts_kernel s)) ?rest" by simp
    then show ?thesis using l(2) by (simp add: threads_ok_def finish(1) ts_owned_def worker_done_def z)
  next
    case sentinels
    then show ?thesis using l by (simp add: threads_ok_def ts_owned_def push_sentinels_def)
  next
    case wake_all
    then show ?thesis using l by (simp add: threads_ok_def ts_owned_def notify_all_fds notify_all_keeps)
  next
    case joined
    then show ?thesis using l by (simp add: threads_ok_def ts_owned_def)
  next
    case command
    have "same_fds (ts_kernel s) (snd (sys_write (th_os T) (th_shutdown_write T) [CHR 0x00] (ts_kernel s)))"
      using same_fds_calls(1) [OF prod.collapse [symmetric]] by blast
    then show ?thesis using l same_fds_leaves by (auto simp: command threads_ok_def ts_owned_def)
  next
    case (spurious p)
    from spurious(2) obtain i where "i < n_threads T" "tp_workers (ts_pool s) ! i = Asleep"
      "p = (ts_pool s)\<lparr>tp_workers := (tp_workers (ts_pool s))[i := Checking]\<rparr>" by cases
    then show ?thesis using l idle_change [OF l(2)] assms(4) by (simp add: spurious(1) threads_ok_def ts_owned_def)
  qed
qed

lemma threads_invariant:
  "threads_reachable T k0 s \<Longrightarrow> waits (th_os T) \<Longrightarrow> kernel_ok k0 \<Longrightarrow> 0 < n_threads T \<Longrightarrow> threads_ok k0 s"
proof (induction rule: threads_reachable.induct)
  case start
  have "thread_fds (zip (replicate n Checking) (replicate n Over)) = []" for n by (induction n) simp_all
  then show ?case using start by (simp add: threads_ok_def ts_owned_def start_threads_def init_pool_def)
next
  case (step s s')
  have "length (tp_workers (ts_pool s)) = n_threads T"
    using pool_reachable_inv [OF threads_pool_reachable [OF step.hyps(1)] step.prems(3)] by (auto simp: pool_shape_def)
  then show ?case using thread_step_ok [OF step.hyps(2)] step by blast
qed

section \<open>The thread mode as a whole\<close>

lemma all_exited_fds: "list_all (\<lambda>w. w = Exited) ws \<Longrightarrow> thread_fds (zip ws pcs) = []"
  by (induction ws arbitrary: pcs) (auto simp: zip_Cons1 split: list.split)

lemma returned_owns_nothing:
  assumes "threads_reachable T k0 s" "0 < n_threads T" "tp_main (ts_pool s) = Returned"
  shows "ts_owned s = []"
proof -
  obtain cs m where i: "pool_shape (n_threads T) cs m (ts_pool s)" "pool_awake (ts_pool s)"
    using pool_reachable_inv [OF threads_pool_reachable [OF assms(1)] assms(2)] by blast
  have "tp_queue (ts_pool s) = []" using returned_clean [OF i assms(2,3)] by simp
  moreover have "list_all (\<lambda>w. w = Exited) (tp_workers (ts_pool s))" using i(2) assms(3) by (simp add: pool_awake_def)
  ultimately show ?thesis by (simp add: ts_owned_def all_exited_fds)
qed

text \<open>
  C11: the thread mode refines the pool and owns its descriptors. Whatever the threads do and in
  whatever order, what they have done to the pool is a run of \<open>Thread_Pool\<close>, so all that is proved there
  holds of it; at every moment the descriptors the process has beyond those it started with are
  exactly the connections waiting in the queue, those being served, and the files about to be sent, each
  owned by one thread; and when \<open>run_thread_pool\<close> returns none is left.
\<close>

theorem threads_refine_pool:
  assumes "threads_reachable T k0 s" "waits (th_os T)" "kernel_ok k0" "0 < n_threads T"
  shows "pool_reachable (n_threads T) (ts_pool s)
    \<and> kernel_ok (ts_kernel s) \<and> distinct (ts_owned s) \<and> set (ts_owned s) \<inter> set (k_fds k0) = {}
    \<and> set (k_fds (ts_kernel s)) = set (k_fds k0) \<union> set (ts_owned s)
    \<and> (tp_main (ts_pool s) = Returned \<longrightarrow> set (k_fds (ts_kernel s)) = set (k_fds k0))"
proof -
  have pool: "pool_reachable (n_threads T) (ts_pool s)" by (rule threads_pool_reachable [OF assms(1)])
  have l: "leaves k0 (ts_kernel s) (ts_owned s)"
    using threads_invariant [OF assms] by (simp add: threads_ok_def)
  show ?thesis using pool l returned_owns_nothing [OF assms(1,4)] by (auto simp: leaves_def)
qed

text \<open>One client is accepted, and the third of four workers takes it.\<close>

definition four_threads :: thread_setting where
  "four_threads = \<lparr>th_net = busy_net, th_os = busy_os, th_config = default_config, th_accepting = \<lambda>_. True,
     th_listen_fd = 9, th_shutdown_fd = 1, th_shutdown_write = 2\<rparr>"

theorem threads_refine_pool_witness:
  "\<exists>s. threads_reachable four_threads init_kernel s \<and> tp_accepted (ts_pool s) = [3] \<and> tp_queue (ts_pool s) = []
     \<and> serving (tp_workers (ts_pool s)) = [3] \<and> set (k_fds (ts_kernel s)) = {0, 1, 2, 3}"
proof -
  let ?T = four_threads
  have n: "n_threads ?T = 4" by (simp add: n_threads_def four_threads_def default_config_def)
  have ok: "waits (th_os ?T)" by (simp add: four_threads_def waits_def busy_os_def idle_os_def)
  have ws: "tp_workers (init_pool 4) = [Checking, Checking, Checking, Checking]"
    by (simp add: init_pool_def eval_nat_numeral)
  define s1 where "s1 = acceptor_turn ?T 0 (start_threads ?T init_kernel)"
  have r1: "threads_reachable ?T init_kernel s1" unfolding s1_def
    by (rule threads_reachable.step [OF threads_reachable.start thread_step.acceptor])
      (simp_all add: start_threads_def n init_pool_def)
  have w: "wait_for_accept_or_shutdown (th_net ?T) (th_os ?T) 1 init_kernel = ((True, False), tick init_kernel)"
    by (simp add: four_threads_def wait_for_accept_or_shutdown_def busy_net_def init_kernel_def)
  have c: "fst (accept_connection (th_os ?T) 9 (tick init_kernel)) = (3, ''10.0.0.1'')"
    by (simp add: four_threads_def busy_os_def init_kernel_def accept_connection_def sys_accept_def alloc_fd_def Let_def
        fresh_fd_def tick_def)
  obtain k2 where c: "accept_connection (th_os ?T) 9 (tick init_kernel) = ((3, ''10.0.0.1''), k2)"
    using c by (metis prod.collapse)
  have fds: "th_shutdown_fd ?T = 1" "th_listen_fd ?T = 9" by (simp_all add: four_threads_def)
  have at1: "ts_at s1 = [Over, Over, Over, Over]"
    unfolding s1_def start_threads_def n acceptor_turn_def fds by (simp add: w c eval_nat_numeral)
  have s1: "ts_pool s1 = acceptor_iteration (True, False) (3, ''10.0.0.1'') 0 (init_pool 4)"
    unfolding s1_def start_threads_def n acceptor_turn_def fds by (simp add: w c)
  have p1: "tp_queue (ts_pool s1) = [(3, ''10.0.0.1'')]" "tp_accepted (ts_pool s1) = [3]"
    "tp_workers (ts_pool s1) = [Checking, Checking, Checking, Checking]"
    by (simp_all add: s1 acceptor_iteration_def notify_one_def ws) (simp_all add: init_pool_def)
  define s2 where "s2 = s1\<lparr>ts_pool := worker_dequeue 2 (ts_pool s1), ts_at := (ts_at s1)[2 := Fetching init_parser]\<rparr>"
  have r2: "threads_reachable ?T init_kernel s2" unfolding s2_def
    by (rule threads_reachable.step [OF r1 thread_step.dequeue]) (simp_all add: n p1)
  have p2: "tp_queue (ts_pool s2) = []" "tp_accepted (ts_pool s2) = [3]"
    "tp_workers (ts_pool s2) = [Checking, Checking, Serving 3 ''10.0.0.1'', Checking]"
    by (simp_all add: s2_def p1 worker_dequeue_def)
  have "ts_at s2 = [Over, Over, Fetching init_parser, Over]" by (simp add: s2_def at1)
  then have "ts_owned s2 = [3]" by (simp add: ts_owned_def p2)
  then have "set (k_fds (ts_kernel s2)) = {0, 1, 2, 3}"
    using threads_refine_pool [OF r2 ok init_kernel_ok] n by (auto simp: init_kernel_def)
  then show ?thesis using r2 p2 by (intro exI [of _ s2]) simp
qed

end
