(* ===== verification/Tls_Connection.thy ===== *)
theory Tls_Connection
  imports Connection_Properties
begin

text \<open>
  \<open>server/tls.cpp\<close>: one thread serves one TLS connection. OpenSSL is a parameter (\<open>openssl\<close>): whether
  \<open>SSL_new\<close> succeeds, what \<open>SSL_accept\<close>, \<open>SSL_read\<close> and \<open>SSL_write\<close> return, the bytes \<open>SSL_read\<close> puts
  into the buffer, what \<open>SSL_get_error\<close> says of a return value; all of it may differ from call to call.
  For a TLS connection \<open>received_from\<close> and \<open>sent_to\<close> are the plaintext that went through the channel.
\<close>

section \<open>The library\<close>

datatype ssl_error = SSL_ERROR_WANT_READ | SSL_ERROR_WANT_WRITE | SSL_ERROR_OTHER

record openssl =
  ssl_new :: "nat \<Rightarrow> bool"
  ssl_accept :: "nat \<Rightarrow> int \<Rightarrow> int"
  ssl_read :: "nat \<Rightarrow> int \<Rightarrow> int \<times> string"
  ssl_write :: "nat \<Rightarrow> int \<Rightarrow> string \<Rightarrow> int \<Rightarrow> int"
  ssl_get_error :: "nat \<Rightarrow> int \<Rightarrow> ssl_error"

definition call_ssl_read :: "openssl \<Rightarrow> int \<Rightarrow> kernel \<Rightarrow> (int \<times> string) \<times> kernel" where
  "call_ssl_read lib fd k =
     (let (n, buf) = ssl_read lib (k_tick k) fd; s = take (nat n) buf
      in ((n, s), tick (k\<lparr>k_received := k_received k @ [(fd, s)]\<rparr>)))"

definition call_ssl_write :: "openssl \<Rightarrow> int \<Rightarrow> string \<Rightarrow> int \<Rightarrow> kernel \<Rightarrow> int \<times> kernel" where
  "call_ssl_write lib fd data num k =
     (let w = ssl_write lib (k_tick k) fd data num
      in (w, tick (k\<lparr>k_sent := k_sent k @ [(fd, take (nat w) data)]\<rparr>)))"

text \<open>The process with its \<open>SSL\<close> objects, by the descriptor each is set to.\<close>

record tls_process =
  tl_kernel :: kernel
  tl_objects :: "int list"

definition call_ssl_new :: "openssl \<Rightarrow> int \<Rightarrow> tls_process \<Rightarrow> bool \<times> tls_process" where
  "call_ssl_new lib fd t =
     (let ok = ssl_new lib (k_tick (tl_kernel t)); t1 = t\<lparr>tl_kernel := tick (tl_kernel t)\<rparr>
      in (ok, if ok then t1\<lparr>tl_objects := fd # tl_objects t1\<rparr> else t1))"

definition call_ssl_accept :: "openssl \<Rightarrow> int \<Rightarrow> tls_process \<Rightarrow> int \<times> tls_process" where
  "call_ssl_accept lib fd t = (ssl_accept lib (k_tick (tl_kernel t)) fd, t\<lparr>tl_kernel := tick (tl_kernel t)\<rparr>)"

definition call_ssl_shutdown :: "tls_process \<Rightarrow> tls_process" where
  "call_ssl_shutdown t = t\<lparr>tl_kernel := tick (tl_kernel t)\<rparr>"

definition call_ssl_free :: "int \<Rightarrow> tls_process \<Rightarrow> tls_process" where
  "call_ssl_free fd t = t\<lparr>tl_objects := remove1 fd (tl_objects t)\<rparr>"

section \<open>Writing\<close>

text \<open>\<open>static_cast<int>\<close> of a size.\<close>

definition int_of_size :: "nat \<Rightarrow> int" where
  "int_of_size n = sint (of_nat n :: 32 word)"

partial_function (option) ssl_write_all :: "openssl \<Rightarrow> int \<Rightarrow> string \<Rightarrow> kernel \<Rightarrow> (bool \<times> kernel) option" where
  "ssl_write_all lib fd data k =
     (if data = [] then Some (True, k)
      else case call_ssl_write lib fd data (int_of_size (length data)) k of
             (w, k1) \<Rightarrow>
               if w \<le> 0
               then if ssl_get_error lib (k_tick k1) w = SSL_ERROR_WANT_WRITE then ssl_write_all lib fd data k1
                    else Some (False, k1)
               else ssl_write_all lib fd (drop (nat w) data) k1)"

text \<open>
  A file is read from its position; one call delivers as much of what was asked for as the system
  likes, and nothing at the end of the file.
\<close>

definition sys_read_file :: "os \<Rightarrow> int \<Rightarrow> nat \<Rightarrow> nat \<Rightarrow> kernel \<Rightarrow> io_read \<times> kernel" where
  "sys_read_file os body_fd pos nbyte k =
     (case os_sendfile os (k_tick k) body_fd of
        Wrote n \<Rightarrow> (Got (take (min n nbyte) (drop pos (file_bytes os body_fd k))), tick k)
      | Write_fail e \<Rightarrow> (Read_fail e, tick k))"

definition CHUNK :: nat where
  "CHUNK = 65536"

partial_function (option) ssl_send_body ::
  "openssl \<Rightarrow> os \<Rightarrow> int \<Rightarrow> int \<Rightarrow> nat \<Rightarrow> int \<Rightarrow> kernel \<Rightarrow> kernel option" where
  "ssl_send_body lib os fd body_fd pos remaining k =
     (if remaining \<le> 0 then Some k
      else let to_read = (if remaining < int CHUNK then nat remaining else CHUNK)
           in case sys_read_file os body_fd pos to_read k of
                (Read_fail e, k1) \<Rightarrow> Some k1
              | (Got s, k1) \<Rightarrow>
                  if s = [] then Some k1
                  else (case ssl_write_all lib fd s k1 of
                          None \<Rightarrow> None
                        | Some (written, k2) \<Rightarrow>
                            if \<not> written then Some k2
                            else ssl_send_body lib os fd body_fd (pos + length s) (remaining - int (length s)) k2))"

text \<open>
  The handler has opened the file and not read from it, so its position is 0 unless \<open>lseek\<close> moves it.
  What \<open>ssl_write_all\<close> says of the head is ignored.
\<close>

definition ssl_write_response :: "openssl \<Rightarrow> os \<Rightarrow> int \<Rightarrow> response_package \<Rightarrow> kernel \<Rightarrow> kernel option" where
  "ssl_write_response lib os fd pkg k =
     (case ssl_write_all lib fd (rp_bytes pkg) k of
        None \<Rightarrow> None
      | Some (_, k1) \<Rightarrow>
          if rp_body_fd pkg < 0 then Some k1
          else map_option (sys_close (rp_body_fd pkg))
                 (ssl_send_body lib os fd (rp_body_fd pkg)
                    (if 0 < rp_body_fd_offset pkg then nat (rp_body_fd_offset pkg) else 0) (rp_body_fd_size pkg) k1))"

definition ssl_wants_close :: "http_request \<Rightarrow> bool" where
  "ssl_wants_close req =
     (let conn = get_header (rq_headers req) ''connection''
      in conn \<noteq> [] \<and> find_sub ''close'' (to_lower conn) \<noteq> None)"

section \<open>The connection\<close>

definition tls_error_response :: "request_parser \<Rightarrow> string" where
  "tls_error_response parser =
     (let code = (if ps_error parser = PE_PayloadTooLarge then St_PayloadTooLarge else St_BadRequest)
      in to_bytes (set_header ''Connection'' ''close'' (mk_response code)))"

partial_function (option) ssl_read_request ::
  "openssl \<Rightarrow> int \<Rightarrow> request_parser \<Rightarrow> kernel \<Rightarrow> (read_outcome \<times> kernel) option" where
  "ssl_read_request lib fd parser k =
     (case call_ssl_read lib fd k of
        ((n, s), k1) \<Rightarrow>
          if n = 0 then Some (Connection_over, k1)
          else if n < 0
          then if ssl_get_error lib (k_tick k1) n = SSL_ERROR_WANT_READ then ssl_read_request lib fd parser k1
               else Some (Connection_over, k1)
          else let parser' = feed s parser
               in if has_request parser' then Some (Request_read parser', k1)
                  else if has_error parser'
                  then map_option (\<lambda>(_, k2). (Connection_over, k2)) (ssl_write_all lib fd (tls_error_response parser') k1)
                  else ssl_read_request lib fd parser' k1)"

definition tls_next_request ::
  "openssl \<Rightarrow> int \<Rightarrow> request_parser \<Rightarrow> kernel \<Rightarrow> (read_outcome \<times> kernel) option" where
  "tls_next_request lib fd parser k =
     (if has_request parser then Some (Request_read parser, k)
      else if has_error parser
      then map_option (\<lambda>(_, k1). (Connection_over, k1)) (ssl_write_all lib fd (tls_error_response parser) k)
      else ssl_read_request lib fd parser k)"

definition tls_package :: "http_request \<Rightarrow> http_response \<Rightarrow> response_package" where
  "tls_package req resp0 =
     (let close = ssl_wants_close req;
          resp = set_header ''Connection'' (if close then ''close'' else ''keep-alive'') resp0
      in if 0 \<le> rs_body_fd resp
         then \<lparr>rp_bytes = headers_to_bytes resp, rp_close_after = close, rp_body_fd = rs_body_fd resp,
               rp_body_fd_offset = rs_body_fd_offset resp, rp_body_fd_size = rs_body_fd_size resp\<rparr>
         else \<lparr>rp_bytes = to_bytes resp, rp_close_after = close, rp_body_fd = -1,
               rp_body_fd_offset = 0, rp_body_fd_size = 0\<rparr>)"

partial_function (option) tls_loop ::
  "openssl \<Rightarrow> os \<Rightarrow> config \<Rightarrow> int \<Rightarrow> string option \<Rightarrow> (nat \<Rightarrow> bool) \<Rightarrow> request_parser \<Rightarrow> kernel
   \<Rightarrow> ((cxx_exn + unit) \<times> kernel) option" where
  "tls_loop lib os cfg fd client_ip accepting parser k =
     (case tls_next_request lib fd parser k of
        None \<Rightarrow> None
      | Some (Connection_over, k1) \<Rightarrow> Some (Inr (), k1)
      | Some (Request_read parser', k1) \<Rightarrow>
          (case get_request parser' of (req, parser'') \<Rightarrow>
            (case handle os cfg req (accepting (k_tick k1)) client_ip k1 of
               None \<Rightarrow> None
             | Some (Inl e, k2) \<Rightarrow> Some (Inl e, k2)
             | Some (Inr resp, k2) \<Rightarrow>
                 (let pkg = tls_package req resp
                  in case ssl_write_response lib os fd pkg k2 of
                       None \<Rightarrow> None
                     | Some k3 \<Rightarrow>
                         if rp_close_after pkg then Some (Inr (), k3)
                         else tls_loop lib os cfg fd client_ip accepting parser'' k3))))"

definition handle_tls_connection ::
  "openssl \<Rightarrow> os \<Rightarrow> config \<Rightarrow> int \<Rightarrow> string \<Rightarrow> (nat \<Rightarrow> bool) \<Rightarrow> tls_process \<Rightarrow> ((cxx_exn + unit) \<times> tls_process) option" where
  "handle_tls_connection lib os cfg fd client_ip accepting t =
     (case call_ssl_new lib fd t of (ok, t1) \<Rightarrow>
        if \<not> ok then Some (Inr (), t1)
        else case call_ssl_accept lib fd t1 of (r, t2) \<Rightarrow>
          if r \<le> 0 then Some (Inr (), call_ssl_free fd t2)
          else case tls_loop lib os cfg fd (if client_ip = [] then None else Some client_ip) accepting init_parser
                      (tl_kernel t2) of
                 None \<Rightarrow> None
               | Some (Inl e, k) \<Rightarrow> Some (Inl e, t2\<lparr>tl_kernel := k\<rparr>)
               | Some (Inr u, k) \<Rightarrow> Some (Inr u, call_ssl_free fd (call_ssl_shutdown (t2\<lparr>tl_kernel := k\<rparr>))))"

section \<open>The TLS channel as a transport\<close>

text \<open>
  What the code relies on in OpenSSL: a successful \<open>SSL_read\<close> has filled the bytes it reports; a
  channel that works accepts some of what it is given and no more.
\<close>

definition ssl_fills :: "openssl \<Rightarrow> bool" where
  "ssl_fills lib \<longleftrightarrow> (\<forall>n fd. case ssl_read lib n fd of (r, buf) \<Rightarrow> nat r \<le> length buf)"

definition ssl_reliable :: "openssl \<Rightarrow> bool" where
  "ssl_reliable lib \<longleftrightarrow> (\<forall>n fd data num. 0 < num \<longrightarrow> 0 < ssl_write lib n fd data num \<and> ssl_write lib n fd data num \<le> num)"

lemma ssl_wants_close_eq: "ssl_wants_close req = wants_close req"
  by (simp add: ssl_wants_close_def wants_close_def Let_def)

lemma tls_package_eq: "tls_package req resp = make_package req resp"
  by (simp add: tls_package_def make_package_def ssl_wants_close_eq Let_def)

lemma tls_error_response_eq: "tls_error_response p = error_response p"
  by (simp add: tls_error_response_def error_response_def Let_def)

lemma wire_ssl_read: "call_ssl_read lib fd k = ((n, s), k') \<Longrightarrow> wire fd k k' s [] \<and> (n \<le> 0 \<longrightarrow> s = [])"
  by (auto simp: call_ssl_read_def Let_def wire_def same_fds_def same_history_def sent_to_def received_from_def
      split: prod.splits)

lemma wire_ssl_write: "call_ssl_write lib fd data num k = (w, k') \<Longrightarrow> wire fd k k' [] (take (nat w) data)"
  by (auto simp: call_ssl_write_def Let_def wire_def same_fds_def same_history_def sent_to_def received_from_def)

lemma int_of_size: "0 < n \<Longrightarrow> n < 2 ^ 31 \<Longrightarrow> int_of_size n = int n"
  by (simp add: int_of_size_def signed_of_nat signed_take_bit_int_eq_self)

lemma ssl_write_all_wire:
  assumes "ssl_write_all lib fd data k = Some res"
  shows "\<exists>s. prefix s data \<and> wire fd k (snd res) [] s \<and> (ssl_reliable lib \<and> length data < 2 ^ 31 \<longrightarrow> s = data \<and> fst res)"
proof (rule ssl_write_all.raw_induct [where P = "\<lambda>lib fd data k res. \<exists>s. prefix s data \<and> wire fd k (snd res) [] s
    \<and> (ssl_reliable lib \<and> length data < 2 ^ 31 \<longrightarrow> s = data \<and> fst res)", OF _ assms])
  fix f lib fd data k and res :: "bool \<times> kernel"
  assume IH: "\<And>lib fd data k res. f lib fd data k = Some res \<Longrightarrow> \<exists>s. prefix s data \<and> wire fd k (snd res) [] s
      \<and> (ssl_reliable lib \<and> length data < 2 ^ 31 \<longrightarrow> s = data \<and> fst res)"
    and eq: "(if data = [] then Some (True, k)
      else case call_ssl_write lib fd data (int_of_size (length data)) k of
             (w, k1) \<Rightarrow>
               if w \<le> 0
               then if ssl_get_error lib (k_tick k1) w = SSL_ERROR_WANT_WRITE then f lib fd data k1
                    else Some (False, k1)
               else f lib fd (drop (nat w) data) k1) = Some res"
  show "\<exists>s. prefix s data \<and> wire fd k (snd res) [] s \<and> (ssl_reliable lib \<and> length data < 2 ^ 31 \<longrightarrow> s = data \<and> fst res)"
  proof (cases "data = []")
    case True
    with eq show ?thesis by (auto intro!: exI [of _ "[]"])
  next
    case False
    obtain w k1 where c: "call_ssl_write lib fd data (int_of_size (length data)) k = (w, k1)" by fastforce
    note wr = wire_ssl_write [OF c]
    have w: "w = ssl_write lib (k_tick k) fd data (int_of_size (length data))"
      using c by (simp add: call_ssl_write_def Let_def)
    have pos: "0 < w" if r: "ssl_reliable lib" and len: "length data < 2 ^ 31"
    proof -
      have "0 < int_of_size (length data)" using int_of_size [OF _ len] False by simp
      then show ?thesis using r unfolding w ssl_reliable_def by blast
    qed
    consider (retry) "w \<le> 0" "f lib fd data k1 = Some res" | (failed) "w \<le> 0" "res = (False, k1)"
      | (more) "0 < w" "f lib fd (drop (nat w) data) k1 = Some res"
      using eq unfolding if_not_P [OF False] c prod.case by (metis linorder_not_le option.inject)
    then show ?thesis
    proof cases
      case retry
      then obtain s where s: "prefix s data" "wire fd k1 (snd res) [] s" using IH by blast
      have "wire fd k (snd res) [] s" using wire_trans [OF wr s(2)] retry(1) by simp
      then show ?thesis using s(1) pos retry(1) by (intro exI [of _ s]) auto
    next
      case failed
      then show ?thesis using wr pos by (intro exI [of _ "[]"]) auto
    next
      case more
      then obtain s where s: "prefix s (drop (nat w) data)" "wire fd k1 (snd res) [] s"
          "ssl_reliable lib \<and> length (drop (nat w) data) < 2 ^ 31 \<longrightarrow> s = drop (nat w) data \<and> fst res" using IH by blast
      have "prefix (take (nat w) data @ s) data" using s(1) by (metis append_take_drop_id same_prefix_prefix)
      moreover have "wire fd k (snd res) [] (take (nat w) data @ s)" using wire_trans [OF wr s(2)] by simp
      moreover have "ssl_reliable lib \<and> length data < 2 ^ 31 \<longrightarrow> take (nat w) data @ s = data \<and> fst res"
      proof
        assume r: "ssl_reliable lib \<and> length data < 2 ^ 31"
        then have "length (drop (nat w) data) < 2 ^ 31" by (auto intro: le_less_trans [OF diff_le_self])
        with r s(3) show "take (nat w) data @ s = data \<and> fst res" by (metis append_take_drop_id)
      qed
      ultimately show ?thesis by blast
    qed
  qed
qed

text \<open>
  A file is sent as far as it goes: what is sent is part of what was announced, and all of it if the
  file has not become shorter.
\<close>

lemma reliable_read_file:
  assumes "reliable os" "sys_read_file os b pos n k = (r, k1)" "0 < n"
  shows "\<exists>m > 0. r = Got (take m (drop pos (file_bytes os b k))) \<and> m \<le> n"
proof -
  obtain m where "0 < m" "os_sendfile os (k_tick k) b = Wrote m" using assms(1) unfolding reliable_def by blast
  then show ?thesis using assms(2,3) by (intro exI [of _ "min m n"]) (simp add: sys_read_file_def)
qed

lemma sys_read_file_wire: "sys_read_file os b pos n k = (r, k1) \<Longrightarrow> wire fd k k1 [] [] \<and> k1 = tick k \<and> (r = Got s \<longrightarrow> length s \<le> n)"
  by (auto simp: sys_read_file_def wire_def same_fds_def same_history_def sent_to_def received_from_def
      split: io_write.splits)

definition tls_ok :: "openssl \<Rightarrow> os \<Rightarrow> bool" where
  "tls_ok lib os \<longleftrightarrow> ssl_reliable lib \<and> reliable os \<and> files_fixed os"

lemma ssl_send_body_wire:
  assumes "ssl_send_body lib os fd b pos rem k = Some k'"
  shows "\<exists>s. wire fd k k' [] s \<and> (tls_ok lib os \<longrightarrow> s = take (nat rem) (drop pos (file_bytes os b k)))"
proof (rule ssl_send_body.raw_induct [where P = "\<lambda>lib os fd b pos rem k k'. \<exists>s. wire fd k k' [] s
    \<and> (tls_ok lib os \<longrightarrow> s = take (nat rem) (drop pos (file_bytes os b k)))", OF _ assms])
  fix f lib os fd b pos rem k k'
  let ?F = "\<lambda>k. file_bytes os b k"
  assume IH: "\<And>lib os fd b pos rem k k'. f lib os fd b pos rem k = Some k' \<Longrightarrow> \<exists>s. wire fd k k' [] s
      \<and> (tls_ok lib os \<longrightarrow> s = take (nat rem) (drop pos (file_bytes os b k)))"
    and eq: "(if rem \<le> 0 then Some k
      else let to_read = (if rem < int CHUNK then nat rem else CHUNK)
           in case sys_read_file os b pos to_read k of
                (Read_fail e, k1) \<Rightarrow> Some k1
              | (Got s, k1) \<Rightarrow>
                  if s = [] then Some k1
                  else (case ssl_write_all lib fd s k1 of
                          None \<Rightarrow> None
                        | Some (written, k2) \<Rightarrow>
                            if \<not> written then Some k2
                            else f lib os fd b (pos + length s) (rem - int (length s)) k2)) = Some k'"
  show "\<exists>s. wire fd k k' [] s \<and> (tls_ok lib os \<longrightarrow> s = take (nat rem) (drop pos (?F k)))"
  proof (cases "rem \<le> 0")
    case True
    with eq show ?thesis by (intro exI [of _ "[]"]) simp
  next
    case False
    define n where "n = (if rem < int CHUNK then nat rem else CHUNK)"
    have n: "0 < n" "n \<le> nat rem" "n < 2 ^ 31" using False by (auto simp: n_def CHUNK_def)
    obtain r k1 where rd: "sys_read_file os b pos n k = (r, k1)" by fastforce
    have w1: "wire fd k k1 [] []" "\<And>s. r = Got s \<Longrightarrow> length s \<le> n" using sys_read_file_wire [OF rd] by blast+
    have good: "\<exists>m > 0. r = Got (take m (drop pos (?F k))) \<and> m \<le> n" if "tls_ok lib os"
      using reliable_read_file [OF _ rd n(1)] that by (simp add: tls_ok_def)
    have eq': "(case r of Read_fail e \<Rightarrow> Some k1
              | Got s \<Rightarrow>
                  if s = [] then Some k1
                  else (case ssl_write_all lib fd s k1 of
                          None \<Rightarrow> None
                        | Some (written, k2) \<Rightarrow>
                            if \<not> written then Some k2
                            else f lib os fd b (pos + length s) (rem - int (length s)) k2)) = Some k'"
      using eq False rd by (simp add: n_def [symmetric] Let_def split: io_read.splits)
    show ?thesis
    proof (cases r)
      case (Read_fail e)
      then have "k' = k1" "\<not> tls_ok lib os" using eq' good by auto
      then show ?thesis using w1(1) by blast
    next
      case (Got s)
      show ?thesis
      proof (cases "s = []")
        case True
        then have "k' = k1" using eq' Got by simp
        moreover have "drop pos (?F k) = []" if "tls_ok lib os"
          using good [OF that] Got True by (auto simp: take_eq_Nil)
        ultimately show ?thesis using w1(1) by (intro exI [of _ "[]"]) auto
      next
        case more: False
        then obtain written k2 where wa: "ssl_write_all lib fd s k1 = Some (written, k2)"
          "(if \<not> written then Some k2 else f lib os fd b (pos + length s) (rem - int (length s)) k2) = Some k'"
          using eq' Got by (auto split: option.splits)
        have ls: "length s < 2 ^ 31" using w1(2) [OF Got] n(3) by simp
        obtain s1 where s1: "wire fd k1 k2 [] s1" "ssl_reliable lib \<longrightarrow> s1 = s \<and> written"
          using ssl_write_all_wire [OF wa(1)] ls by auto
        have w2: "wire fd k k2 [] s1" using wire_trans [OF w1(1) s1(1)] by simp
        show ?thesis
        proof (cases written)
          case False
          then have "k' = k2" "\<not> tls_ok lib os" using wa(2) s1(2) by (auto simp: tls_ok_def)
          then show ?thesis using w2 by blast
        next
          case True
          then have "f lib os fd b (pos + length s) (rem - int (length s)) k2 = Some k'" using wa(2) by simp
          from IH [OF this] obtain t where t: "wire fd k2 k' [] t"
            "tls_ok lib os \<longrightarrow> t = take (nat (rem - int (length s))) (drop (pos + length s) (?F k2))" by blast
          have "s1 @ t = take (nat rem) (drop pos (?F k))" if ok: "tls_ok lib os"
          proof -
            have F: "?F k2 = ?F k"
              using w2 ok by (intro fixed_file_bytes) (auto simp: wire_def same_fds_def tls_ok_def)
            obtain m where m: "s = take m (drop pos (?F k))" "m \<le> n" using good [OF ok] Got by auto
            have "length s \<le> nat rem" using w1(2) [OF Got] n(2) by simp
            then have r: "nat rem = length s + nat (rem - int (length s))" by simp
            have "s = take (length s) (drop pos (?F k))" using m by (metis append_eq_conv_conj append_take_drop_id)
            moreover have "t = take (nat (rem - int (length s))) (drop (length s) (drop pos (?F k)))"
              using t(2) ok F by (simp add: add.commute)
            moreover have "s1 = s" using s1(2) ok by (simp add: tls_ok_def)
            ultimately show ?thesis by (subst r) (metis take_add)
          qed
          then show ?thesis using wire_trans [OF w2 t(1)] by (intro exI [of _ "s1 @ t"]) simp
        qed
      qed
    qed
  qed
qed

lemma error_response_bound:
  "length (to_bytes (set_header ''Connection'' ''close'' (mk_response St_PayloadTooLarge))) < 1000"
  "length (to_bytes (set_header ''Connection'' ''close'' (mk_response St_BadRequest))) < 1000"
  by code_simp+

lemma error_response_short: "length (error_response p) < 2 ^ 31"
proof -
  have "error_response p = to_bytes (set_header ''Connection'' ''close'' (mk_response St_PayloadTooLarge))
      \<or> error_response p = to_bytes (set_header ''Connection'' ''close'' (mk_response St_BadRequest))"
    unfolding error_response_def by (cases "ps_error p = PE_PayloadTooLarge") (simp_all only: if_True if_False simp_thms)
  then have "length (error_response p) < 1000" using error_response_bound by (elim disjE) (simp_all only:)
  then show ?thesis by (rule less_trans) simp
qed

text \<open>The serialised response, or its head followed by no more bytes than announced.\<close>

definition tls_delivered :: "response_package \<Rightarrow> string \<Rightarrow> bool" where
  "tls_delivered pkg b \<longleftrightarrow> (length (rp_bytes pkg) < 2 ^ 31 \<longrightarrow>
     (if rp_body_fd pkg < 0 then b = rp_bytes pkg
      else \<exists>body. b = rp_bytes pkg @ body \<and> length body \<le> nat (rp_body_fd_size pkg)))"

lemma ssl_write_response_wire:
  assumes "ssl_write_response lib os fd pkg k = Some k'"
  shows "\<exists>s k1. wire fd k k1 [] s \<and> k' = (if rp_body_fd pkg < 0 then k1 else sys_close (rp_body_fd pkg) k1)
    \<and> (tls_ok lib os \<and> length (rp_bytes pkg) < 2 ^ 31 \<longrightarrow>
        s = rp_bytes pkg @ (if rp_body_fd pkg < 0 then [] else announced_body os pkg k))"
proof -
  obtain sent k0 where wa: "ssl_write_all lib fd (rp_bytes pkg) k = Some (sent, k0)"
    using assms by (cases "ssl_write_all lib fd (rp_bytes pkg) k") (auto simp: ssl_write_response_def)
  obtain s0 where s0: "wire fd k k0 [] s0" "tls_ok lib os \<and> length (rp_bytes pkg) < 2 ^ 31 \<longrightarrow> s0 = rp_bytes pkg"
    using ssl_write_all_wire [OF wa] by (auto simp: tls_ok_def)
  show ?thesis
  proof (cases "rp_body_fd pkg < 0")
    case True
    then have "k' = k0" using assms wa by (simp add: ssl_write_response_def)
    then show ?thesis using True s0 by (intro exI [of _ s0] exI [of _ k0]) auto
  next
    case False
    have "(if 0 < rp_body_fd_offset pkg then nat (rp_body_fd_offset pkg) else 0) = nat (rp_body_fd_offset pkg)" by simp
    then obtain k1 where k1: "ssl_send_body lib os fd (rp_body_fd pkg) (nat (rp_body_fd_offset pkg)) (rp_body_fd_size pkg) k0 = Some k1"
      "k' = sys_close (rp_body_fd pkg) k1"
      using assms wa False by (auto simp: ssl_write_response_def)
    obtain s1 where s1: "wire fd k0 k1 [] s1" "tls_ok lib os \<longrightarrow>
        s1 = take (nat (rp_body_fd_size pkg)) (drop (nat (rp_body_fd_offset pkg)) (file_bytes os (rp_body_fd pkg) k0))"
      using ssl_send_body_wire [OF k1(1)] by blast
    have "file_bytes os (rp_body_fd pkg) k0 = file_bytes os (rp_body_fd pkg) k" if "tls_ok lib os"
      using s0(1) that by (intro fixed_file_bytes) (auto simp: wire_def same_fds_def tls_ok_def)
    then show ?thesis
      using wire_trans [OF s0(1) s1(1)] s0(2) s1(2) k1(2) False
      by (intro exI [of _ "s0 @ s1"] exI [of _ k1]) (auto simp: announced_body_def)
  qed
qed

lemma ssl_write_response_delivers:
  assumes "ssl_write_response lib os fd pkg k = Some k'"
  shows "\<exists>s k1. wire fd k k1 [] s \<and> k' = (if rp_body_fd pkg < 0 then k1 else sys_close (rp_body_fd pkg) k1)
    \<and> (tls_ok lib os \<longrightarrow> tls_delivered pkg s)"
proof -
  have "length (announced_body os pkg k) \<le> nat (rp_body_fd_size pkg)" by (simp add: announced_body_def)
  then have "tls_delivered pkg (rp_bytes pkg @ (if rp_body_fd pkg < 0 then [] else announced_body os pkg k))"
    by (auto simp: tls_delivered_def)
  moreover have "tls_delivered pkg s" if "\<not> length (rp_bytes pkg) < 2 ^ 31" for s
    using that by (simp add: tls_delivered_def)
  ultimately show ?thesis
    using ssl_write_response_wire [OF assms] by metis
qed

lemma ssl_read_request_reading:
  assumes "ssl_read_request lib fd p k = Some res" "ssl_fills lib"
  shows "reading (ssl_reliable lib) fd p k res"
proof (rule mp [OF ssl_read_request.raw_induct
    [where P = "\<lambda>lib fd p k res. ssl_fills lib \<longrightarrow> reading (ssl_reliable lib) fd p k res", OF _ assms(1)] assms(2)], rule impI)
  fix f lib fd p k res
  assume IH: "\<And>lib fd p k res. f lib fd p k = Some res \<Longrightarrow> ssl_fills lib \<longrightarrow> reading (ssl_reliable lib) fd p k res"
    and eq: "(case call_ssl_read lib fd k of
        ((n, s), k1) \<Rightarrow>
          if n = 0 then Some (Connection_over, k1)
          else if n < 0
          then if ssl_get_error lib (k_tick k1) n = SSL_ERROR_WANT_READ then f lib fd p k1
               else Some (Connection_over, k1)
          else let parser' = feed s p
               in if has_request parser' then Some (Request_read parser', k1)
                  else if has_error parser'
                  then map_option (\<lambda>(_, k2). (Connection_over, k2)) (ssl_write_all lib fd (tls_error_response parser') k1)
                  else f lib fd parser' k1) = Some res"
    and fills: "ssl_fills lib"
  obtain n s k1 where rd: "call_ssl_read lib fd k = ((n, s), k1)" by (metis prod.collapse)
  note w = conjunct1 [OF wire_ssl_read [OF rd]]
  have s: "s = take (nat n) (snd (ssl_read lib (k_tick k) fd))" "n = fst (ssl_read lib (k_tick k) fd)"
    using rd by (auto simp: call_ssl_read_def Let_def split: prod.splits)
  show "reading (ssl_reliable lib) fd p k res"
  proof (cases "n \<le> 0")
    case True
    then have w0: "wire fd k k1 [] []" using w wire_ssl_read [OF rd] by simp
    have "res = (Connection_over, k1) \<or> f lib fd p k1 = Some res"
      using eq rd True by (auto split: if_splits)
    then show ?thesis using reading.over [OF w0] reading.again [OF w0] IH fills by blast
  next
    case False
    have ne: "s \<noteq> []"
    proof
      assume "s = []"
      then have "snd (ssl_read lib (k_tick k) fd) = []" using s(1) False by (simp add: take_eq_Nil)
      moreover have "nat n \<le> length (snd (ssl_read lib (k_tick k) fd))"
        using fills s(2) by (auto simp: ssl_fills_def split: prod.splits)
      ultimately show False using \<open>\<not> n \<le> 0\<close> by simp
    qed
    have eq': "(if has_request (feed s p) then Some (Request_read (feed s p), k1)
                  else if has_error (feed s p)
                  then map_option (\<lambda>(_, k2). (Connection_over, k2)) (ssl_write_all lib fd (error_response (feed s p)) k1)
                  else f lib fd (feed s p) k1) = Some res"
      using eq rd False unfolding tls_error_response_eq by (simp add: Let_def)
    consider (request) "has_request (feed s p)" | (bad) "\<not> has_request (feed s p)" "has_error (feed s p)"
      | (more) "need_more (feed s p)" by (auto simp: need_more_def)
    then show ?thesis
    proof cases
      case request
      with eq' reading.request [OF w ne request] show ?thesis by simp
    next
      case bad
      then obtain written k2 where wa: "ssl_write_all lib fd (error_response (feed s p)) k1 = Some (written, k2)"
          "res = (Connection_over, k2)"
        using eq' by (cases "ssl_write_all lib fd (error_response (feed s p)) k1") auto
      obtain t where "wire fd k1 k2 [] t" "ssl_reliable lib \<longrightarrow> t = error_response (feed s p)"
        using ssl_write_all_wire [OF wa(1)] error_response_short by auto
      from reading.bad [OF w ne bad(2) this] show ?thesis unfolding wa(2) .
    next
      case more
      then have "f lib fd (feed s p) k1 = Some res" using eq' by (simp add: need_more_def)
      from reading.more [OF w ne more mp [OF IH [OF this] fills]] show ?thesis .
    qed
  qed
qed

lemma tls_next_request_result:
  assumes "tls_next_request lib fd p k = Some res" "ssl_fills lib"
  shows "read_result (ssl_reliable lib) fd p k res"
proof (rule next_result)
  show "res = (Request_read p, k)" if "has_request p" using assms(1) that by (simp add: tls_next_request_def)
next
  assume e: "\<not> has_request p" "has_error p"
  then obtain written k1 where wa: "ssl_write_all lib fd (error_response p) k = Some (written, k1)"
      "res = (Connection_over, k1)"
    using assms(1) by (cases "ssl_write_all lib fd (error_response p) k") (auto simp: tls_next_request_def tls_error_response_eq)
  obtain t where "wire fd k k1 [] t" "ssl_reliable lib \<longrightarrow> t = error_response p"
    using ssl_write_all_wire [OF wa(1)] error_response_short by auto
  then show "\<exists>k1 s. res = (Connection_over, k1) \<and> wire fd k k1 [] s \<and> (ssl_reliable lib \<longrightarrow> s = error_response p)"
    using wa(2) by blast
next
  assume "need_more p"
  then show "reading (ssl_reliable lib) fd p k res"
    using assms ssl_read_request_reading by (simp add: tls_next_request_def need_more_def)
qed

interpretation tls: transport "\<lambda>p k. if ssl_fills lib then tls_next_request lib fd p k else None"
    "\<lambda>pkg k. ssl_write_response lib os fd pkg k" "tls_ok lib os" fd tls_delivered for lib os fd
proof
  show "read_result (tls_ok lib os) fd p k res"
    if "(if ssl_fills lib then tls_next_request lib fd p k else None) = Some res" for p k res
  proof -
    have "read_result (ssl_reliable lib) fd p k res"
      using that tls_next_request_result by (auto split: if_splits)
    then show ?thesis by (rule read_result_weaken) (simp add: tls_ok_def)
  qed
qed (rule ssl_write_response_delivers)

lemma tls_loop_serves:
  assumes "tls_loop lib os cfg fd ip acc p k = Some res" "fst res = Inr () \<and> ssl_fills lib"
  shows "tls.serves lib fd os os cfg ip p k (snd res)"
proof (rule mp [OF tls_loop.raw_induct [where P = "\<lambda>lib os cfg fd ip acc p k res.
    fst res = Inr () \<and> ssl_fills lib \<longrightarrow> tls.serves lib fd os os cfg ip p k (snd res)", OF _ assms(1)] assms(2)], rule impI)
  fix f lib os cfg fd ip acc p k res
  assume IH: "\<And>lib os cfg fd ip acc p k res. f lib os cfg fd ip acc p k = Some res \<Longrightarrow>
      fst res = Inr () \<and> ssl_fills lib \<longrightarrow> tls.serves lib fd os os cfg ip p k (snd res)"
    and eq: "(case tls_next_request lib fd p k of
        None \<Rightarrow> None
      | Some (Request_read parser', k1) \<Rightarrow>
          (case get_request parser' of (req, parser'') \<Rightarrow>
            (case handle os cfg req (acc (k_tick k1)) ip k1 of
               None \<Rightarrow> None
             | Some (Inl e, k2) \<Rightarrow> Some (Inl e, k2)
             | Some (Inr resp, k2) \<Rightarrow>
                 (let pkg = tls_package req resp
                  in case ssl_write_response lib os fd pkg k2 of
                       None \<Rightarrow> None
                     | Some k3 \<Rightarrow>
                         if rp_close_after pkg then Some (Inr (), k3)
                         else f lib os cfg fd ip acc parser'' k3)))
      | Some (Connection_over, k1) \<Rightarrow> Some (Inr (), k1)) = Some res"
    and ok: "fst res = Inr () \<and> ssl_fills lib"
  obtain out k1 where nr: "tls_next_request lib fd p k = Some (out, k1)"
    using eq by (cases "tls_next_request lib fd p k") auto
  then have nr': "(if ssl_fills lib then tls_next_request lib fd p k else None) = Some (out, k1)" using ok by simp
  show "tls.serves lib fd os os cfg ip p k (snd res)"
  proof (cases out)
    case Connection_over
    then have "res = (Inr (), k1)" using eq nr by simp
    then have "snd res = k1" by simp
    then show ?thesis using tls.serves.over [OF nr' [unfolded Connection_over]] by (rule ssubst)
  next
    case (Request_read p1)
    obtain req p2 where g: "get_request p1 = (req, p2)" by fastforce
    from eq nr Request_read g ok obtain resp k2 k3 where
      step: "handle os cfg req (acc (k_tick k1)) ip k1 = Some (Inr resp, k2)"
      "ssl_write_response lib os fd (make_package req resp) k2 = Some k3"
      "(if wants_close req then Some (Inr (), k3) else f lib os cfg fd ip acc p2 k3) = Some res"
      by (auto simp: Let_def tls_package_eq split: option.splits sum.splits)
    have "process_request os cfg req ip (acc (k_tick k1)) k1 = Some (Inr (make_package req resp), k2)"
      using step(1) by (simp add: process_request_def)
    note one = nr' [unfolded Request_read] g this step(2)
    show ?thesis
    proof (cases "wants_close req")
      case True
      then have "snd res = k3" using step(3) by auto
      then show ?thesis using tls.serves.closing [OF one True] by (rule ssubst)
    next
      case False
      then have "f lib os cfg fd ip acc p2 k3 = Some res" using step(3) by simp
      from IH [OF this] ok have rest: "tls.serves lib fd os os cfg ip p2 k3 (snd res)" by (rule mp)
      show ?thesis by (rule tls.serves.another [OF one False rest])
    qed
  qed
qed

section \<open>What a TLS connection promises\<close>

definition tls_exchange_ok :: "exchange \<Rightarrow> bool" where
  "tls_exchange_ok x \<longleftrightarrow> (case x of (q, r, t, b) \<Rightarrow> tls_delivered (make_package q r) b)"

lemma sys_ssl_table [simp]:
  "tl_kernel (call_ssl_free fd t) = tl_kernel t" "tl_kernel (call_ssl_shutdown t) = tick (tl_kernel t)"
  "tl_objects (call_ssl_free fd t) = remove1 fd (tl_objects t)" "tl_objects (call_ssl_shutdown t) = tl_objects t"
  by (simp_all add: call_ssl_free_def call_ssl_shutdown_def)

definition tls_established :: "openssl \<Rightarrow> int \<Rightarrow> kernel \<Rightarrow> bool" where
  "tls_established lib fd k \<longleftrightarrow> ssl_new lib (k_tick k) \<and> 0 < ssl_accept lib (Suc (k_tick k)) fd"

lemma handle_tls_eq:
  "handle_tls_connection lib os cfg fd client_ip acc t =
     (let k = tick (tick (tl_kernel t)); own = fd # tl_objects t
      in if \<not> ssl_new lib (k_tick (tl_kernel t)) then Some (Inr (), t\<lparr>tl_kernel := tick (tl_kernel t)\<rparr>)
         else if \<not> tls_established lib fd (tl_kernel t) then Some (Inr (), t\<lparr>tl_kernel := k, tl_objects := remove1 fd own\<rparr>)
         else case tls_loop lib os cfg fd (if client_ip = [] then None else Some client_ip) acc init_parser k of
                None \<Rightarrow> None
              | Some (Inl e, k1) \<Rightarrow> Some (Inl e, t\<lparr>tl_kernel := k1, tl_objects := own\<rparr>)
              | Some (Inr u, k1) \<Rightarrow> Some (Inr u, t\<lparr>tl_kernel := tick k1, tl_objects := remove1 fd own\<rparr>))"
proof (cases "ssl_new lib (k_tick (tl_kernel t))")
  case new: True
  show ?thesis
  proof (cases "tls_established lib fd (tl_kernel t)")
    case True
    then show ?thesis
      using new by (simp add: handle_tls_connection_def call_ssl_new_def call_ssl_accept_def tls_established_def Let_def
          call_ssl_free_def call_ssl_shutdown_def split: option.split sum.split)
  next
    case False
    then show ?thesis
      using new by (simp add: handle_tls_connection_def call_ssl_new_def call_ssl_accept_def tls_established_def Let_def
          call_ssl_free_def)
  qed
next
  case False
  then show ?thesis by (simp add: handle_tls_connection_def call_ssl_new_def)
qed

lemma handle_tls_cases:
  assumes "handle_tls_connection lib os cfg fd client_ip acc t = Some (Inr (), t')"
  obtains (refused) "\<not> tls_established lib fd (tl_kernel t)" "tl_objects t' = tl_objects t"
      "same_io (tl_kernel t) (tl_kernel t')" "same_fds (tl_kernel t) (tl_kernel t')"
      "k_log (tl_kernel t') = k_log (tl_kernel t)"
    | (served) k k' where "tls_established lib fd (tl_kernel t)" "tl_objects t' = tl_objects t"
        "k = tick (tick (tl_kernel t))" "tl_kernel t' = tick k'"
        "tls_loop lib os cfg fd (if client_ip = [] then None else Some client_ip) acc init_parser k = Some (Inr (), k')"
proof -
  note eq = assms [unfolded handle_tls_eq Let_def]
  consider "\<not> ssl_new lib (k_tick (tl_kernel t))"
    | "ssl_new lib (k_tick (tl_kernel t))" "\<not> tls_established lib fd (tl_kernel t)"
    | "tls_established lib fd (tl_kernel t)" by (auto simp: tls_established_def)
  then show thesis
  proof cases
    case 1
    then have "t' = t\<lparr>tl_kernel := tick (tl_kernel t)\<rparr>" using eq by simp
    with 1 show thesis by (intro refused) (simp_all add: same_fds_def tls_established_def)
  next
    case 2
    then have "tl_kernel t' = tick (tick (tl_kernel t)) \<and> tl_objects t' = tl_objects t" using eq by auto
    with 2 show thesis by (intro refused) (simp_all add: same_fds_def)
  next
    case 3
    then have new: "ssl_new lib (k_tick (tl_kernel t))" by (simp add: tls_established_def)
    obtain res k' where l: "tls_loop lib os cfg fd (if client_ip = [] then None else Some client_ip) acc init_parser
        (tick (tick (tl_kernel t))) = Some (res, k')"
      using eq 3 new by (cases "tls_loop lib os cfg fd (if client_ip = [] then None else Some client_ip) acc init_parser
        (tick (tick (tl_kernel t)))") auto
    then have "res = Inr ()" "tl_kernel t' = tick k' \<and> tl_objects t' = tl_objects t"
      using eq 3 new by (cases res; auto)+
    with 3 l show thesis by (intro served [OF _ _ refl]) simp_all
  qed
qed

lemma handle_tls_leaves:
  assumes "handle_tls_connection lib os cfg fd client_ip acc t = Some (Inr (), t')"
    and "ssl_fills lib" "waits os" "kernel_ok (tl_kernel t)"
  shows "leaves (tl_kernel t) (tl_kernel t') [] \<and> tl_objects t' = tl_objects t"
  using assms(1)
proof (cases rule: handle_tls_cases)
  case refused
  then show ?thesis
    using assms(4) same_fds_leaves [of "tl_kernel t" "tl_kernel t'" "tl_kernel t" "[]"] by simp
next
  case (served k k')
  have "kernel_ok k" using assms(4) served(3) by simp
  then have "leaves k k' []"
    using tls.serves_leaves [OF tls_loop_serves [OF served(5)]] assms(2,3) by simp
  then show ?thesis using served by simp
qed

text \<open>
  C25: a TLS connection leaks nothing. When \<open>handle_tls_connection\<close> returns, at whatever point (no SSL
  object, a failed handshake, a broken transfer, malformed input, a normal end), every descriptor it
  or a handler opened is closed, none was closed twice, and every SSL object it made has been freed.
\<close>

theorem tls_leaks_nothing:
  assumes "handle_tls_connection lib os cfg fd client_ip acc t = Some (Inr (), t')"
    and "ssl_fills lib" "waits os" "kernel_ok (tl_kernel t)"
  shows "kernel_ok (tl_kernel t') \<and> set (k_fds (tl_kernel t')) = set (k_fds (tl_kernel t)) \<and> tl_objects t' = tl_objects t"
  using handle_tls_leaves [OF assms] by (simp add: leaves_def)


section \<open>Over a working channel every response is sent\<close>

lemma ssl_write_all_returns:
  assumes "ssl_reliable lib" "length data < 2 ^ 31"
  shows "\<exists>k'. ssl_write_all lib fd data k = Some (True, k')"
  using assms(2)
proof (induction "length data" arbitrary: data k rule: less_induct)
  case less
  show ?case
  proof (cases "data = []")
    case True
    then show ?thesis by (simp add: ssl_write_all.simps)
  next
    case False
    obtain w k1 where c: "call_ssl_write lib fd data (int_of_size (length data)) k = (w, k1)" by fastforce
    have w: "w = ssl_write lib (k_tick k) fd data (int_of_size (length data))"
      using c by (simp add: call_ssl_write_def Let_def)
    have "0 < int_of_size (length data)" using int_of_size [OF _ less.prems] False by simp
    then have pos: "0 < w" using assms(1) unfolding w ssl_reliable_def by blast
    then have shorter: "length (drop (nat w) data) < length data" using False by simp
    then have "length (drop (nat w) data) < 2 ^ 31" using less.prems by (rule less_trans)
    with less.hyps [OF shorter] obtain k' where "ssl_write_all lib fd (drop (nat w) data) k1 = Some (True, k')" by blast
    then show ?thesis using False c pos by (subst ssl_write_all.simps) simp
  qed
qed

lemma ssl_send_body_returns:
  assumes "tls_ok lib os"
  shows "\<exists>k'. ssl_send_body lib os fd b pos rem k = Some k'"
proof (induction "nat rem" arbitrary: pos rem k rule: less_induct)
  case less
  show ?case
  proof (cases "rem \<le> 0")
    case True
    then show ?thesis by (simp add: ssl_send_body.simps)
  next
    case False
    define n where "n = (if rem < int CHUNK then nat rem else CHUNK)"
    have n: "0 < n" "n < 2 ^ 31" using False by (auto simp: n_def CHUNK_def)
    obtain r k1 where rd: "sys_read_file os b pos n k = (r, k1)" by fastforce
    obtain s where s: "r = Got s"
      using reliable_read_file [OF _ rd n(1)] assms by (auto simp: tls_ok_def)
    have eq: "ssl_send_body lib os fd b pos rem k =
        (if s = [] then Some k1
         else (case ssl_write_all lib fd s k1 of
                 None \<Rightarrow> None
               | Some (written, k2) \<Rightarrow>
                   if \<not> written then Some k2
                   else ssl_send_body lib os fd b (pos + length s) (rem - int (length s)) k2))"
      using False rd s by (subst ssl_send_body.simps) (simp add: n_def [symmetric] Let_def)
    show ?thesis
    proof (cases "s = []")
      case True
      with eq show ?thesis by simp
    next
      case more: False
      have "length s \<le> n" using sys_read_file_wire [OF rd] s by blast
      then have "length s < 2 ^ 31" using n(2) by (rule le_less_trans)
      then obtain k2 where "ssl_write_all lib fd s k1 = Some (True, k2)"
        using ssl_write_all_returns assms by (meson tls_ok_def)
      moreover have "nat (rem - int (length s)) < nat rem" using more False by simp
      then have "\<exists>k'. ssl_send_body lib os fd b (pos + length s) (rem - int (length s)) k2 = Some k'" by (rule less.hyps)
      ultimately show ?thesis using eq more by simp
    qed
  qed
qed

text \<open>
  Delivery over TLS. Over a channel that works, \<open>ssl_write_response\<close> always comes back, with the head
  of the response and the announced part of the file sent, in however many records, and the
  file closed. A file that has become shorter ends the loop, which \<open>sendfile\<close> on a plain connection does not.
\<close>

theorem tls_response_delivered:
  assumes "tls_ok lib os" "length (rp_bytes pkg) < 2 ^ 31" "0 \<le> rp_body_fd pkg"
  shows "\<exists>k'. ssl_write_response lib os fd pkg k = Some k'
    \<and> sent_to fd k' = sent_to fd k @ rp_bytes pkg @ announced_body os pkg k
    \<and> rp_body_fd pkg \<notin> set (k_fds k')"
proof -
  obtain k0 where "ssl_write_all lib fd (rp_bytes pkg) k = Some (True, k0)"
    using ssl_write_all_returns assms(1,2) by (meson tls_ok_def)
  moreover obtain k1 where "ssl_send_body lib os fd (rp_body_fd pkg)
      (if 0 < rp_body_fd_offset pkg then nat (rp_body_fd_offset pkg) else 0) (rp_body_fd_size pkg) k0 = Some k1"
    using ssl_send_body_returns [OF assms(1)] by blast
  ultimately have r: "\<exists>k'. ssl_write_response lib os fd pkg k = Some k'"
    using assms(3) by (simp add: ssl_write_response_def)
  then obtain k' where k': "ssl_write_response lib os fd pkg k = Some k'" by blast
  obtain s k2 where w: "wire fd k k2 [] s" "k' = sys_close (rp_body_fd pkg) k2"
    "s = rp_bytes pkg @ announced_body os pkg k"
    using ssl_write_response_wire [OF k'] assms by auto
  then have "sent_to fd k' = sent_to fd k @ rp_bytes pkg @ announced_body os pkg k \<and> rp_body_fd pkg \<notin> set (k_fds k')"
    by (auto simp: wire_def sent_to_def sys_close_def)
  then show ?thesis using k' by blast
qed

section \<open>Silent clients\<close>

lemma ssl_read_request_idle:
  assumes "\<And>n fd r. fst (ssl_read lib n fd) < 0 \<and> ssl_get_error lib n r = SSL_ERROR_WANT_READ"
  shows "ssl_read_request lib fd p k = None"
proof -
  have False if "ssl_read_request lib fd p k = Some res" for res
  proof (rule mp [OF ssl_read_request.raw_induct [where P = "\<lambda>lib' fd p k res. lib' = lib \<longrightarrow> False", OF _ that] refl], rule impI)
    fix f :: "openssl \<Rightarrow> int \<Rightarrow> request_parser \<Rightarrow> kernel \<Rightarrow> (read_outcome \<times> kernel) option" and lib' fd p k res
    assume IH: "\<And>lib' fd p k res. f lib' fd p k = Some res \<Longrightarrow> lib' = lib \<longrightarrow> False"
      and eq: "(case call_ssl_read lib' fd k of
        ((n, s), k1) \<Rightarrow>
          if n = 0 then Some (Connection_over, k1)
          else if n < 0
          then if ssl_get_error lib' (k_tick k1) n = SSL_ERROR_WANT_READ then f lib' fd p k1
               else Some (Connection_over, k1)
          else let parser' = feed s p
               in if has_request parser' then Some (Request_read parser', k1)
                  else if has_error parser'
                  then map_option (\<lambda>(_, k2). (Connection_over, k2)) (ssl_write_all lib' fd (tls_error_response parser') k1)
                  else f lib' fd parser' k1) = Some res"
      and l: "lib' = lib"
    obtain n s k1 where rd: "call_ssl_read lib fd k = ((n, s), k1)" by (metis prod.collapse)
    have "n < 0" using rd assms [of "k_tick k" fd] by (auto simp: call_ssl_read_def Let_def split: prod.splits)
    then have "f lib fd p k1 = Some res" using eq rd assms unfolding l by simp
    with IH show False by blast
  qed
  then show ?thesis by (cases "ssl_read_request lib fd p k") auto
qed


section \<open>A run\<close>

definition talk_lib :: openssl where
  "talk_lib = \<lparr>ssl_new = \<lambda>_. True, ssl_accept = \<lambda>_ _. 1,
     ssl_read = \<lambda>n _. if n = 2 then (int (length hello), hello) else (0, []),
     ssl_write = \<lambda>_ _ _ num. num, ssl_get_error = \<lambda>_ _. SSL_ERROR_OTHER\<rparr>"

definition silent_lib :: openssl where
  "silent_lib = talk_lib\<lparr>ssl_read := \<lambda>_ _. (-1, []), ssl_get_error := \<lambda>_ _. SSL_ERROR_WANT_READ\<rparr>"

definition start_tls :: tls_process where
  "start_tls = \<lparr>tl_kernel = init_kernel, tl_objects = []\<rparr>"

lemma talk_lib_ok: "ssl_fills talk_lib" "tls_ok talk_lib talk_os" "tls_established talk_lib 0 init_kernel"
  using talk_os_ok
  by (simp_all add: talk_lib_def ssl_fills_def tls_ok_def ssl_reliable_def tls_established_def)

lemma hello_at_once: "has_request (feed hello init_parser)" "wants_close (fst (get_request (feed hello init_parser)))"
  by code_simp+

lemma service_unavailable_short: "length (rp_bytes (make_package q (mk_response St_ServiceUnavailable))) < 2 ^ 31"
proof -
  have "length (to_bytes (set_header ''Connection'' c (mk_response St_ServiceUnavailable))) < 1000"
    if "c = ''close'' \<or> c = ''keep-alive''" for c
    using that by (elim disjE) (simp_all only:, code_simp+)
  moreover have "rp_bytes (make_package q (mk_response St_ServiceUnavailable))
      = to_bytes (set_header ''Connection'' (if wants_close q then ''close'' else ''keep-alive'') (mk_response St_ServiceUnavailable))"
    by (simp add: make_package_def Let_def mk_response_def set_header_def)
  ultimately have "length (rp_bytes (make_package q (mk_response St_ServiceUnavailable))) < 1000" by simp
  then show ?thesis by (rule less_trans) simp
qed

lemma tls_talk_run: "\<exists>t'. handle_tls_connection talk_lib talk_os default_config 0 ''10.0.0.1'' acc start_tls = Some (Inr (), t')"
proof -
  define p1 where "p1 = feed hello init_parser"
  obtain req p2 where g: "get_request p1 = (req, p2)" by fastforce
  have close: "wants_close req" using hello_at_once(2) g by (simp add: p1_def)
  let ?k = "tick (tick init_kernel)"
  have "k_tick ?k = 2" by (simp add: init_kernel_def)
  moreover have ne: "hello \<noteq> []" "take (length hello) hello = hello" by (simp_all add: hello_def)
  ultimately obtain k1 where "call_ssl_read talk_lib 0 ?k = ((int (length hello), hello), k1)"
    by (simp add: call_ssl_read_def talk_lib_def Let_def)
  then have "ssl_read_request talk_lib 0 init_parser ?k = Some (Request_read p1, k1)"
    using hello_at_once(1) ne(1) by (subst ssl_read_request.simps) (simp add: p1_def)
  then have nr: "tls_next_request talk_lib 0 init_parser ?k = Some (Request_read p1, k1)"
    using hello_parsed(7,8) by (simp add: tls_next_request_def)
  have "\<exists>k2. handle talk_os default_config req (acc (k_tick k1)) (Some ''10.0.0.1'') k1
      = Some (Inr (mk_response St_ServiceUnavailable), k2)"
  proof -
    have "resolve_vhost default_config req = None" by (simp add: resolve_vhost_def default_config_def Let_def)
    then show ?thesis by (simp add: handle_decide decide_def logged_def sys_time_def)
  qed
  then obtain k2 where h: "handle talk_os default_config req (acc (k_tick k1)) (Some ''10.0.0.1'') k1
      = Some (Inr (mk_response St_ServiceUnavailable), k2)" by blast
  let ?pkg = "make_package req (mk_response St_ServiceUnavailable)"
  obtain k3 where "ssl_write_all talk_lib 0 (rp_bytes ?pkg) k2 = Some (True, k3)"
    using ssl_write_all_returns service_unavailable_short talk_lib_ok(2) by (meson tls_ok_def)
  moreover have "rp_body_fd ?pkg < 0" by (simp add: make_package_def mk_response_def set_header_def Let_def)
  ultimately have w: "ssl_write_response talk_lib talk_os 0 ?pkg k2 = Some k3"
    by (simp add: ssl_write_response_def)
  have "tls_loop talk_lib talk_os default_config 0 (Some ''10.0.0.1'') acc init_parser ?k = Some (Inr (), k3)"
    using nr g h w close by (subst tls_loop.simps) (simp add: tls_package_eq)
  then show ?thesis
    using talk_lib_ok(3) by (simp add: handle_tls_eq Let_def start_tls_def tls_established_def)
qed

theorem tls_leaks_nothing_witness:
  "\<exists>t'. handle_tls_connection talk_lib talk_os default_config 0 ''10.0.0.1'' (\<lambda>_. True) start_tls = Some (Inr (), t')
     \<and> set (k_fds (tl_kernel t')) = {0, 1, 2} \<and> tl_objects t' = []"
proof -
  obtain t' where r: "handle_tls_connection talk_lib talk_os default_config 0 ''10.0.0.1'' (\<lambda>_. True) start_tls = Some (Inr (), t')"
    using tls_talk_run by blast
  have "kernel_ok (tl_kernel start_tls)" "tl_kernel start_tls = init_kernel" "tl_objects start_tls = []"
    using init_kernel_ok by (simp_all add: start_tls_def)
  with tls_leaks_nothing [OF r talk_lib_ok(1) talk_os_ok(1)] r init_kernel_fds show ?thesis by auto
qed


theorem tls_response_delivered_witness:
  "\<exists>k'. ssl_write_response talk_lib (idle_os\<lparr>os_content := \<lambda>_ _. Some ''hello''\<rparr>) 0
      \<lparr>rp_bytes = ''head'', rp_close_after = True, rp_body_fd = 2, rp_body_fd_offset = 1, rp_body_fd_size = 9\<rparr>
      init_kernel = Some k' \<and> sent_to 0 k' = ''headello'' \<and> 2 \<notin> set (k_fds k')"
proof -
  let ?os = "idle_os\<lparr>os_content := \<lambda>_ _. Some ''hello''\<rparr>"
  have "tls_ok talk_lib ?os"
    by (simp add: tls_ok_def ssl_reliable_def talk_lib_def reliable_def files_fixed_def idle_os_def)
  moreover have "file_bytes ?os 2 init_kernel = ''hello''" by (simp add: file_bytes_def init_kernel_def)
  moreover have "sent_to 0 init_kernel = []" by (simp add: sent_to_def init_kernel_def)
  ultimately show ?thesis
    using tls_response_delivered [of talk_lib ?os "\<lparr>rp_bytes = ''head'', rp_close_after = True, rp_body_fd = 2,
        rp_body_fd_offset = 1, rp_body_fd_size = 9\<rparr>" 0 init_kernel]
    by (auto simp: announced_body_def)
qed


end
