(* ===== verification/Server.thy ===== *)
theory Server
  imports Listening Tls_Connection
begin

text \<open>
  \<open>server/server.cpp\<close>: the main thread opens the listening sockets and the shutdown pipe, starts the
  threads, waits for them and closes what it opened; with the certificate set-up and the acceptor of
  the HTTPS listener. What the connection threads do between being started and being joined is in
  \<open>Thread_Pool\<close>, \<open>Event_Loop\<close>, \<open>Select_Shutdown\<close> and \<open>Tls_Connection\<close>; here it is the argument \<open>threads\<close>, which
  takes the process from the start of the threads to their being joined, or never comes back (\<open>None\<close>).
\<close>

section \<open>The TLS context\<close>

text \<open>OpenSSL's answers for the context; \<open>live\<close> counts the contexts not yet freed.\<close>

record ssl_ctx_lib =
  ctx_new :: bool
  ctx_use_certificate :: "string \<Rightarrow> bool"
  ctx_use_key :: "string \<Rightarrow> bool"
  ctx_check_key :: "string \<Rightarrow> string \<Rightarrow> bool"

definition SSL_CTX_free :: "nat \<Rightarrow> nat" where
  "SSL_CTX_free live = live - 1"

definition ssl_context_init :: "ssl_ctx_lib \<Rightarrow> string \<Rightarrow> string \<Rightarrow> nat \<Rightarrow> bool \<times> nat" where
  "ssl_context_init lib cert_path key_path live =
     (if \<not> ctx_new lib then (False, live)
      else let live1 = Suc live; cert = c_str cert_path; key = c_str key_path
           in if \<not> ctx_use_certificate lib cert then (False, SSL_CTX_free live1)
              else if \<not> ctx_use_key lib key then (False, SSL_CTX_free live1)
              else if \<not> ctx_check_key lib cert key then (False, SSL_CTX_free live1)
              else (True, live1))"

lemma ssl_context_init_frees:
  "snd (ssl_context_init lib cert key live) = (if fst (ssl_context_init lib cert key live) then Suc live else live)"
  by (simp add: ssl_context_init_def SSL_CTX_free_def Let_def)

section \<open>HTTPS clients\<close>

text \<open>The acceptor starts one detached thread for each client, until \<open>accept\<close> fails for any reason.\<close>

partial_function (option) tls_acceptor_loop ::
  "os \<Rightarrow> int \<Rightarrow> (int \<times> string) list \<Rightarrow> kernel \<Rightarrow> ((int \<times> string) list \<times> kernel) option" where
  "tls_acceptor_loop os tls_fd started k =
     (case accept_connection os tls_fd k of
        ((cfd, cip), k1) \<Rightarrow>
          if cfd < 0 then Some (started, k1) else tls_acceptor_loop os tls_fd (started @ [(cfd, cip)]) k1)"

definition tls_client_thread ::
  "openssl \<Rightarrow> os \<Rightarrow> config \<Rightarrow> int \<Rightarrow> string \<Rightarrow> (nat \<Rightarrow> bool) \<Rightarrow> tls_process \<Rightarrow> ((cxx_exn + unit) \<times> tls_process) option" where
  "tls_client_thread lib os cfg cfd cip accepting t =
     (case handle_tls_connection lib os cfg cfd cip accepting t of
        None \<Rightarrow> None
      | Some (Inl e, t1) \<Rightarrow> Some (Inl e, t1)
      | Some (Inr u, t1) \<Rightarrow> Some (Inr u, t1\<lparr>tl_kernel := sys_close cfd (tl_kernel t1)\<rparr>))"

lemma tls_client_closes:
  assumes "tls_client_thread lib os cfg cfd cip acc t = Some (Inr (), t')"
    and "ssl_fills lib" "waits os" "kernel_ok (tl_kernel t)" "cfd \<in> set (k_fds (tl_kernel t))"
  shows "kernel_ok (tl_kernel t') \<and> set (k_fds (tl_kernel t')) = set (k_fds (tl_kernel t)) - {cfd} \<and> tl_objects t' = tl_objects t"
proof -
  obtain t1 where t1: "handle_tls_connection lib os cfg cfd cip acc t = Some (Inr (), t1)"
    "t' = t1\<lparr>tl_kernel := sys_close cfd (tl_kernel t1)\<rparr>"
    using assms(1) by (auto simp: tls_client_thread_def split: option.splits sum.splits)
  show ?thesis using handle_tls_leaves [OF t1(1) assms(2-4)] close_client [OF _ assms(5)] t1(2) by auto
qed

text \<open>Each client accepted gets one thread, with a descriptor of its own.\<close>

lemma tls_acceptor_starts:
  assumes "tls_acceptor_loop os tls_fd started k = Some r" "kernel_ok k"
  shows "\<exists>new. fst r = started @ new \<and> leaves k (snd r) (map fst new)"
proof (rule mp [OF tls_acceptor_loop.raw_induct [where P = "\<lambda>os tls_fd started k r.
    kernel_ok k \<longrightarrow> (\<exists>new. fst r = started @ new \<and> leaves k (snd r) (map fst new))", OF _ assms(1)] assms(2)], rule impI)
  fix f os tls_fd started k r
  assume IH: "\<And>os tls_fd started k r. f os tls_fd started k = Some r \<Longrightarrow>
      kernel_ok k \<longrightarrow> (\<exists>new. fst r = started @ new \<and> leaves k (snd r) (map fst new))"
    and eq: "(case accept_connection os tls_fd k of
        ((cfd, cip), k1) \<Rightarrow> if cfd < 0 then Some (started, k1) else f os tls_fd (started @ [(cfd, cip)]) k1) = Some r"
    and ok: "kernel_ok k"
  obtain cfd cip k1 where a: "accept_connection os tls_fd k = ((cfd, cip), k1)" by (metis prod.collapse)
  note l = accept_connection_leaves [OF a ok]
  show "\<exists>new. fst r = started @ new \<and> leaves k (snd r) (map fst new)"
  proof (cases "cfd < 0")
    case True
    then show ?thesis using eq a l ok by (intro exI [of _ "[]"]) auto
  next
    case False
    then have rec: "f os tls_fd (started @ [(cfd, cip)]) k1 = Some r" and l1: "leaves k k1 [cfd]" using eq a l by simp_all
    obtain new where new: "fst r = (started @ [(cfd, cip)]) @ new" "leaves k1 (snd r) (map fst new)"
      using mp [OF IH [OF rec] leaves_ok [OF l1]] by blast
    have "leaves k (snd r) (map fst ((cfd, cip) # new))" using leaves_trans [OF l1 new(2)] by simp
    then show ?thesis using new(1) by (intro exI [of _ "(cfd, cip) # new"]) simp
  qed
qed

text \<open>
  The HTTPS listener is not robust: the first \<open>accept\<close> that fails, for instance because the process has run
  out of descriptors or a client has already gone, ends its acceptor for good.
\<close>

lemma tls_acceptor_stops:
  "os_accept os (k_tick k) tls_fd = None \<Longrightarrow> tls_acceptor_loop os tls_fd started k = Some (started, tick k)"
  by (simp add: tls_acceptor_loop.simps accept_connection_def sys_accept_def)

section \<open>Starting and stopping\<close>

definition start_tls_listener :: "net \<Rightarrow> ssl_ctx_lib \<Rightarrow> config \<Rightarrow> endpoints \<Rightarrow> int \<times> endpoints" where
  "start_tls_listener net lib cfg e =
     (if cf_tls_cert_file cfg \<noteq> [] \<and> cf_tls_key_file cfg \<noteq> []
      then if \<not> fst (ssl_context_init lib (cf_tls_cert_file cfg) (cf_tls_key_file cfg) 0) then (-1, e)
           else create_listen_socket net (cf_tls_port cfg) 15 e
      else (-1, e))"

text \<open>Which of the threads joined at the end come to an end.\<close>

record thread_ends =
  te_tls :: bool
  te_management :: bool

definition server_run ::
  "net \<Rightarrow> os \<Rightarrow> ssl_ctx_lib \<Rightarrow> (mode \<Rightarrow> int \<Rightarrow> int \<Rightarrow> endpoints \<Rightarrow> (int \<times> endpoints) option) \<Rightarrow> thread_ends \<Rightarrow> config
   \<Rightarrow> endpoints \<Rightarrow> (int \<times> endpoints) option" where
  "server_run net os lib threads ends cfg e =
     (case create_listen_socket net (cf_listen_port cfg) 15 e of (server_fd, e1) \<Rightarrow>
        if server_fd < 0 then Some (1, e1)
        else case sys_pipe os (ep_kernel e1) of
               (None, k2) \<Rightarrow> Some (1, close_socket server_fd (e1\<lparr>ep_kernel := k2\<rparr>))
             | (Some (pipe_read, pipe_write), k2) \<Rightarrow>
                 (case start_tls_listener net lib cfg (e1\<lparr>ep_kernel := k2\<rparr>) of (tls_fd, e3) \<Rightarrow>
                    (case threads (cf_mode cfg) server_fd pipe_read e3 of
                       None \<Rightarrow> None
                     | Some (result, e4) \<Rightarrow>
                         (let e5 = close_socket server_fd e4;
                              e6 = (if 0 \<le> tls_fd then close_socket tls_fd e5 else e5)
                          in if 0 \<le> tls_fd \<and> \<not> te_tls ends then None
                             else let e7 = on_kernel (sys_close pipe_write) (on_kernel (sys_close pipe_read) e6)
                                  in if \<not> te_management ends then None else Some (result, e7)))))"

text \<open>\<open>run_select_loops\<close> around its threads: the wake pipe.\<close>

definition run_select_loops ::
  "os \<Rightarrow> (int \<Rightarrow> int \<Rightarrow> endpoints \<Rightarrow> endpoints option) \<Rightarrow> endpoints \<Rightarrow> (int \<times> endpoints) option" where
  "run_select_loops os loops e =
     (case sys_pipe os (ep_kernel e) of
        (None, k1) \<Rightarrow> Some (1, e\<lparr>ep_kernel := k1\<rparr>)
      | (Some (wake_read, wake_write), k1) \<Rightarrow>
          map_option (\<lambda>e1. (0, on_kernel (sys_close wake_write) (on_kernel (sys_close wake_read) e1)))
            (loops wake_read wake_write (e\<lparr>ep_kernel := k1\<rparr>)))"

section \<open>The program\<close>

text \<open>\<open>main\<close>, with the content of the configuration file, what \<open>getcwd\<close> and \<open>realpath\<close> return, and the server to run.\<close>

definition main_program ::
  "(string \<Rightarrow> string option) \<Rightarrow> string option \<Rightarrow> string option \<Rightarrow> (config \<Rightarrow> endpoints \<Rightarrow> (int \<times> endpoints) option)
   \<Rightarrow> endpoints \<Rightarrow> (int \<times> endpoints) option" where
  "main_program realpath cwd file run e =
     (case load_config file default_config of (ok, cfg) \<Rightarrow>
        if \<not> ok then Some (1, e) else run (resolve_document_roots realpath cwd cfg) e)"

text \<open>With a configuration that does not load, nothing is opened.\<close>

lemma main_program_refuses: "\<not> fst (load_config file default_config) \<Longrightarrow> main_program realpath cwd file run e = Some (1, e)"
  unfolding main_program_def by (cases "load_config file default_config") simp

section \<open>The server releases what it opened\<close>

text \<open>\<open>borrows e e' fds bs ls\<close>: from \<open>e\<close> to \<open>e'\<close> the descriptors \<open>fds\<close>, the bound ports \<open>bs\<close> and the listening sockets \<open>ls\<close> were added.\<close>

definition borrows :: "endpoints \<Rightarrow> endpoints \<Rightarrow> int list \<Rightarrow> (int \<times> 16 word) list \<Rightarrow> (int \<times> int) list \<Rightarrow> bool" where
  "borrows e e' fds bs ls \<longleftrightarrow> leaves (ep_kernel e) (ep_kernel e') fds \<and> ep_bound e' = bs @ ep_bound e
     \<and> ep_listening e' = ls @ ep_listening e \<and> fst ` set bs \<subseteq> set fds \<and> fst ` set ls \<subseteq> set fds"

lemma borrows_close_socket:
  assumes "borrows e e' fds bs ls" "endpoints_ok e" "fd \<in> set fds"
  shows "borrows e (close_socket fd e') (remove1 fd fds) (filter (\<lambda>b. fst b \<noteq> fd) bs) (filter (\<lambda>l. fst l \<noteq> fd) ls)"
proof -
  have l: "leaves (ep_kernel e) (ep_kernel e') fds" using assms(1) by (simp add: borrows_def)
  then have "fd \<notin> set (k_fds (ep_kernel e))" using assms(3) by (auto simp: leaves_def simp del: set_map)
  then have free: "fd \<notin> fst ` set (ep_bound e)" "fd \<notin> fst ` set (ep_listening e)"
    using assms(2) unfolding endpoints_ok_def by blast+
  have "set (remove1 fd fds) = set fds - {fd}" using l by (simp add: leaves_def)
  then show ?thesis
    using assms(1) sys_close_leaves [OF l assms(3)] free
    by (auto simp: borrows_def close_socket_def filter_fresh)
qed

lemma borrows_close_fd:
  assumes "borrows e e' fds bs ls" "fd \<in> set fds" "fd \<notin> fst ` set bs" "fd \<notin> fst ` set ls"
  shows "borrows e (on_kernel (sys_close fd) e') (remove1 fd fds) bs ls"
proof -
  have l: "leaves (ep_kernel e) (ep_kernel e') fds" using assms(1) by (simp add: borrows_def)
  have "set (remove1 fd fds) = set fds - {fd}" using l by (simp add: leaves_def)
  then show ?thesis
    using assms sys_close_leaves [OF l assms(2)] by (auto simp: borrows_def on_kernel_def)
qed

lemma borrows_trans:
  "borrows e e1 as bs ls \<Longrightarrow> borrows e1 e2 as' bs' ls' \<Longrightarrow> borrows e e2 (as @ as') (bs' @ bs) (ls' @ ls)"
  using leaves_trans by (auto simp: borrows_def)

lemma borrows_socket:
  assumes "endpoints_ok e" "create_listen_socket net port backlog e = (fd, e')"
  shows "endpoints_ok e' \<and> (if fd < 0 then borrows e e' [] [] [] else (\<exists>p. borrows e e' [fd] [(fd, p)] [(fd, backlog)]))"
proof -
  note s = socket_all_or_nothing [OF assms]
  then have k: "kernel_ok (ep_kernel e')" by (simp add: endpoints_ok_def)
  show ?thesis
  proof (cases "fd < 0")
    case True
    with s k show ?thesis by (simp add: borrows_def leaves_def)
  next
    case False
    then obtain p where "ep_bound e' = (fd, p) # ep_bound e" using s by auto
    then have "borrows e e' [fd] [(fd, p)] [(fd, backlog)]" using s k False by (simp add: borrows_def leaves_def)
    with s False show ?thesis by auto
  qed
qed

lemma borrows_ok: "endpoints_ok e \<Longrightarrow> borrows e e' fds bs ls \<Longrightarrow> endpoints_ok e'"
proof -
  assume ok: "endpoints_ok e" and b: "borrows e e' fds bs ls"
  have k: "set (k_fds (ep_kernel e')) = set (k_fds (ep_kernel e)) \<union> set fds" "kernel_ok (ep_kernel e')"
    using b by (simp_all add: borrows_def leaves_def)
  have "fst ` set (ep_bound e') = fst ` set bs \<union> fst ` set (ep_bound e)"
    "fst ` set (ep_listening e') = fst ` set ls \<union> fst ` set (ep_listening e)"
    using b by (simp_all add: borrows_def image_Un)
  then show ?thesis
    using ok b k unfolding endpoints_ok_def borrows_def by (metis Un_mono Un_commute)
qed

lemma borrows_pipe:
  assumes "kernel_ok (ep_kernel e)" "sys_pipe os (ep_kernel e) = (r, k')"
  shows "borrows e (e\<lparr>ep_kernel := k'\<rparr>) (case r of None \<Rightarrow> [] | Some (a, b) \<Rightarrow> [a, b]) [] []"
proof -
  show ?thesis
  proof (cases r)
    case None
    then have "k' = tick (ep_kernel e)" using sys_pipe_none assms(2) by blast
    then show ?thesis using None assms(1) by (simp add: borrows_def)
  next
    case (Some ab)
    then show ?thesis using sys_pipe_leaves(1) [OF assms(1)] assms(2)
      by (cases ab) (fastforce simp: borrows_def leaves_def)
  qed
qed

lemma borrows_tls:
  assumes "endpoints_ok e" "start_tls_listener net lib cfg e = (fd, e')"
  shows "if fd < 0 then borrows e e' [] [] [] else (\<exists>p. borrows e e' [fd] [(fd, p)] [(fd, 15)])"
proof -
  have "borrows e e [] [] []" using assms(1) by (simp add: borrows_def endpoints_ok_def)
  moreover have "(fd, e') = (-1, e) \<or> create_listen_socket net (cf_tls_port cfg) 15 e = (fd, e')"
    using assms(2) unfolding start_tls_listener_def by (auto split: if_splits)
  ultimately show ?thesis using borrows_socket [OF assms(1)] by (elim disjE) (simp, blast)
qed

text \<open>Closing, in the order of the code, everything that was opened.\<close>

lemma close_all:
  assumes "borrows e e4 (fd # r # w # tls) bs ls" "endpoints_ok e" "fst ` set bs \<subseteq> insert fd (set tls)"
    "fst ` set ls \<subseteq> insert fd (set tls)" "tls = (if 0 \<le> t then [t] else [])"
  shows "borrows e (on_kernel (sys_close w) (on_kernel (sys_close r)
      (if 0 \<le> t then close_socket t (close_socket fd e4) else close_socket fd e4))) [] [] []"
proof -
  define bs1 where "bs1 = filter (\<lambda>b. fst b \<noteq> fd) bs"
  define ls1 where "ls1 = filter (\<lambda>l. fst l \<noteq> fd) ls"
  have d: "distinct (fd # r # w # tls)" using assms(1) by (simp add: borrows_def leaves_def)
  have b1: "borrows e (close_socket fd e4) (r # w # tls) bs1 ls1"
    using borrows_close_socket [OF assms(1,2), of fd] d by (simp add: bs1_def ls1_def)
  have sub: "fst ` set bs1 \<subseteq> set tls" "fst ` set ls1 \<subseteq> set tls" using assms(3,4) by (auto simp: bs1_def ls1_def)
  let ?e6 = "if 0 \<le> t then close_socket t (close_socket fd e4) else close_socket fd e4"
  have b2: "borrows e ?e6 [r, w] [] []"
  proof (cases "0 \<le> t")
    case True
    then have t: "tls = [t]" using assms(5) by simp
    have "filter (\<lambda>b. fst b \<noteq> t) bs1 = []" "filter (\<lambda>l. fst l \<noteq> t) ls1 = []"
      using sub t by (auto simp: filter_empty_conv)
    then show ?thesis using borrows_close_socket [OF b1 assms(2), of t] d t True by simp
  next
    case False
    then show ?thesis using b1 sub assms(5) by simp
  qed
  have b3: "borrows e (on_kernel (sys_close r) ?e6) [w] [] []" using borrows_close_fd [OF b2, of r] by simp
  show ?thesis using borrows_close_fd [OF b3, of w] by simp
qed

text \<open>
  The server releases what it opened. Whether the port cannot be bound, the pipe cannot be made,
  the certificate or the HTTPS port is unusable, or the server ran and was shut down: when
  \<open>HttpServer::run\<close> returns, the process has the descriptors, bound ports and listening sockets it had
  before. (The threads are taken to leave the tables as they found them.)
\<close>

theorem server_run_releases:
  assumes run: "server_run net os lib threads ends cfg e = Some (rc, e')" and ok: "endpoints_ok e"
    and threads: "\<And>m lfd pfd d r d'. endpoints_ok d \<Longrightarrow> threads m lfd pfd d = Some (r, d') \<Longrightarrow> borrows d d' [] [] []"
  shows "endpoints_ok e' \<and> set (k_fds (ep_kernel e')) = set (k_fds (ep_kernel e))
    \<and> ep_bound e' = ep_bound e \<and> ep_listening e' = ep_listening e"
proof -
  obtain fd e1 where s: "create_listen_socket net (cf_listen_port cfg) 15 e = (fd, e1)" by fastforce
  note b1 = borrows_socket [OF ok s]
  have "borrows e e' [] [] []"
  proof (cases "fd < 0")
    case True
    then have "e' = e1" using run s by (simp add: server_run_def)
    then show ?thesis using b1 True by simp
  next
    case False
    then obtain p where b1: "borrows e e1 [fd] [(fd, p)] [(fd, 15)]" and ok1: "endpoints_ok e1" using b1 by auto
    obtain r k2 where pipe: "sys_pipe os (ep_kernel e1) = (r, k2)" by fastforce
    let ?e2 = "e1\<lparr>ep_kernel := k2\<rparr>"
    have b2: "borrows e1 ?e2 (case r of None \<Rightarrow> [] | Some (a, b) \<Rightarrow> [a, b]) [] []"
      using borrows_pipe [OF _ pipe] ok1 by (simp add: endpoints_ok_def)
    show ?thesis
    proof (cases r)
      case None
      then have e': "e' = close_socket fd ?e2" using run s pipe False by (simp add: server_run_def)
      have "borrows e ?e2 [fd] [(fd, p)] [(fd, 15)]" using borrows_trans [OF b1 b2] None by simp
      then show ?thesis using borrows_close_socket [OF _ ok, of _ "[fd]"] e' by fastforce
    next
      case (Some ab)
      then obtain a b where ab: "r = Some (a, b)" by (cases ab) auto
      have ok2: "endpoints_ok ?e2" using borrows_ok [OF ok1 b2] .
      obtain t e3 where tls: "start_tls_listener net lib cfg ?e2 = (t, e3)" by fastforce
      define tl where "tl = (if 0 \<le> t then [t] else [])"
      obtain bs ls where b3: "borrows ?e2 e3 tl bs ls" "fst ` set bs \<subseteq> set tl" "fst ` set ls \<subseteq> set tl"
        using borrows_tls [OF ok2 tls] by (auto simp: tl_def borrows_def split: if_splits)
      from run s pipe False ab tls obtain e4 where e4: "threads (cf_mode cfg) fd a e3 = Some (rc, e4)"
        "e' = on_kernel (sys_close b) (on_kernel (sys_close a)
           (if 0 \<le> t then close_socket t (close_socket fd e4) else close_socket fd e4))"
        by (auto simp: server_run_def Let_def split: option.splits if_splits)
      have "borrows e3 e4 [] [] []" using threads [OF borrows_ok [OF ok2 b3(1)] e4(1)] .
      then have all: "borrows e e4 (fd # a # b # tl) (bs @ [(fd, p)]) (ls @ [(fd, 15)])"
        using borrows_trans [OF borrows_trans [OF borrows_trans [OF b1 b2] b3(1)]] ab by fastforce
      show ?thesis unfolding e4(2) by (rule close_all [OF all ok _ _ tl_def]) (use b3(2,3) in auto)
    qed
  qed
  from borrows_ok [OF ok this] this show ?thesis by (simp add: borrows_def leaves_def)
qed

section \<open>A run\<close>

definition tls_config :: config where
  "tls_config = default_config\<lparr>cf_tls_cert_file := ''cert.pem'', cf_tls_key_file := ''key.pem'', cf_tls_port := 8443\<rparr>"

definition good_ctx :: ssl_ctx_lib where
  "good_ctx = \<lparr>ctx_new = True, ctx_use_certificate = \<lambda>_. True, ctx_use_key = \<lambda>_. True, ctx_check_key = \<lambda>_ _. True\<rparr>"

definition short_threads :: "mode \<Rightarrow> int \<Rightarrow> int \<Rightarrow> endpoints \<Rightarrow> (int \<times> endpoints) option" where
  "short_threads m lfd pfd e = Some (0, on_kernel tick e)"

lemma short_threads_ok: "endpoints_ok d \<Longrightarrow> short_threads m lfd pfd d = Some (r, d') \<Longrightarrow> borrows d d' [] [] []"
  by (auto simp: short_threads_def borrows_def endpoints_ok_def)

text \<open>With a certificate four descriptors are opened and closed again: two sockets and the pipe.\<close>

theorem server_run_releases_witness:
  "\<exists>e'. server_run busy_net busy_os good_ctx short_threads \<lparr>te_tls = True, te_management = True\<rparr> tls_config start_endpoints
      = Some (0, e') \<and> set (k_fds (ep_kernel e')) = {0, 1, 2} \<and> ep_bound e' = [] \<and> ep_listening e' = []"
proof -
  have ok: "endpoints_ok start_endpoints" by (simp add: endpoints_ok_def start_endpoints_def init_kernel_ok)
  let ?r = "server_run busy_net busy_os good_ctx short_threads \<lparr>te_tls = True, te_management = True\<rparr> tls_config start_endpoints"
  have "map_option fst ?r = Some 0" by code_simp
  then obtain e' where r: "?r = Some (0, e')" by auto
  have "ep_kernel start_endpoints = init_kernel" "ep_bound start_endpoints = []" "ep_listening start_endpoints = []"
    by (simp_all add: start_endpoints_def)
  then show ?thesis using server_run_releases [OF r ok short_threads_ok] r init_kernel_fds by auto
qed

end
