(* ===== verification/Thread_Mode.thy ===== *)
theory Thread_Mode
  imports Pool_Interleaving Server
begin

text \<open>
  The whole program in thread mode without HTTPS: \<open>main\<close>, \<open>HttpServer::run\<close> and the threads of
  \<open>Pool_Interleaving\<close> between the start of the pool and its end. \<open>server_run\<close> takes the run of the threads
  as an argument; here it is a run of the thread system that has returned.
\<close>

section \<open>The threads as the server runs them\<close>

definition server_threads :: "net \<Rightarrow> os \<Rightarrow> config \<Rightarrow> (nat \<Rightarrow> bool) \<Rightarrow> int \<Rightarrow> int \<Rightarrow> int \<Rightarrow> thread_setting" where
  "server_threads net os cfg accepting listen_fd shutdown_read shutdown_write =
     \<lparr>th_net = net, th_os = os, th_config = cfg, th_accepting = accepting, th_listen_fd = listen_fd,
      th_shutdown_fd = shutdown_read, th_shutdown_write = shutdown_write\<rparr>"

text \<open>\<open>run_thread_pool\<close> takes the process from \<open>e\<close> to \<open>e'\<close>, under some interleaving, and returns 0.\<close>

definition pool_run :: "net \<Rightarrow> os \<Rightarrow> config \<Rightarrow> int \<Rightarrow> int \<Rightarrow> endpoints \<Rightarrow> int \<Rightarrow> endpoints \<Rightarrow> bool" where
  "pool_run net os cfg listen_fd shutdown_read e result e' \<longleftrightarrow> result = 0
     \<and> (\<exists>accepting shutdown_write s.
          threads_reachable (server_threads net os cfg accepting listen_fd shutdown_read shutdown_write) (ep_kernel e) s
          \<and> tp_main (ts_pool s) = Returned \<and> e' = e\<lparr>ep_kernel := ts_kernel s\<rparr>)"

lemma pool_run_releases:
  assumes "pool_run net os cfg lfd sfd e r e'" "waits os" "kernel_ok (ep_kernel e)" "0 < cf_n_threads cfg"
  shows "borrows e e' [] [] []"
proof -
  obtain acc w s where s: "threads_reachable (server_threads net os cfg acc lfd sfd w) (ep_kernel e) s"
    "tp_main (ts_pool s) = Returned" "e' = e\<lparr>ep_kernel := ts_kernel s\<rparr>"
    using assms(1) by (auto simp: pool_run_def)
  let ?T = "server_threads net os cfg acc lfd sfd w"
  have T: "waits (th_os ?T)" "0 < n_threads ?T" using assms(2,4) by (simp_all add: server_threads_def n_threads_def)
  have "leaves (ep_kernel e) (ts_kernel s) (ts_owned s)"
    using threads_invariant [OF s(1) T(1) assms(3) T(2)] by (simp add: threads_ok_def)
  then show ?thesis using returned_owns_nothing [OF s(1) T(2) s(2)] s(3) by (simp add: borrows_def)
qed

section \<open>The program releases everything\<close>

text \<open>
  C12: the program in thread mode cleans up. Take any configuration file that loads, selects thread mode
  and has no HTTPS, and any clients, requests, scripts and interleaving of the threads: when \<open>main\<close> returns,
  the process has exactly the descriptors, bound ports and listening sockets it had when it started,
  and nothing was closed that was not open.
\<close>

theorem thread_mode_releases_all:
  assumes "main_program realpath cwd file (\<lambda>cfg. server_run net os lib (threads cfg) ends cfg) e = Some (rc, e')"
    and "load_config file default_config = (True, cfg0)" "cf_mode cfg0 = Threads"
    and "cf_tls_cert_file cfg0 = [] \<or> cf_tls_key_file cfg0 = []"
    and "\<And>cfg lfd sfd d r d'. threads cfg Threads lfd sfd d = Some (r, d') \<Longrightarrow> pool_run net os cfg lfd sfd d r d'"
    and "waits os" "endpoints_ok e"
  shows "kernel_ok (ep_kernel e') \<and> set (k_fds (ep_kernel e')) = set (k_fds (ep_kernel e))
    \<and> ep_bound e' = ep_bound e \<and> ep_listening e' = ep_listening e"
proof -
  define cfg where "cfg = resolve_document_roots realpath cwd cfg0"
  have cfg: "cf_mode cfg = Threads" "0 < cf_n_threads cfg"
    using assms(3) load_config_ok [OF assms(2)]
    by (auto simp: cfg_def resolve_document_roots_def config_ok_def in_int_range_def split: option.split)
  define thr where "thr = (\<lambda>m. if m = Threads then threads cfg m else (\<lambda>_ _ _. None))"
  have "server_run net os lib (threads cfg) ends cfg e = Some (rc, e')"
    using assms(1,2) by (simp add: main_program_def cfg_def)
  then have run: "server_run net os lib thr ends cfg e = Some (rc, e')"
    unfolding server_run_def thr_def cfg(1) by simp
  have "borrows d d' [] [] []" if "endpoints_ok d" "thr m lfd sfd d = Some (r, d')" for m lfd sfd d r d'
    by (rule pool_run_releases [OF assms(5) assms(6) _ cfg(2)])
      (use that in \<open>auto simp: thr_def endpoints_ok_def split: if_splits\<close>)
  from server_run_releases [OF run assms(7) this] show ?thesis by (simp add: endpoints_ok_def)
qed

section \<open>A run of the program\<close>

text \<open>One worker; the shutdown pipe is readable at once, and nobody has come. The threads as a function, for one worker.\<close>

definition prompt_net :: net where
  "prompt_net = busy_net\<lparr>net_select := \<lambda>_. Inr (False, True)\<rparr>"

definition prompt_threads :: "net \<Rightarrow> os \<Rightarrow> config \<Rightarrow> mode \<Rightarrow> int \<Rightarrow> int \<Rightarrow> endpoints \<Rightarrow> (int \<times> endpoints) option" where
  "prompt_threads net os cfg m listen_fd shutdown_read e =
     (case wait_for_accept_or_shutdown net os shutdown_read (ep_kernel e) of ((listen_readable, shutdown_requested), k1) \<Rightarrow>
        if shutdown_requested \<and> cf_n_threads cfg = 1 then Some (0, e\<lparr>ep_kernel := k1\<rparr>) else None)"

lemma one_worker_returns:
  assumes "n_threads T = 1" "wait_for_accept_or_shutdown (th_net T) (th_os T) (th_shutdown_fd T) k = ((lr, True), k1)"
  shows "\<exists>s. threads_reachable T k s \<and> tp_main (ts_pool s) = Returned \<and> ts_kernel s = k1"
proof -
  define s0 where "s0 = start_threads T k"
  define s1 where "s1 = acceptor_turn T 0 s0"
  have p0: "ts_pool s0 = init_pool 1" "ts_kernel s0 = k" by (simp_all add: s0_def start_threads_def assms(1))
  have r1: "threads_reachable T k s1" unfolding s1_def s0_def
    by (rule threads_reachable.step [OF threads_reachable.start thread_step.acceptor])
      (simp_all add: start_threads_def init_pool_def)
  have s1: "ts_kernel s1 = k1" "ts_pool s1 = (init_pool 1)\<lparr>tp_accepting := False\<rparr>"
    by (simp_all add: s1_def acceptor_turn_def p0 assms(2) acceptor_iteration_def)
  define s2 where "s2 = s1\<lparr>ts_pool := push_sentinels 1 (ts_pool s1)\<rparr>"
  have r2: "threads_reachable T k s2"
    using threads_reachable.step [OF r1 thread_step.sentinels] by (simp add: s2_def s1 init_pool_def assms(1))
  define s3 where "s3 = s2\<lparr>ts_pool := (ts_pool s2)\<lparr>tp_workers := notify_all (tp_workers (ts_pool s2)), tp_main := Join_workers\<rparr>\<rparr>"
  have r3: "threads_reachable T k s3"
    using threads_reachable.step [OF r2 thread_step.wake_all] by (simp add: s3_def s2_def s1 push_sentinels_def init_pool_def)
  have p3: "tp_workers (ts_pool s3) = [Checking]" "tp_queue (ts_pool s3) = [sentinel]" "tp_main (ts_pool s3) = Join_workers"
    by (simp_all add: s3_def s2_def s1 push_sentinels_def init_pool_def notify_all_def)
  define s4 where "s4 = s3\<lparr>ts_pool := worker_dequeue 0 (ts_pool s3), ts_at := (ts_at s3)[0 := Fetching init_parser]\<rparr>"
  have r4: "threads_reachable T k s4"
    using threads_reachable.step [OF r3 thread_step.dequeue, of 0] by (simp add: s4_def p3 assms(1))
  have p4: "tp_workers (ts_pool s4) = [Exited]" "tp_main (ts_pool s4) = Join_workers" "ts_kernel s4 = k1"
    by (simp_all add: s4_def p3 worker_dequeue_def) (simp add: s3_def s2_def s1)
  have "threads_reachable T k (s4\<lparr>ts_pool := (ts_pool s4)\<lparr>tp_main := Returned\<rparr>\<rparr>)"
    using threads_reachable.step [OF r4 thread_step.joined] by (simp add: p4)
  then show ?thesis using p4(3) by (intro exI [of _ "s4\<lparr>ts_pool := (ts_pool s4)\<lparr>tp_main := Returned\<rparr>\<rparr>"]) simp
qed

lemma prompt_threads_run:
  assumes "prompt_threads net os cfg m lfd sfd d = Some (r, d')"
  shows "pool_run net os cfg lfd sfd d r d'"
proof -
  obtain lr sr k1 where w: "wait_for_accept_or_shutdown net os sfd (ep_kernel d) = ((lr, sr), k1)" by (metis prod.collapse)
  with assms have e: "sr" "cf_n_threads cfg = 1" "r = 0" "d' = d\<lparr>ep_kernel := k1\<rparr>"
    by (auto simp: prompt_threads_def split: if_splits)
  let ?T = "server_threads net os cfg (\<lambda>_. True) lfd sfd 0"
  have "n_threads ?T = 1" "wait_for_accept_or_shutdown (th_net ?T) (th_os ?T) (th_shutdown_fd ?T) (ep_kernel d) = ((lr, True), k1)"
    using w e by (simp_all add: server_threads_def n_threads_def)
  from one_worker_returns [OF this] obtain s where
    "threads_reachable ?T (ep_kernel d) s" "tp_main (ts_pool s) = Returned" "ts_kernel s = k1" by blast
  then show ?thesis unfolding pool_run_def e(4) using e(3) by blast
qed

theorem thread_mode_releases_all_witness:
  "\<exists>e'. main_program (\<lambda>p. None) None (Some (''nThreads 1'' @ [LF]))
       (\<lambda>cfg. server_run prompt_net busy_os good_ctx (prompt_threads prompt_net busy_os cfg) \<lparr>te_tls = True, te_management = True\<rparr> cfg)
       start_endpoints = Some (0, e')
     \<and> set (k_fds (ep_kernel e')) = {0, 1, 2} \<and> ep_bound e' = [] \<and> ep_listening e' = []"
proof -
  let ?run = "main_program (\<lambda>p. None) None (Some (''nThreads 1'' @ [LF]))
       (\<lambda>cfg. server_run prompt_net busy_os good_ctx (prompt_threads prompt_net busy_os cfg) \<lparr>te_tls = True, te_management = True\<rparr> cfg)
       start_endpoints"
  have load: "load_config (Some (''nThreads 1'' @ [LF])) default_config = (True, default_config\<lparr>cf_mode := Threads, cf_n_threads := 1\<rparr>)"
    by code_simp
  have "map_option fst ?run = Some 0" by code_simp
  then obtain e' where r: "?run = Some (0, e')" by auto
  have ok: "endpoints_ok start_endpoints" by (simp add: endpoints_ok_def start_endpoints_def init_kernel_ok)
  have w: "waits busy_os" by (simp add: waits_def busy_os_def idle_os_def)
  have "ep_kernel start_endpoints = init_kernel" "ep_bound start_endpoints = []" "ep_listening start_endpoints = []"
    by (simp_all add: start_endpoints_def)
  then show ?thesis
    using thread_mode_releases_all [OF r load _ _ prompt_threads_run w ok] r init_kernel_fds
    by (auto simp: default_config_def)
qed

end
