(* ===== verification/Poller.thy ===== *)
theory Poller
  imports Event_Loop
begin

unbundle bit_operations_syntax

text \<open>
  \<open>server/poller.hpp\<close>: the interface of the pollers (\<open>poller\<close> in \<open>Event_Loop\<close>: which events are wanted of which
  descriptor) and its implementations over \<open>epoll\<close> (Linux) and \<open>kqueue\<close> (macOS).
\<close>

section \<open>The interface\<close>

text \<open>
  What the event loop needs of a poller: a new descriptor is watched as asked, a change replaces what was
  wanted, a removed descriptor is not watched.
\<close>

locale poller_spec =
  fixes interest :: "'p \<Rightarrow> int \<Rightarrow> (bool \<times> bool) option"
    and add :: "int \<Rightarrow> bool \<Rightarrow> bool \<Rightarrow> 'p \<Rightarrow> 'p"
    and change :: "int \<Rightarrow> bool \<Rightarrow> bool \<Rightarrow> 'p \<Rightarrow> 'p"
    and drop_fd :: "int \<Rightarrow> 'p \<Rightarrow> 'p"
  assumes add: "interest p fd = None \<Longrightarrow> interest (add fd r w p) = (interest p)(fd \<mapsto> (r, w))"
    and change: "interest p fd \<noteq> None \<Longrightarrow> interest (change fd r w p) = (interest p)(fd \<mapsto> (r, w))"
    and drop_fd: "interest (drop_fd fd p) = (interest p)(fd := None)"
begin

text \<open>One request and its response: watched for reading, for writing, and for reading again.\<close>

lemma request_cycle:
  assumes "interest p fd = None"
  shows "interest (change fd False True (add fd True False p)) = (interest p)(fd \<mapsto> (False, True))"
    and "interest (change fd True False (change fd False True (add fd True False p))) = (interest p)(fd \<mapsto> (True, False))"
    and "interest (drop_fd fd (change fd False True (add fd True False p))) = interest p"
proof -
  have a: "interest (add fd True False p) = (interest p)(fd \<mapsto> (True, False))" using assms by (rule add)
  then show c: "interest (change fd False True (add fd True False p)) = (interest p)(fd \<mapsto> (False, True))"
    by (subst change) simp_all
  then show "interest (change fd True False (change fd False True (add fd True False p))) = (interest p)(fd \<mapsto> (True, False))"
    by (subst change) simp_all
  show "interest (drop_fd fd (change fd False True (add fd True False p))) = interest p"
    using assms by (simp add: drop_fd c fun_eq_iff)
qed

end

interpretation abstract: poller_spec "\<lambda>p. p" poller_add poller_modify poller_remove
  by unfold_locales (auto simp: poller_add_def poller_modify_def poller_remove_def)

section \<open>epoll\<close>

text \<open>The interest list of the kernel: the event mask of each registered descriptor.\<close>

type_synonym epoll = "int \<Rightarrow> 32 word option"

definition EPOLLIN :: "32 word" where
  "EPOLLIN = 0x001"

definition EPOLLOUT :: "32 word" where
  "EPOLLOUT = 0x004"

definition EPOLLET :: "32 word" where
  "EPOLLET = 0x80000000"

definition events_mask :: "bool \<Rightarrow> bool \<Rightarrow> 32 word" where
  "events_mask want_read want_write =
     (let mask = EPOLLET; mask = (if want_read then mask OR EPOLLIN else mask)
      in if want_write then mask OR EPOLLOUT else mask)"

text \<open>\<open>EPOLL_CTL_ADD\<close> fails on a registered descriptor, \<open>EPOLL_CTL_MOD\<close> and \<open>EPOLL_CTL_DEL\<close> on any other.\<close>

definition epoll_add :: "int \<Rightarrow> bool \<Rightarrow> bool \<Rightarrow> epoll \<Rightarrow> epoll" where
  "epoll_add fd want_read want_write e = (if e fd = None then e(fd \<mapsto> events_mask want_read want_write) else e)"

definition epoll_modify :: "int \<Rightarrow> bool \<Rightarrow> bool \<Rightarrow> epoll \<Rightarrow> epoll" where
  "epoll_modify fd want_read want_write e = (if e fd = None then e else e(fd \<mapsto> events_mask want_read want_write))"

definition epoll_remove :: "int \<Rightarrow> epoll \<Rightarrow> epoll" where
  "epoll_remove fd e = e(fd := None)"

text \<open>What \<open>epoll_wait\<close> returned: a number, negative for an error, and the filled part of the array.\<close>

definition epoll_wait_events :: "int \<Rightarrow> (int \<times> 32 word) list \<Rightarrow> poll_event list" where
  "epoll_wait_events n events =
     map (\<lambda>(fd, ev). Poll_event fd (ev AND EPOLLIN \<noteq> 0) (ev AND EPOLLOUT \<noteq> 0)) (take (nat n) events)"

definition epoll_interest :: "epoll \<Rightarrow> poller" where
  "epoll_interest e fd = map_option (\<lambda>m. (m AND EPOLLIN \<noteq> 0, m AND EPOLLOUT \<noteq> 0)) (e fd)"

lemma events_mask_bits: "events_mask r w AND EPOLLIN \<noteq> 0 \<longleftrightarrow> r" "events_mask r w AND EPOLLOUT \<noteq> 0 \<longleftrightarrow> w"
    "events_mask r w AND EPOLLET \<noteq> 0"
  by (cases r; cases w; simp add: events_mask_def EPOLLIN_def EPOLLOUT_def EPOLLET_def)+

lemma epoll_interest_upd: "epoll_interest (e(fd \<mapsto> events_mask r w)) = (epoll_interest e)(fd \<mapsto> (r, w))"
  by (simp add: fun_eq_iff epoll_interest_def events_mask_bits)

interpretation epoll: poller_spec epoll_interest epoll_add epoll_modify epoll_remove
  by unfold_locales
    (simp_all add: epoll_add_def epoll_modify_def epoll_remove_def epoll_interest_upd, simp_all add: epoll_interest_def fun_eq_iff)


section \<open>kqueue\<close>

datatype kq_filter = EVFILT_READ | EVFILT_WRITE
datatype kq_flag = EV_ADD | EV_DELETE

text \<open>The registered filters. Disabled filters do not occur: the code always adds with \<open>EV_ENABLE\<close>.\<close>

type_synonym kqueue = "(int \<times> kq_filter) set"

text \<open>
  \<open>kevent\<close> with changes and no room for events applies them in order and returns at the first one that fails;
  deleting a filter that is not registered fails (\<open>ENOENT\<close>).
\<close>

fun kevent_changes :: "(int \<times> kq_filter \<times> kq_flag) list \<Rightarrow> kqueue \<Rightarrow> kqueue" where
  "kevent_changes [] q = q"
| "kevent_changes ((fd, filt, EV_ADD) # rest) q = kevent_changes rest (insert (fd, filt) q)"
| "kevent_changes ((fd, filt, EV_DELETE) # rest) q =
     (if (fd, filt) \<in> q then kevent_changes rest (q - {(fd, filt)}) else q)"

definition kq_change :: "int \<Rightarrow> bool \<Rightarrow> bool \<Rightarrow> kqueue \<Rightarrow> kqueue" where
  "kq_change fd want_read want_write q =
     kevent_changes ((if want_read then [(fd, EVFILT_READ, EV_ADD)] else [])
       @ (if want_write then [(fd, EVFILT_WRITE, EV_ADD)] else [])) q"

definition kq_add :: "int \<Rightarrow> bool \<Rightarrow> bool \<Rightarrow> kqueue \<Rightarrow> kqueue" where
  "kq_add fd want_read want_write q = kq_change fd want_read want_write q"

definition kq_remove :: "int \<Rightarrow> kqueue \<Rightarrow> kqueue" where
  "kq_remove fd q = kevent_changes [(fd, EVFILT_READ, EV_DELETE), (fd, EVFILT_WRITE, EV_DELETE)] q"

definition kq_modify :: "int \<Rightarrow> bool \<Rightarrow> bool \<Rightarrow> kqueue \<Rightarrow> kqueue" where
  "kq_modify fd want_read want_write q =
     kq_change fd want_read want_write
       (kevent_changes [(fd, EVFILT_READ, EV_DELETE), (fd, EVFILT_WRITE, EV_DELETE)] q)"

text \<open>The reported filters, merged into one event for each descriptor.\<close>

fun merge_event :: "int \<Rightarrow> bool \<Rightarrow> bool \<Rightarrow> poll_event list \<Rightarrow> poll_event list" where
  "merge_event fd r w [] = [Poll_event fd r w]"
| "merge_event fd r w (ev # out) =
     (if ev_fd ev = fd then Poll_event fd (ev_readable ev \<or> r) (ev_writable ev \<or> w) # out
      else ev # merge_event fd r w out)"

definition kq_wait_events :: "int \<Rightarrow> (int \<times> kq_filter) list \<Rightarrow> poll_event list" where
  "kq_wait_events n events =
     fold (\<lambda>(fd, filt) out. merge_event fd (filt = EVFILT_READ) (filt = EVFILT_WRITE) out) (take (nat n) events) []"

definition kq_interest :: "kqueue \<Rightarrow> poller" where
  "kq_interest q fd =
     (let r = (fd, EVFILT_READ) \<in> q; w = (fd, EVFILT_WRITE) \<in> q in if r \<or> w then Some (r, w) else None)"

lemmas kq_defs = kq_change_def kq_add_def kq_remove_def kq_modify_def kq_interest_def

text \<open>
  The poller of macOS does not implement the interface. When a response has been written and the
  connection goes back to reading, deleting the read filter, which is not registered, fails, and the write
  filter is left in place: the descriptor stays watched for writing, is reported ready at once in every round,
  and the event loop spins. The same sequence on Linux leaves exactly the read event.
\<close>

theorem kqueue_keeps_write_filter:
  assumes "kq_interest q fd = None" "epoll_interest e fd = None"
  shows "kq_interest (kq_modify fd False True (kq_add fd True False q)) fd = Some (False, True)
    \<and> kq_interest (kq_modify fd True False (kq_modify fd False True (kq_add fd True False q))) fd = Some (True, True)
    \<and> epoll_interest (epoll_modify fd True False (epoll_modify fd False True (epoll_add fd True False e))) fd = Some (True, False)"
  using assms(1) epoll.request_cycle(2) [OF assms(2)]
  by (auto simp: kq_defs Let_def split: if_splits)

theorem kqueue_keeps_write_filter_witness:
  "kq_interest (kq_modify 5 True False (kq_modify 5 False True (kq_add 5 True False {}))) 5 = Some (True, True)"
proof -
  have "kq_interest {} 5 = None" "epoll_interest (\<lambda>_. None) 5 = None"
    by (simp_all add: kq_interest_def epoll_interest_def)
  from kqueue_keeps_write_filter [OF this] show ?thesis by blast
qed

section \<open>What kqueue reports\<close>

lemma merge_event_fds: "map ev_fd (merge_event fd r w out) = (if fd \<in> ev_fd ` set out then map ev_fd out else map ev_fd out @ [fd])"
  by (induction out) auto

lemma merge_event_distinct: "distinct (map ev_fd out) \<Longrightarrow> distinct (map ev_fd (merge_event fd r w out))"
  by (auto simp: merge_event_fds)

definition reported :: "poll_event list \<Rightarrow> int \<Rightarrow> bool \<times> bool" where
  "reported out fd = (\<exists>ev \<in> set out. ev_fd ev = fd \<and> ev_readable ev, \<exists>ev \<in> set out. ev_fd ev = fd \<and> ev_writable ev)"

lemma merge_event_reported:
  "distinct (map ev_fd out) \<Longrightarrow> reported (merge_event fd r w out) fd' =
     (if fd' = fd then (fst (reported out fd) \<or> r, snd (reported out fd) \<or> w) else reported out fd')"
  by (induction out) (auto simp: reported_def image_iff)

text \<open>\<open>wait\<close> names each descriptor once, with exactly the filters that fired.\<close>

lemma kq_wait_events_merges:
  "distinct (map ev_fd (kq_wait_events n events))
   \<and> reported (kq_wait_events n events) fd
      = ((fd, EVFILT_READ) \<in> set (take (nat n) events), (fd, EVFILT_WRITE) \<in> set (take (nat n) events))"
proof -
  have "distinct (map ev_fd (fold (\<lambda>(fd, filt) out. merge_event fd (filt = EVFILT_READ) (filt = EVFILT_WRITE) out) evs out))
     \<and> reported (fold (\<lambda>(fd, filt) out. merge_event fd (filt = EVFILT_READ) (filt = EVFILT_WRITE) out) evs out) fd
      = (fst (reported out fd) \<or> (fd, EVFILT_READ) \<in> set evs, snd (reported out fd) \<or> (fd, EVFILT_WRITE) \<in> set evs)"
    if "distinct (map ev_fd out)" for evs out
    using that
  proof (induction evs arbitrary: out)
    case (Cons ev evs)
    obtain g filt where ev: "ev = (g, filt)" by fastforce
    show ?case
      using Cons.IH [OF merge_event_distinct [OF Cons.prems, of g "filt = EVFILT_READ" "filt = EVFILT_WRITE"]] Cons.prems
      by (cases filt) (auto simp: ev merge_event_reported)
  qed simp
  from this [of "[]" "take (nat n) events"] show ?thesis by (simp add: kq_wait_events_def reported_def)
qed

end
