(* ===== verification/Spec2Isabelle.thy ===== *)
theory Spec2Isabelle
  imports Parser_Properties Access_Log Loop_Interleaving Thread_Mode Poller
begin

text \<open>
  A model of the HTTP server in \<open>src/\<close> (C++): parsing of requests, the pipeline that answers them,
  static files, directory listings and scripts, the connections that carry them (blocking threads, an
  event loop, TLS), and the start and shutdown of the whole.

  How the program works. \<open>main\<close> loads a configuration and runs \<open>HttpServer\<close>. A listening socket is
  watched by an acceptor thread, which passes clients through a queue to workers. In thread mode a
  worker reads, handles and answers one client at a time; in select mode each worker multiplexes
  its clients with a poller. An optional second listener serves HTTPS, one thread per client. Every
  request goes through \<open>RequestParser\<close> and \<open>RequestHandler\<close>, whose phases find the virtual host, map
  the path below its document root, ask \<open>.htaccess\<close>, produce the content and write one log line.

  Theories and sources.
  \<^item> \<open>Httpd_Prelude\<close>: characters, strings, \<open>std::map\<close> as a sorted association list, decimal numbers.
  \<^item> \<open>Http_Message\<close> (\<open>http/core/http_request\<close>, \<open>http_response\<close>): requests and responses, serialisation.
  \<^item> \<open>Handler_Utils\<close>, \<open>Path_Utils\<close>, \<open>Base64\<close>, \<open>Http_Date\<close> (\<open>http/core/request_handler_utils.cpp\<close>): strings,
    paths, Base64 with its 32-bit accumulator, dates.
  \<^item> \<open>Request_Parser\<close>, \<open>Parser_Properties\<close> (\<open>http/core/request_parser\<close>): the incremental parser.
  \<^item> \<open>Config_File\<close> (\<open>config/config.cpp\<close>, part of \<open>main.cpp\<close>), \<open>Vhost_Resolver\<close> (\<open>http/routing\<close>).
  \<^item> \<open>Kernel\<close>: the system calls the program makes. What a call returns is decided by the environment
    \<open>os\<close>, a function of the number of calls made before; what a call does to the process is in the
    record \<open>kernel\<close> (open descriptors, bytes sent and received, children, programs started, log).
  \<^item> \<open>Auth_Handler\<close>, \<open>Static_File\<close>, \<open>Directory_Listing\<close>, \<open>Cgi_Handler\<close> (\<open>http/handlers\<close>), and
    \<open>Request_Pipeline\<close>, \<open>Pipeline_Properties\<close> (\<open>request_handler.cpp\<close>, \<open>phase_context.hpp\<close>); \<open>Access_Log\<close>
    (\<open>http/core/logger.hpp\<close>): what the entries become in the log file.
  \<^item> \<open>Wire\<close>: handling a request does not touch the client's descriptor. \<open>Connection\<close>, \<open>Connection_Wire\<close>,
    \<open>Conversation\<close>, \<open>Connection_Properties\<close> (\<open>http/connection/connection_manager.cpp\<close>).
  \<^item> \<open>Event_Loop\<close>, \<open>Event_Loop_Writing\<close>, \<open>Event_Loop_Invariant\<close> (\<open>server/select_mode.cpp\<close>), \<open>Poller\<close>
    (\<open>server/poller.hpp\<close>, over epoll and kqueue); \<open>Select_Shutdown\<close> (\<open>run_select_loops\<close> from the shutdown command on);
    \<open>Loop_Interleaving\<close> (the acceptor and all event loops of \<open>run_select_loops\<close>, step by step, in any order).
  \<^item> \<open>Thread_Pool\<close> (\<open>server/thread_pool_mode.cpp\<close>), \<open>Pool_Interleaving\<close> (the same with the calls its threads make,
    each connection going step by step through \<open>handle_connection\<close>), \<open>Tls_Connection\<close> (\<open>server/tls.cpp\<close>), \<open>Listening\<close>
    (\<open>server/socket_setup.cpp\<close>, \<open>management_thread.cpp\<close>, the acceptor of select mode), \<open>Server\<close> (\<open>server/server.cpp\<close>),
    \<open>Thread_Mode\<close> (\<open>main\<close>, the server and the threads of the thread mode put together).

  Interfaces. \<open>fd_handler\<close> and \<open>fd_client\<close> (\<open>Kernel\<close>) say that a handler leaves open only what its
  answer owns and that its client disposes of it; they are interpreted by static files, directories, scripts, the
  pipeline and the connection. \<open>transport\<close> (\<open>Conversation\<close>) says what reading a request and sending a
  response must do for a connection to answer the stream of its client; plain sockets and TLS
  channels interpret it, and the theorems about both connections are instances of one proof.
  \<open>poller_spec\<close> (\<open>Poller\<close>) says what the event loop needs of a poller; epoll meets it, kqueue does not.
  The locale of \<open>Parser_Properties\<close> does the same for feeding a parser in pieces.

  What is shown. Parsing does not depend on how the stream is cut; requests, responses,
  configurations, dates and Base64 are read back as written; paths stay below the document root and
  nothing is disclosed that \<open>.htaccess\<close> protects, except through NUL bytes; byte ranges lie inside the file; a
  script is always waited for and cannot upset the framing of its response; the phases amount to one chain of
  decisions, each answer logged once; a connection answers exactly the requests of its stream, in order, and
  leaks nothing and is one line of the log for each request; the event loop keeps its tables consistent and
  loses no byte; any number of event loops share the clients among them, each client owned by one loop and
  none forgotten in the queue, and the interleaved steps of a loop are proved to be its code; the thread pool
  serves every client once, never loses a wake-up and shuts down under every interleaving, and with the calls
  its threads make it still does and leaves no descriptor open; the select
  mode does not shut down; the server releases what it opened, and in thread mode the whole program does.

  Errors, loops and bounds. An uncaught C++ exception is \<open>Inl\<close>, a returned value \<open>Inr\<close>. A loop that need not
  end is a \<open>partial_function (option)\<close>, and \<open>None\<close> is not returning; that a loop returns is proved
  where it does (\<open>handle_returns\<close>, \<open>response_delivered\<close>, \<open>ssl_write_all_returns\<close>). No fuel is used. Machine
  integers are words where they can wrap (sizes, the accumulator of Base64, ports, casts to
  \<open>int\<close>), else \<open>int\<close> or \<open>nat\<close>. Threads are interleaved critical sections; the steps of a run are
  those of an \<open>inductive\<close> relation and a property holds for every interleaving.

  Parameters. The environment \<open>os\<close> and \<open>net\<close>; OpenSSL (\<open>openssl\<close>, \<open>ssl_ctx_lib\<close>). Hypotheses on them are
  named: \<open>waits\<close> (\<open>waitpid\<close> succeeds on a child), \<open>reliable\<close> (the client keeps receiving), \<open>wakes\<close> (a byte
  can be written to the wake pipe), \<open>files_fixed\<close>, \<open>ssl_fills\<close>, \<open>ssl_reliable\<close>. Whether the log file can be
  opened is an argument. In
  \<open>server_run\<close> the run of the connection threads is an argument, which \<open>Thread_Mode\<close> takes from \<open>Pool_Interleaving\<close>.

  Not modelled: the text of messages on
  the console and of OpenSSL's errors, memory exhaustion, and data races (the code shares
  only atomics and data under its mutexes). Edge triggering is left to the environment, which decides what the
  poller reports. \<open>Event_Loop\<close> follows one event loop, \<open>Loop_Interleaving\<close> all of them up to an uncaught exception, which
  ends the process; there a call and the use of its result are one step. \<open>Pool_Interleaving\<close> does the same for the
  thread mode, in coarser steps: reading a request, handling it, and writing the response.
\<close>

section \<open>From the configuration file to the file served\<close>

lemma resolve_vhost_configured: "resolve_vhost cfg request = Some vh \<Longrightarrow> vh \<in> set (cf_virtual_hosts cfg)"
  by (auto simp: resolve_vhost_def Let_def find_Some_iff split: if_splits option.splits list.splits)

text \<open>
  C2: end-to-end confinement. Take any configuration file that loads, and any working directory: once
  \<open>main\<close> has resolved the document roots, every file the server hands out for a request lies below the document root
  of a configured virtual host, provided that every virtual host has a document root and neither the roots nor the
  request contain a NUL byte.
\<close>

theorem configured_server_confined:
  assumes "load_config file default_config = (True, cfg0)"
    and "is_absolute base" "\<And>p r. realpath p = Some r \<Longrightarrow> is_absolute r"
    and "cfg = resolve_document_roots realpath (Some base) cfg0"
    and "\<forall>vh \<in> set (cf_virtual_hosts cfg). vh_document_root vh \<noteq> [] \<and> CHR 0x00 \<notin> set (vh_document_root vh)"
    and "CHR 0x00 \<notin> set (rq_uri request)"
    and "handle os cfg request accepting addr k = Some (Inr r, k')" "0 \<le> rs_body_fd r"
  shows "\<exists>vh \<in> set (cf_virtual_hosts cfg). \<exists>q. map_of (k_open k') (rs_body_fd r) = Some (Regular q)
    \<and> path_under_root q (vh_document_root vh)"
proof -
  obtain vh where vh: "resolve_vhost cfg request = Some vh"
    using handle_discloses_vhost [OF assms(7,8)] by blast
  then have m: "vh \<in> set (cf_virtual_hosts cfg)" by (rule resolve_vhost_configured)
  then have "is_absolute (vh_document_root vh)"
    using document_roots_absolute [where realpath = realpath and base = base and vh = vh and cfg = cfg0] assms(2-5) by blast
  with handle_confined [OF assms(7) vh] m assms(5,6,8) show ?thesis by blast
qed

definition srv_file :: string where
  "srv_file = ''<VirtualHost *>'' @ [LF] @ ''DocumentRoot www'' @ [LF] @ ''ServerName x'' @ [LF] @ ''</VirtualHost>'' @ [LF]"

theorem configured_server_confined_witness:
  "\<exists>r k' q. handle srv_os srv_config (srv_get ''/a.txt'') True None init_kernel = Some (Inr r, k')
     \<and> map_of (k_open k') (rs_body_fd r) = Some (Regular q) \<and> path_under_root q ''/srv/www''"
proof -
  let ?cfg0 = "default_config\<lparr>cf_virtual_hosts := [\<lparr>vh_document_root = ''www'', vh_server_name = ''x''\<rparr>]\<rparr>"
  let ?realpath = "\<lambda>p. if p = ''/srv/www'' then Some p else None"
  have load: "load_config (Some srv_file) default_config = (True, ?cfg0)" by code_simp
  have abs: "is_absolute ''/srv''" "\<And>p r. ?realpath p = Some r \<Longrightarrow> is_absolute r"
    by (auto simp: is_absolute_def split: if_splits)
  have cfg: "srv_config = resolve_document_roots ?realpath (Some ''/srv'') ?cfg0"
    by (simp add: srv_config_def srv_host_def resolve_document_roots_def resolve_document_root_def default_config_def)
  have roots: "\<forall>vh \<in> set (cf_virtual_hosts srv_config). vh_document_root vh \<noteq> [] \<and> CHR 0x00 \<notin> set (vh_document_root vh)"
    by (simp add: srv_config_def srv_host_def)
  have uri: "CHR 0x00 \<notin> set (rq_uri (srv_get ''/a.txt''))" by (simp add: srv_get_def)
  obtain r k' where r: "handle srv_os srv_config (srv_get ''/a.txt'') True None init_kernel = Some (Inr r, k')"
    "0 \<le> rs_body_fd r" using srv_answer by blast
  from configured_server_confined [OF load abs cfg roots uri r] r(1) show ?thesis
    by (auto simp: srv_config_def srv_host_def)
qed

end
